theory Spec2Isabelle
  imports Complex_Main "HOL-Library.Multiset"
begin

section \<open>Data access: slices, indices, panics\<close>

text \<open>
  The Go code works in place on a slice \<open>data\<close> through integer indices. A slice is a
  list, an index is an \<open>int\<close> (Go's \<open>int\<close>; no index ever leaves the range of the
  slice length plus one, so 64-bit wrap-around plays no role). Reading or swapping at an
  index outside \<open>[0, len)\<close> panics in Go; the panic is the value \<open>Inl IndexOutOfRange\<close>.
  A call that never returns is the value \<open>None\<close> of the two drivers.
\<close>

datatype error = IndexOutOfRange

definition inb :: "'a list \<Rightarrow> int \<Rightarrow> bool" where
  "inb d i \<longleftrightarrow> 0 \<le> i \<and> i < int (length d)"

definition item :: "'a list \<Rightarrow> int \<Rightarrow> 'a" where
  "item d i = d ! nat i"

definition swp :: "'a list \<Rightarrow> int \<Rightarrow> int \<Rightarrow> 'a list" where
  "swp d i j = d[nat i := d ! nat j, nat j := d ! nat i]"

text \<open>\<open>less(data[i], data[j])\<close>, \<open>data.Less(i, j)\<close>, \<open>data[i] < data[j]\<close>.\<close>

definition Less :: "('a \<Rightarrow> 'a \<Rightarrow> bool) \<Rightarrow> 'a list \<Rightarrow> int \<Rightarrow> int \<Rightarrow> error + bool" where
  "Less lt d i j =
     (if inb d i \<and> inb d j then Inr (lt (item d i) (item d j)) else Inl IndexOutOfRange)"

text \<open>\<open>data[i], data[j] = data[j], data[i]\<close>, \<open>data.Swap(i, j)\<close>.\<close>

definition Swap :: "'a list \<Rightarrow> int \<Rightarrow> int \<Rightarrow> error + 'a list" where
  "Swap d i j = (if inb d i \<and> inb d j then Inr (swp d i j) else Inl IndexOutOfRange)"

text \<open>Go's \<open>x / y\<close> on \<open>int\<close> truncates towards zero.\<close>

definition quot :: "int \<Rightarrow> int \<Rightarrow> int" where
  "quot x y = (if 0 \<le> x then x div y else - ((- x) div y))"

section \<open>FloydRivest\<close>

text \<open>
  The three surface shapes (\<open>floydRivest\<close> over \<open>sort.Interface\<close>, \<open>floydRivestOrdered\<close>,
  \<open>floydRivestFunc\<close>) are the same text up to how a comparison is written: \<open>data.Less(i, j)\<close>,
  \<open>data[i] < data[j]\<close>, \<open>less(data[i], data[j])\<close>. The model is that text, with the
  comparison of two items the parameter \<open>lt\<close>.

  The forward scan \<open>for less(data[i], data[pivot]) { i++ }\<close> and the backward scan
  \<open>for less(data[pivot], data[j]) { j-- }\<close> have no bound of their own: they stop at an
  item that fails the test, or panic when the index leaves the slice.
\<close>

function fr_scan_up :: "('a \<Rightarrow> 'a \<Rightarrow> bool) \<Rightarrow> 'a list \<Rightarrow> int \<Rightarrow> int \<Rightarrow> error + int" where
  "fr_scan_up lt d i pivot =
     (case Less lt d i pivot of
        Inl e \<Rightarrow> Inl e
      | Inr c \<Rightarrow> if c then fr_scan_up lt d (i + 1) pivot else Inr i)"
  by pat_completeness auto
termination
  by (relation "measure (\<lambda>(lt, d, i, pivot). nat (int (length d) - i))")
     (auto simp: Less_def inb_def split: if_splits)

declare fr_scan_up.simps [simp del]

function fr_scan_down :: "('a \<Rightarrow> 'a \<Rightarrow> bool) \<Rightarrow> 'a list \<Rightarrow> int \<Rightarrow> int \<Rightarrow> error + int" where
  "fr_scan_down lt d j pivot =
     (case Less lt d pivot j of
        Inl e \<Rightarrow> Inl e
      | Inr c \<Rightarrow> if c then fr_scan_down lt d (j - 1) pivot else Inr j)"
  by pat_completeness auto
termination
  by (relation "measure (\<lambda>(lt, d, j, pivot). nat (j + 1))")
     (auto simp: Less_def inb_def split: if_splits)

declare fr_scan_down.simps [simp del]

lemma fr_scan_up_ge: "fr_scan_up lt d i pivot = Inr i' \<Longrightarrow> i \<le> i'"
proof (induction lt d i pivot rule: fr_scan_up.induct)
  case (1 lt d i pivot)
  from "1.prems" show ?case
    by (subst (asm) fr_scan_up.simps)
       (auto split: sum.splits if_splits dest!: "1.IH")
qed

lemma fr_scan_down_le: "fr_scan_down lt d j pivot = Inr j' \<Longrightarrow> j' \<le> j"
proof (induction lt d j pivot rule: fr_scan_down.induct)
  case (1 lt d j pivot)
  from "1.prems" show ?case
    by (subst (asm) fr_scan_down.simps)
       (auto split: sum.splits if_splits dest!: "1.IH")
qed

text \<open>The main partitioning loop \<open>for i < j { swap; i++; j--; scan; scan }\<close>.\<close>

function fr_loop ::
  "('a \<Rightarrow> 'a \<Rightarrow> bool) \<Rightarrow> 'a list \<Rightarrow> int \<Rightarrow> int \<Rightarrow> int \<Rightarrow> error + ('a list \<times> int \<times> int)" where
  "fr_loop lt d i j pivot =
     (if i < j then
        (case Swap d i j of
           Inl e \<Rightarrow> Inl e
         | Inr d1 \<Rightarrow>
            (case fr_scan_up lt d1 (i + 1) pivot of
               Inl e \<Rightarrow> Inl e
             | Inr i' \<Rightarrow>
                (case fr_scan_down lt d1 (j - 1) pivot of
                   Inl e \<Rightarrow> Inl e
                 | Inr j' \<Rightarrow> fr_loop lt d1 i' j' pivot)))
      else Inr (d, i, j))"
  by pat_completeness auto
termination
  by (relation "measure (\<lambda>(lt, d, i, j, pivot). nat (j - i))")
     (auto dest!: fr_scan_up_ge fr_scan_down_le)

declare fr_loop.simps [simp del]

text \<open>
  One pass of the outer loop after the range narrowing: pivot selection, the partitioning
  loop and the final placement of the pivot. It returns the slice and the final \<open>j\<close>.
\<close>

definition fr_pass ::
  "('a \<Rightarrow> 'a \<Rightarrow> bool) \<Rightarrow> 'a list \<Rightarrow> int \<Rightarrow> int \<Rightarrow> int \<Rightarrow> error + ('a list \<times> int)" where
  "fr_pass lt d left right k =
     (case Swap d left k of
        Inl e \<Rightarrow> Inl e
      | Inr d1 \<Rightarrow>
     (case Less lt d1 left right of
        Inl e \<Rightarrow> Inl e
      | Inr swap \<Rightarrow>
     (case (if swap then Swap d1 left right else Inr d1) of
        Inl e \<Rightarrow> Inl e
      | Inr d2 \<Rightarrow>
     (case fr_loop lt d2 left right (if swap then left else right) of
        Inl e \<Rightarrow> Inl e
      | Inr (d3, i, j) \<Rightarrow>
         if swap then
           (case Swap d3 left j of Inl e \<Rightarrow> Inl e | Inr d4 \<Rightarrow> Inr (d4, j))
         else
           (case Swap d3 right (j + 1) of Inl e \<Rightarrow> Inl e | Inr d4 \<Rightarrow> Inr (d4, j + 1))))))"

text \<open>
  The range narrowing computes \<open>newLeft\<close> and \<open>newRight\<close> in \<open>float64\<close>
  (\<open>math.Log\<close>, \<open>math.Exp\<close>, \<open>math.Sqrt\<close>). In the loop the two estimates
  \<open>int(float64(k) - float64(i)*s/float64(n) + sd)\<close> and
  \<open>int(float64(k) + float64(n-i)*s/float64(n) + sd)\<close> are the parameter \<open>est\<close>, a
  function of \<open>left\<close>, \<open>right\<close> and \<open>k\<close>; the clamping by \<open>max\<close> and \<open>min\<close> is the code's.

  \<open>narrowing\<close> is the code's estimate with \<open>float64\<close> read as the real numbers: the
  same formulas, without rounding. \<open>trunc\<close> is the conversion \<open>int(x)\<close>, which drops the
  fraction.
\<close>

definition trunc :: "real \<Rightarrow> int" where
  "trunc x = (if 0 \<le> x then \<lfloor>x\<rfloor> else \<lceil>x\<rceil>)"

definition narrowing :: "int \<Rightarrow> int \<Rightarrow> int \<Rightarrow> int \<times> int" where
  "narrowing left right k =
     (let size = right - left;
          n = size + 1;
          i = k - left + 1;
          z = ln (real_of_int n);
          s = 0.5 * exp (2 * z / 3);
          sd0 = 0.5 * sqrt (z * s * (real_of_int n - s) / real_of_int n);
          sd = (if i < quot n 2 then sd0 * (- 1.0) else sd0)
      in (trunc (real_of_int k - real_of_int i * s / real_of_int n + sd),
          trunc (real_of_int k + real_of_int (n - i) * s / real_of_int n + sd)))"

definition rangeNarrowingThreshold :: int where
  "rangeNarrowingThreshold = 600"

definition newLeft :: "(int \<Rightarrow> int \<Rightarrow> int \<Rightarrow> int \<times> int) \<Rightarrow> int \<Rightarrow> int \<Rightarrow> int \<Rightarrow> int" where
  "newLeft est left right k = max left (fst (est left right k))"

definition newRight :: "(int \<Rightarrow> int \<Rightarrow> int \<Rightarrow> int \<times> int) \<Rightarrow> int \<Rightarrow> int \<Rightarrow> int \<Rightarrow> int" where
  "newRight est left right k = min right (snd (est left right k))"

partial_function (option) floydRivest ::
  "('a \<Rightarrow> 'a \<Rightarrow> bool) \<Rightarrow> (int \<Rightarrow> int \<Rightarrow> int \<Rightarrow> int \<times> int) \<Rightarrow> 'a list \<Rightarrow> int \<Rightarrow> int \<Rightarrow> int
     \<Rightarrow> (error + 'a list) option" where
  "floydRivest lt est d left right k =
     (if right > left then
        Option.bind
          (if right - left > rangeNarrowingThreshold then
             floydRivest lt est d (newLeft est left right k) (newRight est left right k) k
           else Some (Inr d))
          (\<lambda>r. case r of
             Inl e \<Rightarrow> Some (Inl e)
           | Inr d1 \<Rightarrow>
              (case fr_pass lt d1 left right k of
                 Inl e \<Rightarrow> Some (Inl e)
               | Inr (d2, j) \<Rightarrow>
                  floydRivest lt est d2
                    (if j \<le> k then j + 1 else left) (if k \<le> j then j - 1 else right) k))
      else Some (Inr d))"

text \<open>
  The entry point \<open>FloydRivest\<close>, over a \<open>sort.Interface\<close> backed by the slice \<open>d\<close>,
  whose \<open>Less(i, j)\<close> is \<open>lt (d[i]) (d[j])\<close> and whose \<open>Swap(i, j)\<close> swaps the two items.
\<close>

definition FloydRivest ::
  "('a \<Rightarrow> 'a \<Rightarrow> bool) \<Rightarrow> (int \<Rightarrow> int \<Rightarrow> int \<Rightarrow> int \<times> int) \<Rightarrow> 'a list \<Rightarrow> int \<Rightarrow> (error + 'a list) option" where
  "FloydRivest lt est d k =
     (let n = int (length d) in
      if k < 1 \<or> k > n then Some (Inr d)
      else floydRivest lt est d 0 (n - 1) (k - 1))"

text \<open>\<open>FloydRivestOrdered\<close>: the comparison is the order of the items.\<close>

definition FloydRivestOrdered ::
  "(int \<Rightarrow> int \<Rightarrow> int \<Rightarrow> int \<times> int) \<Rightarrow> ('a::linorder) list \<Rightarrow> int \<Rightarrow> (error + 'a list) option" where
  "FloydRivestOrdered est d k = FloydRivest (<) est d k"

text \<open>\<open>FloydRivestFunc\<close>: the comparison is the caller's \<open>less\<close>.\<close>

definition FloydRivestFunc ::
  "(int \<Rightarrow> int \<Rightarrow> int \<Rightarrow> int \<times> int) \<Rightarrow> 'a list \<Rightarrow> int \<Rightarrow> ('a \<Rightarrow> 'a \<Rightarrow> bool) \<Rightarrow> (error + 'a list) option" where
  "FloydRivestFunc est d k lt = FloydRivest lt est d k"

section \<open>PDQSelect\<close>

subsection \<open>Helpers of the driver that are not in the sources\<close>

text \<open>
  Modelled from the spec: \<open>insertionSort\<close> is not under src/. Section 4.2, step 1: "run
  insertion sort on [a, b)"; the whole range is sorted on return. The model is insertion by
  adjacent swaps: item \<open>i\<close> moves down while it is less than the item before it.
\<close>

function insert_down :: "('a \<Rightarrow> 'a \<Rightarrow> bool) \<Rightarrow> 'a list \<Rightarrow> int \<Rightarrow> int \<Rightarrow> error + 'a list" where
  "insert_down lt d a j =
     (if j > a then
        (case Less lt d j (j - 1) of
           Inl e \<Rightarrow> Inl e
         | Inr c \<Rightarrow>
            if c then (case Swap d j (j - 1) of Inl e \<Rightarrow> Inl e | Inr d' \<Rightarrow> insert_down lt d' a (j - 1))
            else Inr d)
      else Inr d)"
  by pat_completeness auto
termination
  by (relation "measure (\<lambda>(lt, d, a, j). nat (j - a))") auto

declare insert_down.simps [simp del]

function insertionSort_loop ::
  "('a \<Rightarrow> 'a \<Rightarrow> bool) \<Rightarrow> 'a list \<Rightarrow> int \<Rightarrow> int \<Rightarrow> int \<Rightarrow> error + 'a list" where
  "insertionSort_loop lt d a b i =
     (if i < b then
        (case insert_down lt d a i of Inl e \<Rightarrow> Inl e | Inr d' \<Rightarrow> insertionSort_loop lt d' a b (i + 1))
      else Inr d)"
  by pat_completeness auto
termination
  by (relation "measure (\<lambda>(lt, d, a, b, i). nat (b - i))") auto

declare insertionSort_loop.simps [simp del]

definition insertionSort :: "('a \<Rightarrow> 'a \<Rightarrow> bool) \<Rightarrow> 'a list \<Rightarrow> int \<Rightarrow> int \<Rightarrow> error + 'a list" where
  "insertionSort lt d a b = insertionSort_loop lt d a b (a + 1)"

text \<open>
  Modelled from the spec: \<open>partialInsertionSort\<close> is not under src/. Section 4.7: it
  "performs insertion sort on [a, b) but gives up after a small bounded number of element
  displacements (e.g. 5)" and "returns true if it finished sorting the range, false
  otherwise". The model is the insertion sort above with a budget of 5 swaps.
\<close>

function insert_down_budget ::
  "('a \<Rightarrow> 'a \<Rightarrow> bool) \<Rightarrow> 'a list \<Rightarrow> int \<Rightarrow> int \<Rightarrow> nat \<Rightarrow> error + ('a list \<times> nat \<times> bool)" where
  "insert_down_budget lt d a j budget =
     (if j > a then
        (case Less lt d j (j - 1) of
           Inl e \<Rightarrow> Inl e
         | Inr c \<Rightarrow>
            if c then
              (if budget = 0 then Inr (d, 0, False)
               else (case Swap d j (j - 1) of
                       Inl e \<Rightarrow> Inl e
                     | Inr d' \<Rightarrow> insert_down_budget lt d' a (j - 1) (budget - 1)))
            else Inr (d, budget, True))
      else Inr (d, budget, True))"
  by pat_completeness auto
termination
  by (relation "measure (\<lambda>(lt, d, a, j, budget). nat (j - a))") auto

declare insert_down_budget.simps [simp del]

function partialInsertionSort_loop ::
  "('a \<Rightarrow> 'a \<Rightarrow> bool) \<Rightarrow> 'a list \<Rightarrow> int \<Rightarrow> int \<Rightarrow> int \<Rightarrow> nat \<Rightarrow> error + ('a list \<times> bool)" where
  "partialInsertionSort_loop lt d a b i budget =
     (if i < b then
        (case insert_down_budget lt d a i budget of
           Inl e \<Rightarrow> Inl e
         | Inr (d', budget', finished) \<Rightarrow>
            if finished then partialInsertionSort_loop lt d' a b (i + 1) budget'
            else Inr (d', False))
      else Inr (d, True))"
  by pat_completeness auto
termination
  by (relation "measure (\<lambda>(lt, d, a, b, i, budget). nat (b - i))") auto

declare partialInsertionSort_loop.simps [simp del]

definition partialInsertionSort ::
  "('a \<Rightarrow> 'a \<Rightarrow> bool) \<Rightarrow> 'a list \<Rightarrow> int \<Rightarrow> int \<Rightarrow> error + ('a list \<times> bool)" where
  "partialInsertionSort lt d a b = partialInsertionSort_loop lt d a b (a + 1) 5"

text \<open>
  Modelled from the spec: \<open>breakPatterns\<close> is not under src/. Section 4.6: swap the three
  index pairs \<open>(a, a+len/4)\<close>, \<open>(mid, mid+len/4)\<close>, \<open>(b-1, b-1-len/4)\<close> where
  \<open>mid = a + len/2\<close>.
\<close>

definition breakPatterns :: "'a list \<Rightarrow> int \<Rightarrow> int \<Rightarrow> error + 'a list" where
  "breakPatterns d a b =
     (let len = b - a; mid = a + len div 2 in
      case Swap d a (a + len div 4) of
        Inl e \<Rightarrow> Inl e
      | Inr d1 \<Rightarrow>
     (case Swap d1 mid (mid + len div 4) of
        Inl e \<Rightarrow> Inl e
      | Inr d2 \<Rightarrow> Swap d2 (b - 1) (b - 1 - len div 4)))"

text \<open>
  Modelled from the spec: \<open>reverseRange\<close> is not under src/. Section 4.2, step 5:
  "reverse [a, b)"; the item at \<open>p\<close> moves to \<open>(b-1) - (p-a)\<close>. The model swaps the two
  ends and moves inwards.
\<close>

function reverse_loop :: "'a list \<Rightarrow> int \<Rightarrow> int \<Rightarrow> error + 'a list" where
  "reverse_loop d i j =
     (if i < j then (case Swap d i j of Inl e \<Rightarrow> Inl e | Inr d' \<Rightarrow> reverse_loop d' (i + 1) (j - 1))
      else Inr d)"
  by pat_completeness auto
termination
  by (relation "measure (\<lambda>(d, i, j). nat (j - i))") auto

declare reverse_loop.simps [simp del]

definition reverseRange :: "'a list \<Rightarrow> int \<Rightarrow> int \<Rightarrow> error + 'a list" where
  "reverseRange d a b = reverse_loop d a (b - 1)"

text \<open>
  Modelled from the spec: \<open>partition\<close> is not under src/. Section 4.3: swap \<open>p\<close> and \<open>a\<close>
  so that the pivot value sits at \<open>a\<close>; \<open>i = a+1\<close>, \<open>j = b-1\<close>; advance \<open>i\<close> while
  \<open>data[i] < pivot\<close>, retreat \<open>j\<close> while \<open>pivot < data[j]\<close>; \<open>alreadyPartitioned\<close> says
  that \<open>i\<close> crossed \<open>j\<close> in these first scans; while \<open>i < j\<close>: swap \<open>i\<close> and \<open>j\<close>, advance
  \<open>i\<close>, retreat \<open>j\<close>; swap the pivot from \<open>a\<close> into \<open>i-1\<close> and return \<open>(i-1,
  alreadyPartitioned)\<close>. Every scan is bounded by the other pointer (it stops when
  \<open>i > j\<close>), and a swap is followed by \<open>i++\<close>, \<open>j--\<close>: without the two, the procedure
  would read past \<open>b\<close> when the pivot is the maximum and would swap two items equal to the
  pivot for ever.
\<close>

function partition_scan_i :: "('a \<Rightarrow> 'a \<Rightarrow> bool) \<Rightarrow> 'a list \<Rightarrow> int \<Rightarrow> int \<Rightarrow> int \<Rightarrow> error + int" where
  "partition_scan_i lt d i j a =
     (if i \<le> j then
        (case Less lt d i a of
           Inl e \<Rightarrow> Inl e
         | Inr c \<Rightarrow> if c then partition_scan_i lt d (i + 1) j a else Inr i)
      else Inr i)"
  by pat_completeness auto
termination
  by (relation "measure (\<lambda>(lt, d, i, j, a). nat (j + 1 - i))") auto

declare partition_scan_i.simps [simp del]

function partition_scan_j :: "('a \<Rightarrow> 'a \<Rightarrow> bool) \<Rightarrow> 'a list \<Rightarrow> int \<Rightarrow> int \<Rightarrow> int \<Rightarrow> error + int" where
  "partition_scan_j lt d i j a =
     (if i \<le> j then
        (case Less lt d a j of
           Inl e \<Rightarrow> Inl e
         | Inr c \<Rightarrow> if c then partition_scan_j lt d i (j - 1) a else Inr j)
      else Inr j)"
  by pat_completeness auto
termination
  by (relation "measure (\<lambda>(lt, d, i, j, a). nat (j + 1 - i))") auto

declare partition_scan_j.simps [simp del]

lemma partition_scan_i_ge: "partition_scan_i lt d i j a = Inr i' \<Longrightarrow> i \<le> i'"
proof (induction lt d i j a rule: partition_scan_i.induct)
  case (1 lt d i j a)
  from "1.prems" show ?case
    by (subst (asm) partition_scan_i.simps)
       (auto split: sum.splits if_splits dest!: "1.IH")
qed

lemma partition_scan_j_le: "partition_scan_j lt d i j a = Inr j' \<Longrightarrow> j' \<le> j"
proof (induction lt d i j a rule: partition_scan_j.induct)
  case (1 lt d i j a)
  from "1.prems" show ?case
    by (subst (asm) partition_scan_j.simps)
       (auto split: sum.splits if_splits dest!: "1.IH")
qed

function partition_loop ::
  "('a \<Rightarrow> 'a \<Rightarrow> bool) \<Rightarrow> 'a list \<Rightarrow> int \<Rightarrow> int \<Rightarrow> int \<Rightarrow> error + ('a list \<times> int \<times> int)" where
  "partition_loop lt d i j a =
     (if i < j then
        (case Swap d i j of
           Inl e \<Rightarrow> Inl e
         | Inr d1 \<Rightarrow>
            (case partition_scan_i lt d1 (i + 1) (j - 1) a of
               Inl e \<Rightarrow> Inl e
             | Inr i' \<Rightarrow>
                (case partition_scan_j lt d1 i' (j - 1) a of
                   Inl e \<Rightarrow> Inl e
                 | Inr j' \<Rightarrow> partition_loop lt d1 i' j' a)))
      else Inr (d, i, j))"
  by pat_completeness auto
termination
  by (relation "measure (\<lambda>(lt, d, i, j, a). nat (j - i))")
     (auto dest!: partition_scan_i_ge partition_scan_j_le)

declare partition_loop.simps [simp del]

definition partition_range ::
  "('a \<Rightarrow> 'a \<Rightarrow> bool) \<Rightarrow> 'a list \<Rightarrow> int \<Rightarrow> int \<Rightarrow> int \<Rightarrow> error + ('a list \<times> int \<times> bool)" where
  "partition_range lt d a b p =
     (case Swap d p a of
        Inl e \<Rightarrow> Inl e
      | Inr d1 \<Rightarrow>
     (case partition_scan_i lt d1 (a + 1) (b - 1) a of
        Inl e \<Rightarrow> Inl e
      | Inr i \<Rightarrow>
     (case partition_scan_j lt d1 i (b - 1) a of
        Inl e \<Rightarrow> Inl e
      | Inr j \<Rightarrow>
     (case partition_loop lt d1 i j a of
        Inl e \<Rightarrow> Inl e
      | Inr (d2, i2, j2) \<Rightarrow>
     (case Swap d2 a (i2 - 1) of
        Inl e \<Rightarrow> Inl e
      | Inr d3 \<Rightarrow> Inr (d3, i2 - 1, i > j))))))"

text \<open>
  Modelled from the spec: \<open>partitionEqual\<close> is not under src/. Section 4.4: "swap pivot to
  position a; set i = a+1, j = b-1; advance i while !(pivot < data[i]); retreat j while
  pivot < data[j]; when i < j: swap, then advance/retreat again; terminate when i > j;
  return i". The scans are bounded by the other pointer, as in \<open>partition\<close>.
\<close>

function partitionEqual_scan_i ::
  "('a \<Rightarrow> 'a \<Rightarrow> bool) \<Rightarrow> 'a list \<Rightarrow> int \<Rightarrow> int \<Rightarrow> int \<Rightarrow> error + int" where
  "partitionEqual_scan_i lt d i j a =
     (if i \<le> j then
        (case Less lt d a i of
           Inl e \<Rightarrow> Inl e
         | Inr c \<Rightarrow> if \<not> c then partitionEqual_scan_i lt d (i + 1) j a else Inr i)
      else Inr i)"
  by pat_completeness auto
termination
  by (relation "measure (\<lambda>(lt, d, i, j, a). nat (j + 1 - i))") auto

declare partitionEqual_scan_i.simps [simp del]

lemma partitionEqual_scan_i_ge: "partitionEqual_scan_i lt d i j a = Inr i' \<Longrightarrow> i \<le> i'"
proof (induction lt d i j a rule: partitionEqual_scan_i.induct)
  case (1 lt d i j a)
  from "1.prems" show ?case
    by (subst (asm) partitionEqual_scan_i.simps)
       (auto split: sum.splits if_splits dest!: "1.IH")
qed

function partitionEqual_loop ::
  "('a \<Rightarrow> 'a \<Rightarrow> bool) \<Rightarrow> 'a list \<Rightarrow> int \<Rightarrow> int \<Rightarrow> int \<Rightarrow> error + ('a list \<times> int)" where
  "partitionEqual_loop lt d i j a =
     (case partitionEqual_scan_i lt d i j a of
        Inl e \<Rightarrow> Inl e
      | Inr i' \<Rightarrow>
         (case partition_scan_j lt d i' j a of
            Inl e \<Rightarrow> Inl e
          | Inr j' \<Rightarrow>
             if i' > j' then Inr (d, i')
             else (case Swap d i' j' of
                     Inl e \<Rightarrow> Inl e
                   | Inr d1 \<Rightarrow> partitionEqual_loop lt d1 (i' + 1) (j' - 1) a)))"
  by pat_completeness auto
termination
  by (relation "measure (\<lambda>(lt, d, i, j, a). nat (j + 1 - i))")
     (auto dest!: partitionEqual_scan_i_ge partition_scan_j_le)

declare partitionEqual_loop.simps [simp del]

definition partitionEqual ::
  "('a \<Rightarrow> 'a \<Rightarrow> bool) \<Rightarrow> 'a list \<Rightarrow> int \<Rightarrow> int \<Rightarrow> int \<Rightarrow> error + ('a list \<times> int)" where
  "partitionEqual lt d a b p =
     (case Swap d p a of
        Inl e \<Rightarrow> Inl e
      | Inr d1 \<Rightarrow> partitionEqual_loop lt d1 (a + 1) (b - 1) a)"

text \<open>
  Modelled from the spec: \<open>siftDown\<close> is not under src/. Section 4.8: "sift-down uses a
  standard 0-indexed binary heap with parent/child indices biased by base a". The heap
  positions are \<open>0 .. hi-1\<close>, stored at \<open>first + position\<close>; the children of the
  position \<open>rt\<close> are \<open>2*rt+1\<close> and \<open>2*rt+2\<close>; the larger child moves up while the
  item above is less than it.
\<close>

function siftDown :: "('a \<Rightarrow> 'a \<Rightarrow> bool) \<Rightarrow> 'a list \<Rightarrow> nat \<Rightarrow> int \<Rightarrow> int \<Rightarrow> error + 'a list" where
  "siftDown lt d rt hi first =
     (let child = 2 * int rt + 1 in
      if child \<ge> hi then Inr d
      else
        (case (if child + 1 < hi then Less lt d (first + child) (first + child + 1) else Inr False) of
           Inl e \<Rightarrow> Inl e
         | Inr c \<Rightarrow>
            (let child' = (if c then child + 1 else child) in
             case Less lt d (first + int rt) (first + child') of
               Inl e \<Rightarrow> Inl e
             | Inr c2 \<Rightarrow>
                if \<not> c2 then Inr d
                else (case Swap d (first + int rt) (first + child') of
                        Inl e \<Rightarrow> Inl e
                      | Inr d' \<Rightarrow> siftDown lt d' (nat child') hi first))))"
  by pat_completeness auto
termination
  by (relation "measure (\<lambda>(lt, d, rt, hi, first). nat (hi - int rt))")
     (auto simp: Let_def split: if_splits)

declare siftDown.simps [simp del]


subsection \<open>heapSelect\<close>

text \<open>
  \<open>heapSelect(data, a, b, k)\<close>: a max-heap of the \<open>hi = k+1\<close> items at \<open>[a, a+hi)\<close>, a
  scan of the remaining positions of \<open>[a, b)\<close>, and the final swap of \<open>a\<close> and \<open>a+k\<close>.
  \<open>k / 2\<close> is \<open>quot k 2\<close>.
\<close>

function heapSelect_build ::
  "('a \<Rightarrow> 'a \<Rightarrow> bool) \<Rightarrow> 'a list \<Rightarrow> int \<Rightarrow> int \<Rightarrow> int \<Rightarrow> error + 'a list" where
  "heapSelect_build lt d i hi a =
     (if i \<ge> 0 then
        (case siftDown lt d (nat i) hi a of
           Inl e \<Rightarrow> Inl e
         | Inr d' \<Rightarrow> heapSelect_build lt d' (i - 1) hi a)
      else Inr d)"
  by pat_completeness auto
termination
  by (relation "measure (\<lambda>(lt, d, i, hi, a). nat (i + 1))") auto

declare heapSelect_build.simps [simp del]

function heapSelect_scan ::
  "('a \<Rightarrow> 'a \<Rightarrow> bool) \<Rightarrow> 'a list \<Rightarrow> int \<Rightarrow> int \<Rightarrow> int \<Rightarrow> int \<Rightarrow> error + 'a list" where
  "heapSelect_scan lt d i n hi a =
     (if i < n then
        (case Less lt d (a + i) a of
           Inl e \<Rightarrow> Inl e
         | Inr c \<Rightarrow>
            if c then
              (case Swap d a (a + i) of
                 Inl e \<Rightarrow> Inl e
               | Inr d1 \<Rightarrow>
                  (case siftDown lt d1 0 hi a of
                     Inl e \<Rightarrow> Inl e
                   | Inr d2 \<Rightarrow> heapSelect_scan lt d2 (i + 1) n hi a))
            else heapSelect_scan lt d (i + 1) n hi a)
      else Inr d)"
  by pat_completeness auto
termination
  by (relation "measure (\<lambda>(lt, d, i, n, hi, a). nat (n - i))") auto

declare heapSelect_scan.simps [simp del]

definition heapSelect :: "('a \<Rightarrow> 'a \<Rightarrow> bool) \<Rightarrow> 'a list \<Rightarrow> int \<Rightarrow> int \<Rightarrow> int \<Rightarrow> error + 'a list" where
  "heapSelect lt d a b k =
     (let n = b - a; hi = k + 1 in
      case heapSelect_build lt d (quot k 2) hi a of
        Inl e \<Rightarrow> Inl e
      | Inr d1 \<Rightarrow>
     (case heapSelect_scan lt d1 hi n hi a of
        Inl e \<Rightarrow> Inl e
      | Inr d2 \<Rightarrow> Swap d2 a (a + k)))"

subsection \<open>The driver\<close>

text \<open>
  The monotonicity hint of the pivot chooser. \<open>choosePivot\<close> itself is not under src/; the
  driver takes it as the parameter \<open>choosePivot\<close>, a function of the slice and the range
  that returns a pivot index and a hint (section 4.2, step 4: "select a pivot index p in
  [a, b), obtaining a monotonicity hint").
\<close>

datatype sortedHint = unknownHint | increasingHint | decreasingHint

type_synonym 'a chooser = "'a list \<Rightarrow> int \<Rightarrow> int \<Rightarrow> int \<times> sortedHint"

text \<open>The two linear scans of the fast paths: the index of the minimum, of the maximum.\<close>

function min_scan :: "('a \<Rightarrow> 'a \<Rightarrow> bool) \<Rightarrow> 'a list \<Rightarrow> int \<Rightarrow> int \<Rightarrow> int \<Rightarrow> error + int" where
  "min_scan lt d i b mn =
     (if i < b then
        (case Less lt d i mn of
           Inl e \<Rightarrow> Inl e
         | Inr c \<Rightarrow> min_scan lt d (i + 1) b (if c then i else mn))
      else Inr mn)"
  by pat_completeness auto
termination
  by (relation "measure (\<lambda>(lt, d, i, b, mn). nat (b - i))") auto

declare min_scan.simps [simp del]

function max_scan :: "('a \<Rightarrow> 'a \<Rightarrow> bool) \<Rightarrow> 'a list \<Rightarrow> int \<Rightarrow> int \<Rightarrow> int \<Rightarrow> error + int" where
  "max_scan lt d i b mx =
     (if i < b then
        (case Less lt d mx i of
           Inl e \<Rightarrow> Inl e
         | Inr c \<Rightarrow> max_scan lt d (i + 1) b (if c then i else mx))
      else Inr mx)"
  by pat_completeness auto
termination
  by (relation "measure (\<lambda>(lt, d, i, b, mx). nat (b - i))") auto

declare max_scan.simps [simp del]

text \<open>
  One iteration of the \<open>for\<close> loop of \<open>pdqselect\<close>: it either returns (\<open>Done\<close>) or goes
  round again with new \<open>a\<close>, \<open>b\<close>, \<open>limit\<close>, \<open>wasBalanced\<close> and \<open>wasPartitioned\<close>.
  \<open>pdqselect_pivot\<close> is the part of the body from the pattern breaker to the probe for a
  sorted range: it returns the slice, the new \<open>limit\<close>, the pivot index and whether the
  probe found the range sorted.
\<close>

datatype 'a iteration = Done "'a list" | Again "'a list" int int int bool bool

definition maxInsertion :: int where
  "maxInsertion = 12"

definition pdqselect_pivot ::
  "('a \<Rightarrow> 'a \<Rightarrow> bool) \<Rightarrow> 'a chooser \<Rightarrow> 'a list \<Rightarrow> int \<Rightarrow> int \<Rightarrow> int \<Rightarrow> bool \<Rightarrow> bool
     \<Rightarrow> error + ('a list \<times> int \<times> int \<times> bool)" where
  "pdqselect_pivot lt choosePivot d a b limit wasBalanced wasPartitioned =
     (case (if \<not> wasBalanced then
              (case breakPatterns d a b of Inl e \<Rightarrow> Inl e | Inr d1 \<Rightarrow> Inr (d1, limit - 1))
            else Inr (d, limit)) of
        Inl e \<Rightarrow> Inl e
      | Inr (d1, limit1) \<Rightarrow>
     (case choosePivot d1 a b of (pivot0, hint0) \<Rightarrow>
     (case (if hint0 = decreasingHint then
              (case reverseRange d1 a b of
                 Inl e \<Rightarrow> Inl e
               | Inr d2 \<Rightarrow> Inr (d2, (b - 1) - (pivot0 - a), increasingHint))
            else Inr (d1, pivot0, hint0)) of
        Inl e \<Rightarrow> Inl e
      | Inr (d2, pivot, hint) \<Rightarrow>
     (case (if wasBalanced \<and> wasPartitioned \<and> hint = increasingHint then
              partialInsertionSort lt d2 a b
            else Inr (d2, False)) of
        Inl e \<Rightarrow> Inl e
      | Inr (d3, isSorted) \<Rightarrow> Inr (d3, limit1, pivot, isSorted)))))"

definition pdqselect_iter ::
  "('a \<Rightarrow> 'a \<Rightarrow> bool) \<Rightarrow> 'a chooser \<Rightarrow> 'a list \<Rightarrow> int \<Rightarrow> int \<Rightarrow> int \<Rightarrow> int \<Rightarrow> bool \<Rightarrow> bool
     \<Rightarrow> error + 'a iteration" where
  "pdqselect_iter lt choosePivot d a b k limit wasBalanced wasPartitioned =
     (let len = b - a in
      if len \<le> maxInsertion then
        (case insertionSort lt d a b of Inl e \<Rightarrow> Inl e | Inr d' \<Rightarrow> Inr (Done d'))
      else if limit = 0 then
        (case heapSelect lt d a b k of Inl e \<Rightarrow> Inl e | Inr d' \<Rightarrow> Inr (Done d'))
      else
       (case pdqselect_pivot lt choosePivot d a b limit wasBalanced wasPartitioned of
          Inl e \<Rightarrow> Inl e
        | Inr (d3, limit1, pivot, isSorted) \<Rightarrow>
           if isSorted then Inr (Done d3)
           else
           (case (if a > 0 then Less lt d3 (a - 1) pivot else Inr True) of
              Inl e \<Rightarrow> Inl e
            | Inr c \<Rightarrow>
               if a > 0 \<and> \<not> c then
                 (case partitionEqual lt d3 a b pivot of
                    Inl e \<Rightarrow> Inl e
                  | Inr (d4, mid) \<Rightarrow>
                     if k < mid then Inr (Done d4)
                     else Inr (Again d4 mid b limit1 wasBalanced wasPartitioned))
               else
                 (case partition_range lt d3 a b pivot of
                    Inl e \<Rightarrow> Inl e
                  | Inr (d4, mid, alreadyPartitioned) \<Rightarrow>
                     if k = mid then Inr (Done d4)
                     else
                       (let leftLen = mid - a; rightLen = b - mid;
                            balanceThreshold = len div 8 in
                        if k < mid then
                          Inr (Again d4 a mid limit1 (leftLen \<ge> balanceThreshold) alreadyPartitioned)
                        else
                          Inr (Again d4 (mid + 1) b limit1 (rightLen \<ge> balanceThreshold)
                                 alreadyPartitioned))))))"

partial_function (option) pdqselect_loop ::
  "('a \<Rightarrow> 'a \<Rightarrow> bool) \<Rightarrow> 'a chooser \<Rightarrow> 'a list \<Rightarrow> int \<Rightarrow> int \<Rightarrow> int \<Rightarrow> int \<Rightarrow> bool \<Rightarrow> bool
     \<Rightarrow> (error + 'a list) option" where
  "pdqselect_loop lt choosePivot d a b k limit wasBalanced wasPartitioned =
     (case pdqselect_iter lt choosePivot d a b k limit wasBalanced wasPartitioned of
        Inl e \<Rightarrow> Some (Inl e)
      | Inr (Done d') \<Rightarrow> Some (Inr d')
      | Inr (Again d' a' b' limit' wasBalanced' wasPartitioned') \<Rightarrow>
          pdqselect_loop lt choosePivot d' a' b' k limit' wasBalanced' wasPartitioned')"

definition pdqselect ::
  "('a \<Rightarrow> 'a \<Rightarrow> bool) \<Rightarrow> 'a chooser \<Rightarrow> 'a list \<Rightarrow> int \<Rightarrow> int \<Rightarrow> int \<Rightarrow> int
     \<Rightarrow> (error + 'a list) option" where
  "pdqselect lt choosePivot d a b k limit =
     (if k = 0 then
        (case min_scan lt d (a + 1) b a of
           Inl e \<Rightarrow> Some (Inl e)
         | Inr mn \<Rightarrow> if mn \<noteq> a then Some (Swap d mn a) else Some (Inr d))
      else if k = b - 1 then
        (case max_scan lt d (a + 1) b a of
           Inl e \<Rightarrow> Some (Inl e)
         | Inr mx \<Rightarrow> if mx \<noteq> b - 1 then Some (Swap d mx (b - 1)) else Some (Inr d))
      else pdqselect_loop lt choosePivot d a b k limit True True)"

text \<open>
  \<open>bits.Len(uint(n))\<close> of Go's standard library: the number of bits needed to write
  \<open>n\<close>, 0 for \<open>n = 0\<close>.
\<close>

function bits_Len :: "int \<Rightarrow> int" where
  "bits_Len n = (if n \<le> 0 then 0 else 1 + bits_Len (n div 2))"
  by pat_completeness auto
termination
  by (relation "measure nat") auto

declare bits_Len.simps [simp del]

definition PDQSelect ::
  "('a \<Rightarrow> 'a \<Rightarrow> bool) \<Rightarrow> 'a chooser \<Rightarrow> 'a list \<Rightarrow> int \<Rightarrow> (error + 'a list) option" where
  "PDQSelect lt choosePivot d k =
     (let n = int (length d) in
      if k < 1 \<or> k > n then Some (Inr d)
      else pdqselect lt choosePivot d 0 n (k - 1) (bits_Len n))"

definition PDQSelectOrdered ::
  "('a::linorder) chooser \<Rightarrow> 'a list \<Rightarrow> int \<Rightarrow> (error + 'a list) option" where
  "PDQSelectOrdered choosePivot d k = PDQSelect (<) choosePivot d k"

definition PDQSelectFunc ::
  "'a chooser \<Rightarrow> 'a list \<Rightarrow> int \<Rightarrow> ('a \<Rightarrow> 'a \<Rightarrow> bool) \<Rightarrow> (error + 'a list) option" where
  "PDQSelectFunc choosePivot d k lt = PDQSelect lt choosePivot d k"

section \<open>Select, the earlier driver\<close>

text \<open>
  \<open>src/pdqselect.go\<close> holds the package \<open>pdqselect\<close> with the entry point \<open>Select\<close> and
  its own loop \<open>pdqselect\<close>, here \<open>Select_iter\<close> and \<open>Select_loop\<close>. The loop has no fast
  path for the minimum or the maximum, calls \<open>heapSort(data, a, b)\<close> when \<open>limit\<close> is 0,
  goes on with \<open>a = mid\<close> after \<open>partitionEqual\<close> whatever \<open>k\<close> is, and returns after
  \<open>partition\<close> when \<open>k\<close> is neither below nor above \<open>mid\<close>. The body from the pattern
  breaker to the probe for a sorted range is the same text as in \<open>PDQSelect\<close>'s loop
  (\<open>pdqselect_pivot\<close>). \<open>heapSort\<close> is not under src/ and the spec does not describe it:
  it is the parameter \<open>heapSort\<close>.
\<close>

definition Select_iter ::
  "('a \<Rightarrow> 'a \<Rightarrow> bool) \<Rightarrow> ('a list \<Rightarrow> int \<Rightarrow> int \<Rightarrow> error + 'a list) \<Rightarrow> 'a chooser
     \<Rightarrow> 'a list \<Rightarrow> int \<Rightarrow> int \<Rightarrow> int \<Rightarrow> int \<Rightarrow> bool \<Rightarrow> bool \<Rightarrow> error + 'a iteration" where
  "Select_iter lt heapSort choosePivot d a b k limit wasBalanced wasPartitioned =
     (let len = b - a in
      if len \<le> maxInsertion then
        (case insertionSort lt d a b of Inl e \<Rightarrow> Inl e | Inr d' \<Rightarrow> Inr (Done d'))
      else if limit = 0 then
        (case heapSort d a b of Inl e \<Rightarrow> Inl e | Inr d' \<Rightarrow> Inr (Done d'))
      else
       (case pdqselect_pivot lt choosePivot d a b limit wasBalanced wasPartitioned of
          Inl e \<Rightarrow> Inl e
        | Inr (d3, limit1, pivot, isSorted) \<Rightarrow>
           if isSorted then Inr (Done d3)
           else
           (case (if a > 0 then Less lt d3 (a - 1) pivot else Inr True) of
              Inl e \<Rightarrow> Inl e
            | Inr c \<Rightarrow>
               if a > 0 \<and> \<not> c then
                 (case partitionEqual lt d3 a b pivot of
                    Inl e \<Rightarrow> Inl e
                  | Inr (d4, mid) \<Rightarrow> Inr (Again d4 mid b limit1 wasBalanced wasPartitioned))
               else
                 (case partition_range lt d3 a b pivot of
                    Inl e \<Rightarrow> Inl e
                  | Inr (d4, mid, alreadyPartitioned) \<Rightarrow>
                     (let leftLen = mid - a; rightLen = b - mid;
                          balanceThreshold = len div 8 in
                      if k < mid then
                        Inr (Again d4 a mid limit1 (leftLen \<ge> balanceThreshold) alreadyPartitioned)
                      else if k > mid then
                        Inr (Again d4 (mid + 1) b limit1 (rightLen \<ge> balanceThreshold)
                               alreadyPartitioned)
                      else Inr (Done d4))))))"

partial_function (option) Select_loop ::
  "('a \<Rightarrow> 'a \<Rightarrow> bool) \<Rightarrow> ('a list \<Rightarrow> int \<Rightarrow> int \<Rightarrow> error + 'a list) \<Rightarrow> 'a chooser
     \<Rightarrow> 'a list \<Rightarrow> int \<Rightarrow> int \<Rightarrow> int \<Rightarrow> int \<Rightarrow> bool \<Rightarrow> bool \<Rightarrow> (error + 'a list) option" where
  "Select_loop lt heapSort choosePivot d a b k limit wasBalanced wasPartitioned =
     (case Select_iter lt heapSort choosePivot d a b k limit wasBalanced wasPartitioned of
        Inl e \<Rightarrow> Some (Inl e)
      | Inr (Done d') \<Rightarrow> Some (Inr d')
      | Inr (Again d' a' b' limit' wasBalanced' wasPartitioned') \<Rightarrow>
          Select_loop lt heapSort choosePivot d' a' b' k limit' wasBalanced' wasPartitioned')"

definition Select ::
  "('a \<Rightarrow> 'a \<Rightarrow> bool) \<Rightarrow> ('a list \<Rightarrow> int \<Rightarrow> int \<Rightarrow> error + 'a list) \<Rightarrow> 'a chooser
     \<Rightarrow> 'a list \<Rightarrow> int \<Rightarrow> (error + 'a list) option" where
  "Select lt heapSort choosePivot d k =
     (let n = int (length d) in
      if k < 1 \<or> k > n then Some (Inr d)
      else Select_loop lt heapSort choosePivot d 0 n (k - 1) (bits_Len n) True True)"

section \<open>Proofs: swaps and permutations within a range\<close>

lemma Swap_Inr: "Swap d i j = Inr d' \<longleftrightarrow> inb d i \<and> inb d j \<and> d' = swp d i j"
  by (auto simp: Swap_def)

lemma Swap_ok: "inb d i \<Longrightarrow> inb d j \<Longrightarrow> Swap d i j = Inr (swp d i j)"
  by (simp add: Swap_def)

lemma Less_ok: "inb d i \<Longrightarrow> inb d j \<Longrightarrow> Less lt d i j = Inr (lt (item d i) (item d j))"
  by (simp add: Less_def)

lemma length_swp [simp]: "length (swp d i j) = length d"
  by (simp add: swp_def)

lemma inb_swp [simp]: "inb (swp d i j) x = inb d x"
  by (simp add: inb_def)

lemma at_swp:
  "inb d i \<Longrightarrow> inb d j \<Longrightarrow> inb d x \<Longrightarrow>
   item (swp d i j) x = (if x = j then item d i else if x = i then item d j else item d x)"
  by (auto simp: item_def swp_def inb_def nth_list_update)

lemma mset_swp: "inb d i \<Longrightarrow> inb d j \<Longrightarrow> mset (swp d i j) = mset d"
  using mset_swap[of "nat j" d "nat i"] by (auto simp: swp_def inb_def)

lemma swp_same [simp]: "inb d i \<Longrightarrow> swp d i i = d"
  by (simp add: swp_def inb_def)

inductive perm_in :: "int \<Rightarrow> int \<Rightarrow> 'a list \<Rightarrow> 'a list \<Rightarrow> bool" where
  perm_in_refl: "perm_in a b d d"
| perm_in_step: "perm_in a b d d' \<Longrightarrow> a \<le> i \<Longrightarrow> i < b \<Longrightarrow> a \<le> j \<Longrightarrow> j < b \<Longrightarrow>
     inb d' i \<Longrightarrow> inb d' j \<Longrightarrow> perm_in a b d (swp d' i j)"

lemma perm_in_length: "perm_in a b d d' \<Longrightarrow> length d' = length d"
  by (induction rule: perm_in.induct) auto

lemma perm_in_inb: "perm_in a b d d' \<Longrightarrow> inb d' x = inb d x"
  by (simp add: inb_def perm_in_length)

lemma perm_in_mset: "perm_in a b d d' \<Longrightarrow> mset d' = mset d"
  by (induction rule: perm_in.induct) (auto simp: mset_swp)

lemma perm_in_outside:
  "perm_in a b d d' \<Longrightarrow> inb d x \<Longrightarrow> x < a \<or> b \<le> x \<Longrightarrow> item d' x = item d x"
proof (induction rule: perm_in.induct)
  case (perm_in_step a b d d' i j)
  then show ?case
    using perm_in_inb[OF perm_in_step.hyps(1)] by (auto simp: at_swp)
qed simp

lemma perm_in_range:
  "perm_in a b d d' \<Longrightarrow> (\<forall>x. a \<le> x \<and> x < b \<and> inb d x \<longrightarrow> P (item d x)) \<Longrightarrow>
   a \<le> x \<Longrightarrow> x < b \<Longrightarrow> inb d x \<Longrightarrow> P (item d' x)"
proof (induction arbitrary: x rule: perm_in.induct)
  case (perm_in_step a b d d' i j)
  have inb: "\<And>y. inb d' y = inb d y"
    using perm_in_inb[OF perm_in_step.hyps(1)] by simp
  show ?case
    using perm_in_step.prems perm_in_step.hyps(2-7) perm_in_step.IH[OF perm_in_step.prems(1)]
    by (auto simp: at_swp inb)
qed simp

lemma perm_in_trans: "perm_in a b d1 d2 \<Longrightarrow> perm_in a b d0 d1 \<Longrightarrow> perm_in a b d0 d2"
  by (induction rule: perm_in.induct) (auto intro: perm_in.intros)

lemma perm_in_mono: "perm_in a b d d' \<Longrightarrow> a' \<le> a \<Longrightarrow> b \<le> b' \<Longrightarrow> perm_in a' b' d d'"
  by (induction rule: perm_in.induct) (auto intro: perm_in.intros)

lemma perm_in_swp:
  "a \<le> i \<Longrightarrow> i < b \<Longrightarrow> a \<le> j \<Longrightarrow> j < b \<Longrightarrow> inb d i \<Longrightarrow> inb d j \<Longrightarrow> perm_in a b d (swp d i j)"
  by (rule perm_in_step[OF perm_in_refl])

lemma fr_scan_up_ok:
  assumes "inb d p" "0 \<le> i" "i \<le> s" "inb d s" "\<not> lt (item d s) (item d p)"
  shows "\<exists>i'. fr_scan_up lt d i p = Inr i' \<and> i \<le> i' \<and> i' \<le> s \<and>
           (\<forall>x. i \<le> x \<and> x < i' \<longrightarrow> lt (item d x) (item d p)) \<and> \<not> lt (item d i') (item d p)"
  using assms(2,3)
proof (induction "nat (s - i)" arbitrary: i rule: less_induct)
  case less
  have ib: "inb d i" using less.prems assms(4) by (simp add: inb_def)
  show ?case
  proof (cases "lt (item d i) (item d p)")
    case True
    then have "i \<noteq> s" using assms(5) by auto
    then have lt: "i + 1 \<le> s" using less.prems by simp
    from less.hyps[of "i + 1"] lt less.prems obtain i' where
      r: "fr_scan_up lt d (i + 1) p = Inr i'" "i + 1 \<le> i'" "i' \<le> s"
         "\<forall>x. i + 1 \<le> x \<and> x < i' \<longrightarrow> lt (item d x) (item d p)" "\<not> lt (item d i') (item d p)"
      by auto
    have "\<forall>x. i \<le> x \<and> x < i' \<longrightarrow> lt (item d x) (item d p)"
    proof (intro allI impI)
      fix x assume "i \<le> x \<and> x < i'"
      then have "x = i \<or> (i + 1 \<le> x \<and> x < i')" by auto
      then show "lt (item d x) (item d p)" using True r(4) by auto
    qed
    then show ?thesis
      using r True ib assms(1) by (subst fr_scan_up.simps) (simp add: Less_ok)
  next
    case False
    then show ?thesis
      using ib assms(1) less.prems by (subst fr_scan_up.simps) (auto simp: Less_ok)
  qed
qed

lemma fr_scan_down_ok:
  assumes "inb d p" "s \<le> j" "inb d j" "inb d s" "\<not> lt (item d p) (item d s)"
  shows "\<exists>j'. fr_scan_down lt d j p = Inr j' \<and> j' \<le> j \<and> s \<le> j' \<and>
           (\<forall>x. j' < x \<and> x \<le> j \<longrightarrow> lt (item d p) (item d x)) \<and> \<not> lt (item d p) (item d j')"
  using assms(2,3)
proof (induction "nat (j - s)" arbitrary: j rule: less_induct)
  case less
  show ?case
  proof (cases "lt (item d p) (item d j)")
    case True
    then have "j \<noteq> s" using assms(5) by auto
    then have lt: "s \<le> j - 1" using less.prems by simp
    have ib: "inb d (j - 1)" using lt less.prems assms(4) by (simp add: inb_def)
    from less.hyps[of "j - 1"] lt ib obtain j' where
      r: "fr_scan_down lt d (j - 1) p = Inr j'" "j' \<le> j - 1" "s \<le> j'"
         "\<forall>x. j' < x \<and> x \<le> j - 1 \<longrightarrow> lt (item d p) (item d x)" "\<not> lt (item d p) (item d j')"
      by auto
    have "\<forall>x. j' < x \<and> x \<le> j \<longrightarrow> lt (item d p) (item d x)"
    proof (intro allI impI)
      fix x assume "j' < x \<and> x \<le> j"
      then have "x = j \<or> (j' < x \<and> x \<le> j - 1)" by auto
      then show "lt (item d p) (item d x)" using True r(4) by auto
    qed
    then show ?thesis
      using r True less.prems assms(1) by (subst fr_scan_down.simps) (simp add: Less_ok)
  next
    case False
    then show ?thesis
      using assms(1) less.prems by (subst fr_scan_down.simps) (auto simp: Less_ok)
  qed
qed


definition fr_inv ::
  "('a \<Rightarrow> 'a \<Rightarrow> bool) \<Rightarrow> int \<Rightarrow> int \<Rightarrow> int \<Rightarrow> 'a \<Rightarrow> 'a list \<Rightarrow> int \<Rightarrow> int \<Rightarrow> bool" where
  "fr_inv lt left right pivot t d i j \<longleftrightarrow>
     left \<le> i \<and> i \<le> j + 1 \<and> j \<le> right \<and> inb d left \<and> inb d right \<and>
     (\<forall>x. left \<le> x \<and> x < i \<longrightarrow> \<not> lt t (item d x)) \<and>
     (\<forall>x. j < x \<and> x \<le> right \<longrightarrow> \<not> lt (item d x) t) \<and>
     \<not> lt (item d i) t \<and> \<not> lt t (item d j) \<and>
     ((i = left \<and> j = right \<and> item (swp d i j) pivot = t) \<or>
      (left < i \<and> j < right \<and> item d pivot = t))"

lemma inb_between: "inb d l \<Longrightarrow> inb d r \<Longrightarrow> l \<le> x \<Longrightarrow> x \<le> r \<Longrightarrow> inb d x"
  by (simp add: inb_def)

lemma fr_loop_ok:
  assumes asym: "\<forall>x y. lt x y \<longrightarrow> \<not> lt y x"
    and pv: "pivot = left \<or> pivot = right"
    and inv: "fr_inv lt left right pivot t d i j"
  shows "\<exists>d' i' j'. fr_loop lt d i j pivot = Inr (d', i', j') \<and>
           fr_inv lt left right pivot t d' i' j' \<and> j' \<le> i' \<and> perm_in left (right + 1) d d'"
  using inv
proof (induction "nat (j - i)" arbitrary: d i j rule: less_induct)
  case less
  note inv = less.prems
  show ?case
  proof (cases "i < j")
    case False
    then show ?thesis
      using inv by (subst fr_loop.simps) (auto intro: perm_in_refl)
  next
    case True
    from inv have bl: "inb d left" and br: "inb d right" and li: "left \<le> i" and jr: "j \<le> right"
      by (auto simp: fr_inv_def)
    have bi: "inb d i" and bj: "inb d j"
      using bl br li jr True by (auto simp: inb_def)
    define d1 where "d1 = swp d i j"
    have b1: "\<And>x. inb d1 x = inb d x" by (simp add: d1_def)
    have bp: "inb d pivot" using pv bl br by auto
    have a1: "\<And>x. inb d x \<Longrightarrow> item d1 x = (if x = j then item d i else if x = i then item d j else item d x)"
      unfolding d1_def using bi bj by (simp add: at_swp)
    have pt: "item d1 pivot = t"
      using inv pv True a1[OF bp] unfolding fr_inv_def d1_def by auto
    have s1: "\<not> lt (item d1 j) (item d1 pivot)"
      using inv a1[OF bj] pt by (auto simp: fr_inv_def)
    have s2: "\<not> lt (item d1 pivot) (item d1 i)"
      using inv a1[OF bi] pt True by (auto simp: fr_inv_def)
    have i0: "0 \<le> i" using bi by (simp add: inb_def)
    obtain i' where up: "fr_scan_up lt d1 (i + 1) pivot = Inr i'" "i + 1 \<le> i'" "i' \<le> j"
        "\<forall>x. i + 1 \<le> x \<and> x < i' \<longrightarrow> lt (item d1 x) t" "\<not> lt (item d1 i') t"
      using fr_scan_up_ok[of d1 pivot "i + 1" j lt] bp bj b1 s1 True i0 pt by auto
    have bj1: "inb d1 (j - 1)"
      unfolding b1 using bi bj True by (auto simp: inb_def)
    obtain j' where dn: "fr_scan_down lt d1 (j - 1) pivot = Inr j'" "j' \<le> j - 1" "i \<le> j'"
        "\<forall>x. j' < x \<and> x \<le> j - 1 \<longrightarrow> lt t (item d1 x)" "\<not> lt t (item d1 j')"
      using fr_scan_down_ok[of d1 pivot i "j - 1" lt] bp bi b1 bj1 s2 True pt by auto
    have cross: "i' \<le> j' + 1"
    proof (rule ccontr)
      assume "\<not> i' \<le> j' + 1"
      then have "i + 1 \<le> j' + 1 \<and> j' + 1 < i' \<and> j' < j' + 1 \<and> j' + 1 \<le> j - 1"
        using dn(3) up(3) by auto
      then have "lt (item d1 (j' + 1)) t" "lt t (item d1 (j' + 1))"
        using up(4) dn(4) by blast+
      then show False using asym by blast
    qed
    have lo: "\<forall>x. left \<le> x \<and> x < i' \<longrightarrow> \<not> lt t (item d1 x)"
    proof (intro allI impI)
      fix x assume x: "left \<le> x \<and> x < i'"
      have bx: "inb d x" using x bl bj up(3) by (auto simp: inb_def)
      consider "x < i" | "x = i" | "i + 1 \<le> x" by linarith
      then show "\<not> lt t (item d1 x)"
      proof cases
        case 1
        then show ?thesis using inv x True a1[OF bx] by (auto simp: fr_inv_def)
      next
        case 2
        then show ?thesis using inv True a1[OF bx] by (auto simp: fr_inv_def)
      next
        case 3
        then show ?thesis using up(4) x asym by blast
      qed
    qed
    have hi: "\<forall>x. j' < x \<and> x \<le> right \<longrightarrow> \<not> lt (item d1 x) t"
    proof (intro allI impI)
      fix x assume x: "j' < x \<and> x \<le> right"
      have bx: "inb d x" using x br bi dn(3) by (auto simp: inb_def)
      consider "j < x" | "x = j" | "x \<le> j - 1" by linarith
      then show "\<not> lt (item d1 x) t"
      proof cases
        case 1
        then show ?thesis using inv x True a1[OF bx] by (auto simp: fr_inv_def)
      next
        case 2
        then show ?thesis using inv True a1[OF bx] by (auto simp: fr_inv_def)
      next
        case 3
        then show ?thesis using dn(4) x asym by blast
      qed
    qed
    have inv1: "fr_inv lt left right pivot t d1 i' j'"
      unfolding fr_inv_def
      using li jr up dn cross lo hi pt bl br b1 True by auto
    have "nat (j' - i') < nat (j - i)"
      using up(2) dn(2) True by linarith
    from less.hyps[OF this inv1] obtain d' i'' j'' where
      r: "fr_loop lt d1 i' j' pivot = Inr (d', i'', j'')"
         "fr_inv lt left right pivot t d' i'' j''" "j'' \<le> i''" "perm_in left (right + 1) d1 d'"
      by blast
    have p1: "perm_in left (right + 1) d d1"
      unfolding d1_def using li jr True bi bj by (intro perm_in_swp) auto
    have "fr_loop lt d i j pivot = Inr (d', i'', j'')"
      using True bi bj up(1) dn(1) r(1)
      by (subst fr_loop.simps) (simp add: Swap_ok d1_def[symmetric])
    then show ?thesis
      using r perm_in_trans[OF r(4) p1] by blast
  qed
qed

section \<open>Proofs: FloydRivest\<close>

lemma fr_pass_ok:
  assumes asym: "\<forall>x y. lt x y \<longrightarrow> \<not> lt y x"
    and b: "0 \<le> left" "left < right" "right < int (length d)" "left \<le> k" "k \<le> right"
  shows "\<exists>d' m. fr_pass lt d left right k = Inr (d', m) \<and> left \<le> m \<and> m \<le> right \<and>
           perm_in left (right + 1) d d' \<and>
           (\<forall>x. left \<le> x \<and> x < m \<longrightarrow> \<not> lt (item d' m) (item d' x)) \<and>
           (\<forall>x. m < x \<and> x \<le> right \<longrightarrow> \<not> lt (item d' x) (item d' m))"
proof -
  have bl: "inb d left" and br: "inb d right" and bk: "inb d k"
    using b by (auto simp: inb_def)
  define d1 where "d1 = swp d left k"
  define t where "t = item d1 left"
  have b1: "\<And>x. inb d1 x = inb d x" by (simp add: d1_def)
  have bl1: "inb d1 left" and br1: "inb d1 right" using bl br by (simp_all add: b1)
  have p1: "perm_in left (right + 1) d d1"
    unfolding d1_def using b bl bk by (intro perm_in_swp) auto
  have irr: "\<And>x. \<not> lt x x" using asym by blast
  show ?thesis
  proof (cases "lt (item d1 left) (item d1 right)")
    case True
    define d2 where "d2 = swp d1 left right"
    have b2: "\<And>x. inb d2 x = inb d x" by (simp add: d2_def b1)
    have bl2: "inb d2 left" and br2: "inb d2 right" using bl br by (simp_all add: b2)
    have p2: "perm_in left (right + 1) d1 d2"
      unfolding d2_def using b bl1 br1 by (intro perm_in_swp) auto
    have a2l: "item d2 left = item d1 right" and a2r: "item d2 right = t"
      unfolding d2_def t_def using bl1 br1 b(2) by (simp_all add: at_swp)
    have sw: "item (swp d2 left right) left = t"
      using bl2 br2 a2r by (simp add: at_swp)
    have inv: "fr_inv lt left right left t d2 left right"
      unfolding fr_inv_def using b(2) bl2 br2 a2l a2r sw True asym irr
      by (auto simp: t_def)
    from fr_loop_ok[OF asym _ inv] obtain d3 i j where
      r: "fr_loop lt d2 left right left = Inr (d3, i, j)" "fr_inv lt left right left t d3 i j"
         "j \<le> i" "perm_in left (right + 1) d2 d3"
      by blast
    have b3: "\<And>x. inb d3 x = inb d x" using perm_in_inb[OF r(4)] b2 by simp
    from r(2,3) b(2) have f: "left < i" "j < right" "item d3 left = t" "i \<le> j + 1"
        "\<forall>x. left \<le> x \<and> x < i \<longrightarrow> \<not> lt t (item d3 x)"
        "\<forall>x. j < x \<and> x \<le> right \<longrightarrow> \<not> lt (item d3 x) t"
        "\<not> lt t (item d3 j)"
      unfolding fr_inv_def by auto
    have bl3: "inb d3 left" and bj3: "inb d3 j"
      using bl br f(1,2,4) unfolding b3 by (auto simp: inb_def)
    define d4 where "d4 = swp d3 left j"
    have a4: "\<And>x. inb d3 x \<Longrightarrow> item d4 x = (if x = j then item d3 left else if x = left then item d3 j else item d3 x)"
      unfolding d4_def using bl3 bj3 by (simp add: at_swp)
    have p4: "perm_in left (right + 1) d3 d4"
      unfolding d4_def using f bl3 bj3 by (intro perm_in_swp) auto
    have res: "fr_pass lt d left right k = Inr (d4, j)"
      unfolding fr_pass_def
      using bl bk br1 bl1 True r(1) bl3 bj3
      by (simp add: Swap_ok Less_ok d1_def[symmetric] d2_def[symmetric] d4_def[symmetric])
    have am: "item d4 j = t" using a4[OF bj3] f(3) by simp
    have lo: "\<forall>x. left \<le> x \<and> x < j \<longrightarrow> \<not> lt (item d4 j) (item d4 x)"
    proof (intro allI impI)
      fix x assume x: "left \<le> x \<and> x < j"
      have bx: "inb d3 x" using x bl3 bj3 by (auto simp: inb_def)
      show "\<not> lt (item d4 j) (item d4 x)"
        using a4[OF bx] x r(3) f(4,5,7) am by (cases "x = left") auto
    qed
    have hi: "\<forall>x. j < x \<and> x \<le> right \<longrightarrow> \<not> lt (item d4 x) (item d4 j)"
    proof (intro allI impI)
      fix x assume x: "j < x \<and> x \<le> right"
      have bx: "inb d3 x" using x bj3 br unfolding b3 by (auto simp: inb_def)
      show "\<not> lt (item d4 x) (item d4 j)"
        using a4[OF bx] x f(1,4,6) am by auto
    qed
    have "perm_in left (right + 1) d d4"
      using perm_in_trans[OF p4 perm_in_trans[OF r(4) perm_in_trans[OF p2 p1]]] .
    then show ?thesis
      using res lo hi f(1,2,4) by auto
  next
    case False
    have sw: "item (swp d1 left right) right = t"
      using bl1 br1 by (simp add: at_swp t_def)
    have inv: "fr_inv lt left right right t d1 left right"
      unfolding fr_inv_def using b(2) bl1 br1 sw False irr
      by (auto simp: t_def)
    from fr_loop_ok[OF asym _ inv] obtain d3 i j where
      r: "fr_loop lt d1 left right right = Inr (d3, i, j)" "fr_inv lt left right right t d3 i j"
         "j \<le> i" "perm_in left (right + 1) d1 d3"
      by blast
    have b3: "\<And>x. inb d3 x = inb d x" using perm_in_inb[OF r(4)] b1 by simp
    from r(2,3) b(2) have f: "left < i" "j < right" "item d3 right = t" "i \<le> j + 1"
        "\<forall>x. left \<le> x \<and> x < i \<longrightarrow> \<not> lt t (item d3 x)"
        "\<forall>x. j < x \<and> x \<le> right \<longrightarrow> \<not> lt (item d3 x) t"
        "\<not> lt t (item d3 j)"
      unfolding fr_inv_def by auto
    have br3: "inb d3 right" and bj3: "inb d3 (j + 1)"
      using bl br f(1,2,4) unfolding b3 by (auto simp: inb_def)
    define d4 where "d4 = swp d3 right (j + 1)"
    have a4: "\<And>x. inb d3 x \<Longrightarrow>
        item d4 x = (if x = j + 1 then item d3 right else if x = right then item d3 (j + 1) else item d3 x)"
      unfolding d4_def using br3 bj3 by (simp add: at_swp)
    have p4: "perm_in left (right + 1) d3 d4"
      unfolding d4_def using f br3 bj3 by (intro perm_in_swp) auto
    have res: "fr_pass lt d left right k = Inr (d4, j + 1)"
      unfolding fr_pass_def
      using bl bk br1 bl1 False r(1) br3 bj3
      by (simp add: Swap_ok Less_ok d1_def[symmetric] d4_def[symmetric])
    have am: "item d4 (j + 1) = t" using a4[OF bj3] f(3) by simp
    have lo: "\<forall>x. left \<le> x \<and> x < j + 1 \<longrightarrow> \<not> lt (item d4 (j + 1)) (item d4 x)"
    proof (intro allI impI)
      fix x assume x: "left \<le> x \<and> x < j + 1"
      have bx: "inb d3 x" using x bl bj3 unfolding b3 by (auto simp: inb_def)
      have "x < i \<or> x = j" using x r(3) by auto
      then show "\<not> lt (item d4 (j + 1)) (item d4 x)"
        using a4[OF bx] x f(2,5,7) am by auto
    qed
    have hi: "\<forall>x. j + 1 < x \<and> x \<le> right \<longrightarrow> \<not> lt (item d4 x) (item d4 (j + 1))"
    proof (intro allI impI)
      fix x assume x: "j + 1 < x \<and> x \<le> right"
      have bx: "inb d3 x" using x bj3 br3 by (auto simp: inb_def)
      show "\<not> lt (item d4 x) (item d4 (j + 1))"
        using a4[OF bx] x f(2,6) am by (cases "x = right") auto
    qed
    have "perm_in left (right + 1) d d4"
      using perm_in_trans[OF p4 perm_in_trans[OF r(4) p1]] .
    then show ?thesis
      using res lo hi f(1,2,4) by auto
  qed
qed


definition split_at :: "('a \<Rightarrow> 'a \<Rightarrow> bool) \<Rightarrow> 'a list \<Rightarrow> int \<Rightarrow> bool" where
  "split_at lt d s \<longleftrightarrow>
     (\<forall>x y. 0 \<le> x \<and> x < s \<and> s \<le> y \<and> y < int (length d) \<longrightarrow> \<not> lt (item d y) (item d x))"

definition sel :: "('a \<Rightarrow> 'a \<Rightarrow> bool) \<Rightarrow> 'a list \<Rightarrow> int \<Rightarrow> bool" where
  "sel lt d k \<longleftrightarrow>
     (\<forall>x. 0 \<le> x \<and> x < k \<longrightarrow> \<not> lt (item d k) (item d x)) \<and>
     (\<forall>x. k < x \<and> x < int (length d) \<longrightarrow> \<not> lt (item d x) (item d k))"

definition narrowing_ok :: "(int \<Rightarrow> int \<Rightarrow> int \<Rightarrow> int \<times> int) \<Rightarrow> bool" where
  "narrowing_ok est \<longleftrightarrow>
     (\<forall>left right k. 0 \<le> left \<and> left \<le> k \<and> k \<le> right \<and>
          right - left > rangeNarrowingThreshold \<longrightarrow>
        newLeft est left right k \<le> k \<and> k \<le> newRight est left right k \<and>
        newRight est left right k - newLeft est left right k < right - left)"

lemma sel_from_split:
  "split_at lt d k \<Longrightarrow> split_at lt d (k + 1) \<Longrightarrow> inb d k \<Longrightarrow> sel lt d k"
  unfolding split_at_def sel_def inb_def
  by (metis add.commute less_le_not_le linorder_not_le order.refl zless_iff_Suc_zadd zle_add1_eq_le)

lemma split_at_perm:
  assumes p: "perm_in a b d d'" and ab: "0 \<le> a" "b \<le> int (length d)"
    and s: "s \<le> a \<or> b \<le> s" and sp: "split_at lt d s"
  shows "split_at lt d' s"
  unfolding split_at_def
proof (intro allI impI)
  fix x y assume xy: "0 \<le> x \<and> x < s \<and> s \<le> y \<and> y < int (length d')"
  have len: "length d' = length d" using perm_in_length[OF p] .
  have bx: "inb d x" and iy: "inb d y" using xy len by (auto simp: inb_def)
  have base: "\<not> lt (item d y) (item d x)" using sp xy len unfolding split_at_def by auto
  from s show "\<not> lt (item d' y) (item d' x)"
  proof
    assume sa: "s \<le> a"
    then have ex: "item d' x = item d x" using perm_in_outside[OF p bx] xy by auto
    show ?thesis
    proof (cases "a \<le> y \<and> y < b")
      case True
      have "\<forall>z. a \<le> z \<and> z < b \<and> inb d z \<longrightarrow> \<not> lt (item d z) (item d x)"
        using sp xy sa len unfolding split_at_def inb_def by auto
      from perm_in_range[OF p this, of y] True iy show ?thesis by (simp add: ex)
    next
      case False
      then have "item d' y = item d y" using perm_in_outside[OF p iy] by auto
      then show ?thesis using ex base by simp
    qed
  next
    assume bs: "b \<le> s"
    then have ey: "item d' y = item d y" using perm_in_outside[OF p iy] xy by auto
    show ?thesis
    proof (cases "a \<le> x \<and> x < b")
      case True
      have "\<forall>z. a \<le> z \<and> z < b \<and> inb d z \<longrightarrow> \<not> lt (item d y) (item d z)"
        using sp xy bs ab len unfolding split_at_def inb_def by auto
      from perm_in_range[OF p this, of x] True bx show ?thesis by (simp add: ey)
    next
      case False
      then have "item d' x = item d x" using perm_in_outside[OF p bx] by auto
      then show ?thesis using ey base by simp
    qed
  qed
qed

lemma split_at_mid:
  assumes ntr: "\<And>x y z. \<not> lt x y \<Longrightarrow> \<not> lt y z \<Longrightarrow> \<not> lt x z"
    and sl: "split_at lt d a" and sr: "split_at lt d b"
    and m: "a \<le> m" "m < b" "0 \<le> a" "b \<le> int (length d)"
    and lo: "\<forall>x. a \<le> x \<and> x < m \<longrightarrow> \<not> lt (item d m) (item d x)"
    and hi: "\<forall>x. m < x \<and> x < b \<longrightarrow> \<not> lt (item d x) (item d m)"
  shows "split_at lt d m" and "split_at lt d (m + 1)"
proof -
  show "split_at lt d m"
    unfolding split_at_def
  proof (intro allI impI)
    fix x y assume xy: "0 \<le> x \<and> x < m \<and> m \<le> y \<and> y < int (length d)"
    consider "x < a" | "a \<le> x" "b \<le> y" | "a \<le> x" "y = m" | "a \<le> x" "m < y" "y < b"
      using xy by linarith
    then show "\<not> lt (item d y) (item d x)"
    proof cases
      case 1 then show ?thesis using sl xy m unfolding split_at_def by auto
    next
      case 2 then show ?thesis using sr xy m unfolding split_at_def by auto
    next
      case 3 then show ?thesis using lo xy by auto
    next
      case 4
      have "\<not> lt (item d y) (item d m)" "\<not> lt (item d m) (item d x)" using 4 lo hi xy by auto
      then show ?thesis by (rule ntr)
    qed
  qed
  show "split_at lt d (m + 1)"
    unfolding split_at_def
  proof (intro allI impI)
    fix x y assume xy: "0 \<le> x \<and> x < m + 1 \<and> m + 1 \<le> y \<and> y < int (length d)"
    consider "b \<le> y" | "y < b" "x < a" | "y < b" "x = m" | "y < b" "a \<le> x" "x < m"
      using xy by linarith
    then show "\<not> lt (item d y) (item d x)"
    proof cases
      case 1 then show ?thesis using sr xy m unfolding split_at_def by auto
    next
      case 2 then show ?thesis using sl xy m unfolding split_at_def by auto
    next
      case 3 then show ?thesis using hi xy by auto
    next
      case 4
      have "\<not> lt (item d y) (item d m)" "\<not> lt (item d m) (item d x)" using 4 lo hi xy by auto
      then show ?thesis by (rule ntr)
    qed
  qed
qed


lemma floydRivest_ok:
  assumes asym: "\<forall>x y. lt x y \<longrightarrow> \<not> lt y x" and nok: "narrowing_ok est"
  shows "0 \<le> left \<Longrightarrow> right < int (length d) \<Longrightarrow> left \<le> k \<Longrightarrow> k \<le> right \<Longrightarrow>
     \<exists>d'. floydRivest lt est d left right k = Some (Inr d') \<and>
          perm_in left (right + 1) d d' \<and>
          ((\<forall>x y z. \<not> lt x y \<longrightarrow> \<not> lt y z \<longrightarrow> \<not> lt x z) \<longrightarrow>
             split_at lt d left \<longrightarrow> split_at lt d (right + 1) \<longrightarrow> sel lt d' k)"
proof (induction "nat (right - left)" arbitrary: d left right rule: less_induct)
  case less
  note b = less.prems
  show ?case
  proof (cases "left < right")
    case False
    then have eq: "left = k" "right = k" using b by auto
    have r: "floydRivest lt est d left right k = Some (Inr d)"
      using False by (subst floydRivest.simps) simp
    have "inb d k" using b eq by (simp add: inb_def)
    then have "split_at lt d left \<Longrightarrow> split_at lt d (right + 1) \<Longrightarrow> sel lt d k"
      unfolding eq by (rule sel_from_split[rotated 2])
    then show ?thesis using r by (auto intro: perm_in_refl)
  next
    case True
    define T where "T = (if right - left > rangeNarrowingThreshold then
             floydRivest lt est d (newLeft est left right k) (newRight est left right k) k
           else Some (Inr d))"
    have "\<exists>d1. T = Some (Inr d1) \<and> perm_in left (right + 1) d d1"
    proof (cases "right - left > rangeNarrowingThreshold")
      case False
      then show ?thesis by (auto simp: T_def intro: perm_in_refl)
    next
      case nar: True
      define nl where "nl = newLeft est left right k"
      define nr where "nr = newRight est left right k"
      have n: "nl \<le> k" "k \<le> nr" "nr - nl < right - left"
        using nok b nar unfolding narrowing_ok_def nl_def nr_def by auto
      have c: "left \<le> nl" "nr \<le> right"
        by (simp_all add: nl_def nr_def newLeft_def newRight_def)
      have "nat (nr - nl) < nat (right - left)" using n True by linarith
      from less.hyps[OF this, of d] n c b obtain d1 where
        "floydRivest lt est d nl nr k = Some (Inr d1)" "perm_in nl (nr + 1) d d1"
        by auto
      then show ?thesis
        using nar c perm_in_mono[of nl "nr + 1" d d1 left "right + 1"]
        by (auto simp: T_def nl_def nr_def)
    qed
    then obtain d1 where d1: "T = Some (Inr d1)" "perm_in left (right + 1) d d1" by blast
    have len1: "length d1 = length d" using perm_in_length[OF d1(2)] .
    from fr_pass_ok[OF asym, of left right d1 k] b True len1 obtain d2 m where
      ps: "fr_pass lt d1 left right k = Inr (d2, m)" "left \<le> m" "m \<le> right"
          "perm_in left (right + 1) d1 d2"
          "\<forall>x. left \<le> x \<and> x < m \<longrightarrow> \<not> lt (item d2 m) (item d2 x)"
          "\<forall>x. m < x \<and> x \<le> right \<longrightarrow> \<not> lt (item d2 x) (item d2 m)"
      by auto
    have len2: "length d2 = length d" using perm_in_length[OF ps(4)] len1 by simp
    define l' where "l' = (if m \<le> k then m + 1 else left)"
    define r' where "r' = (if k \<le> m then m - 1 else right)"
    have rest: "\<exists>d3. floydRivest lt est d2 l' r' k = Some (Inr d3) \<and>
        perm_in left (right + 1) d2 d3 \<and>
        ((\<forall>x y z. \<not> lt x y \<longrightarrow> \<not> lt y z \<longrightarrow> \<not> lt x z) \<longrightarrow>
          split_at lt d2 left \<longrightarrow> split_at lt d2 (right + 1) \<longrightarrow>
          split_at lt d2 m \<longrightarrow> split_at lt d2 (m + 1) \<longrightarrow> sel lt d3 k)"
    proof -
      consider "m < k" | "m = k" | "k < m" by linarith
      then show ?thesis
      proof cases
        case 1
        then have lr: "l' = m + 1" "r' = right" by (simp_all add: l'_def r'_def)
        have "nat (right - (m + 1)) < nat (right - left)" using ps(2,3) True by linarith
        from less.hyps[OF this, of d2 ] 1 ps(2) b len2 obtain d3 where
          "floydRivest lt est d2 (m + 1) right k = Some (Inr d3)"
          "perm_in (m + 1) (right + 1) d2 d3"
          "(\<forall>x y z. \<not> lt x y \<longrightarrow> \<not> lt y z \<longrightarrow> \<not> lt x z) \<longrightarrow>
             split_at lt d2 (m + 1) \<longrightarrow> split_at lt d2 (right + 1) \<longrightarrow> sel lt d3 k"
          by auto
        then show ?thesis
          using lr ps(2) perm_in_mono[of "m + 1" "right + 1" d2 d3 left "right + 1"] by auto
      next
        case 2
        then have lr: "l' = k + 1" "r' = k - 1" by (simp_all add: l'_def r'_def)
        have r: "floydRivest lt est d2 l' r' k = Some (Inr d2)"
          unfolding lr by (subst floydRivest.simps) simp
        have "inb d2 k" using b len2 by (simp add: inb_def)
        then have "split_at lt d2 m \<Longrightarrow> split_at lt d2 (m + 1) \<Longrightarrow> sel lt d2 k"
          unfolding 2 by (rule sel_from_split[rotated 2])
        then show ?thesis using r by (auto intro: perm_in_refl)
      next
        case 3
        then have lr: "l' = left" "r' = m - 1" by (simp_all add: l'_def r'_def)
        have "nat ((m - 1) - left) < nat (right - left)" using ps(2,3) True by linarith
        from less.hyps[OF this, of d2] 3 ps(3) b len2 obtain d3 where
          "floydRivest lt est d2 left (m - 1) k = Some (Inr d3)"
          "perm_in left (m - 1 + 1) d2 d3"
          "(\<forall>x y z. \<not> lt x y \<longrightarrow> \<not> lt y z \<longrightarrow> \<not> lt x z) \<longrightarrow>
             split_at lt d2 left \<longrightarrow> split_at lt d2 (m - 1 + 1) \<longrightarrow> sel lt d3 k"
          by auto
        then show ?thesis
          using lr ps(3) perm_in_mono[of left "m - 1 + 1" d2 d3 left "right + 1"] by auto
      qed
    qed
    then obtain d3 where d3: "floydRivest lt est d2 l' r' k = Some (Inr d3)"
        "perm_in left (right + 1) d2 d3"
        "(\<forall>x y z. \<not> lt x y \<longrightarrow> \<not> lt y z \<longrightarrow> \<not> lt x z) \<longrightarrow>
          split_at lt d2 left \<longrightarrow> split_at lt d2 (right + 1) \<longrightarrow>
          split_at lt d2 m \<longrightarrow> split_at lt d2 (m + 1) \<longrightarrow> sel lt d3 k"
      by blast
    have res: "floydRivest lt est d left right k = Some (Inr d3)"
      using True d1(1) ps(1) d3(1)
      by (subst floydRivest.simps) (simp add: T_def[symmetric] l'_def r'_def)
    have perm: "perm_in left (right + 1) d d3"
      using perm_in_trans[OF d3(2) perm_in_trans[OF ps(4) d1(2)]] .
    have "sel lt d3 k"
      if ntr: "\<forall>x y z. \<not> lt x y \<longrightarrow> \<not> lt y z \<longrightarrow> \<not> lt x z"
        and sl: "split_at lt d left" and sr: "split_at lt d (right + 1)"
    proof -
      have rb: "right + 1 \<le> int (length d)" using b by simp
      have s1: "split_at lt d1 left" "split_at lt d1 (right + 1)"
        using split_at_perm[OF d1(2) b(1) rb _ sl] split_at_perm[OF d1(2) b(1) rb _ sr] by auto
      have rb1: "right + 1 \<le> int (length d1)" using rb len1 by simp
      have s2: "split_at lt d2 left" "split_at lt d2 (right + 1)"
        using split_at_perm[OF ps(4) b(1) rb1 _ s1(1)] split_at_perm[OF ps(4) b(1) rb1 _ s1(2)]
        by auto
      have rb2: "right + 1 \<le> int (length d2)" using rb len2 by simp
      have hi: "\<forall>x. m < x \<and> x < right + 1 \<longrightarrow> \<not> lt (item d2 x) (item d2 m)"
        using ps(6) by auto
      have mr: "m < right + 1" using ps(3) by simp
      have nt: "\<And>x y z. \<not> lt x y \<Longrightarrow> \<not> lt y z \<Longrightarrow> \<not> lt x z" using ntr by blast
      have "split_at lt d2 m" "split_at lt d2 (m + 1)"
        using split_at_mid[of lt d2 left "right + 1" m, OF nt s2 ps(2) mr b(1) rb2 ps(5) hi]
        by auto
      then show ?thesis using d3(3) ntr s2 by blast
    qed
    then show ?thesis using res perm by blast
  qed
qed

section \<open>Proofs: the range narrowing in exact arithmetic\<close>

lemma exp_5_le: "exp (5::real) \<le> 243"
proof -
  have "exp (5::real) = exp 1 ^ 5" by (simp add: exp_of_nat_mult[symmetric])
  also have "\<dots> \<le> 3 ^ 5" by (intro power_mono exp_le) simp
  finally show ?thesis by simp
qed

lemma ln_ge_5: assumes "243 \<le> n" shows "5 \<le> ln (n::real)"
proof -
  have "exp 5 \<le> n" using exp_5_le assms by linarith
  then have "ln (exp (5::real)) \<le> ln n" by (subst ln_le_cancel_iff) (use assms in auto)
  then show ?thesis by simp
qed

lemma exp_4_ge: assumes "0 \<le> y" shows "16 * y\<^sup>2 \<le> exp (4 * (y::real))"
proof -
  have "(1 + y)\<^sup>2 - 4 * y = (1 - y)\<^sup>2" by (simp add: power2_eq_square algebra_simps)
  then have a: "4 * y \<le> (1 + y)\<^sup>2" by (metis diff_ge_0_iff_ge zero_le_power2)
  have "16 * y\<^sup>2 = (4 * y)\<^sup>2" by (simp add: power2_eq_square)
  also have "\<dots> \<le> ((1 + y)\<^sup>2)\<^sup>2" using a assms by (intro power_mono) auto
  also have "\<dots> = (1 + y) ^ 4" by (simp add: power2_eq_square power4_eq_xxxx)
  also have "\<dots> \<le> exp y ^ 4" using assms by (intro power_mono) auto
  also have "\<dots> = exp (4 * y)" by (simp add: exp_of_nat_mult[symmetric])
  finally show ?thesis .
qed

lemma narrowing_facts:
  fixes n :: real
  assumes n: "243 \<le> n"
  defines "z \<equiv> ln n" and "s \<equiv> 0.5 * exp (2 * ln n / 3)"
  shows "0 \<le> z" "z \<le> s" "s \<le> n / 2"
    "0.5 * sqrt (z * s * (n - s) / n) \<le> s / 2" "0 \<le> 0.5 * sqrt (z * s * (n - s) / n)"
proof -
  have z5: "5 \<le> z" unfolding z_def using ln_ge_5[OF n] .
  then show z0: "0 \<le> z" by simp
  have e: "2 * z / 3 = 4 * (z / 6)" by simp
  have "16 * (z / 6)\<^sup>2 \<le> exp (2 * z / 3)" unfolding e using exp_4_ge[of "z / 6"] z5 by simp
  moreover have "2 * z \<le> 16 * (z / 6)\<^sup>2"
  proof -
    have a: "16 * (z / 6)\<^sup>2 = (4 / 9) * (z * z)" by (simp add: power2_eq_square)
    have b: "5 * z \<le> z * z" using z5 by (intro mult_right_mono) auto
    show ?thesis unfolding a using b z5 by linarith
  qed
  ultimately show zs: "z \<le> s" unfolding s_def z_def by simp
  have "exp (2 * z / 3) \<le> exp z" using z0 by simp
  also have "exp z = n" unfolding z_def using n by simp
  finally show sn: "s \<le> n / 2" unfolding s_def z_def by simp
  have s0: "0 \<le> s" using z0 zs by simp
  have "z * s * (n - s) / n \<le> z * s"
  proof -
    have "(n - s) / n \<le> 1" using s0 n by simp
    then have "z * s * ((n - s) / n) \<le> z * s * 1"
      using z0 s0 by (intro mult_left_mono) auto
    then show ?thesis by simp
  qed
  also have "z * s \<le> s * s" using zs s0 by (intro mult_right_mono) auto
  finally have "sqrt (z * s * (n - s) / n) \<le> sqrt (s * s)"
    by (rule real_sqrt_le_mono)
  then show "0.5 * sqrt (z * s * (n - s) / n) \<le> s / 2" using s0 by simp
  have "0 \<le> z * s * (n - s) / n" using z0 s0 sn n by simp
  then show "0 \<le> 0.5 * sqrt (z * s * (n - s) / n)" by simp
qed

lemma trunc_le:
  assumes "0 \<le> k" "x < real_of_int k + 1"
  shows "trunc x \<le> k"
proof (cases "0 \<le> x")
  case True
  then show ?thesis using assms(2) by (simp add: trunc_def floor_le_iff)
next
  case False
  then have c: "\<lceil>x\<rceil> \<le> 0" by (simp add: ceiling_le_iff)
  have "trunc x = \<lceil>x\<rceil>" using False by (simp add: trunc_def)
  then show ?thesis using c assms(1) by linarith
qed

lemma trunc_ge:
  assumes "0 \<le> k" "real_of_int k \<le> x"
  shows "k \<le> trunc x"
proof -
  have "0 \<le> x" using assms by linarith
  then show ?thesis using assms(2) by (simp add: trunc_def le_floor_iff)
qed

lemma trunc_bounds: "x - 1 < real_of_int (trunc x)" "real_of_int (trunc x) < x + 1"
  by (auto simp: trunc_def) linarith+

lemma frac_half:
  fixes n m s :: real
  assumes "0 < n" "0 \<le> s" "n \<le> 2 * m"
  shows "s / 2 \<le> m * s / n"
proof -
  have "1 / 2 \<le> m / n" using assms(1,3) by (simp add: field_simps)
  then have "s * (1 / 2) \<le> s * (m / n)" using assms(2) by (rule mult_left_mono)
  then show ?thesis by (simp add: mult.commute)
qed

lemma narrowing_ok_narrowing: "narrowing_ok narrowing"
  unfolding narrowing_ok_def
proof (intro allI impI)
  fix left right k :: int
  assume a: "0 \<le> left \<and> left \<le> k \<and> k \<le> right \<and> right - left > rangeNarrowingThreshold"
  define n :: int where "n = right - left + 1"
  define i :: int where "i = k - left + 1"
  define z where "z = ln (real_of_int n)"
  define s where "s = 0.5 * exp (2 * ln (real_of_int n) / 3)"
  define sd0 where "sd0 = 0.5 * sqrt (z * s * (real_of_int n - s) / real_of_int n)"
  define sd where "sd = (if i < quot n 2 then sd0 * (- 1.0) else sd0)"
  define xl where "xl = real_of_int k - real_of_int i * s / real_of_int n + sd"
  define xr where "xr = real_of_int k + real_of_int (n - i) * s / real_of_int n + sd"
  have e: "narrowing left right k = (trunc xl, trunc xr)"
    unfolding narrowing_def Let_def xl_def xr_def sd_def sd0_def s_def z_def i_def n_def
    by simp
  have n: "602 \<le> n" "1 \<le> i" "i \<le> n" "0 \<le> k"
    using a by (auto simp: n_def i_def rangeNarrowingThreshold_def)
  have n': "243 \<le> real_of_int n" using n(1) by simp
  note F = narrowing_facts[OF n', folded z_def s_def, folded sd0_def]
  have q: "quot n 2 = n div 2" using n by (simp add: quot_def)
  have rn: "0 < real_of_int n" using n by simp
  have s0: "0 \<le> s" using F(1,2) by simp
  have frac_i: "0 \<le> real_of_int i * s / real_of_int n" using n s0 by simp
  have frac_ni: "0 \<le> real_of_int (n - i) * s / real_of_int n" using n s0 by simp
  have sum: "real_of_int i * s / real_of_int n + real_of_int (n - i) * s / real_of_int n = s"
    using rn by (simp add: field_simps)
  have lo: "xl < real_of_int k + 1"
  proof (cases "i < n div 2")
    case True
    then have "sd = - sd0" by (simp add: sd_def q)
    then show ?thesis using frac_i F(5) by (simp add: xl_def)
  next
    case False
    then have sd: "sd = sd0" by (simp add: sd_def q)
    have "n \<le> 2 * i + 1" using False by linarith
    then have "real_of_int n \<le> 2 * (real_of_int i + 1 / 2)" by simp
    from frac_half[OF rn s0 this]
    have "s / 2 \<le> (real_of_int i + 1 / 2) * s / real_of_int n" .
    moreover have "(real_of_int i + 1 / 2) * s / real_of_int n =
        real_of_int i * s / real_of_int n + (1 / 2) * (s / real_of_int n)"
      by (simp add: distrib_right add_divide_distrib)
    ultimately
    have "s / 2 \<le> real_of_int i * s / real_of_int n + (1 / 2) * (s / real_of_int n)"
      by (simp only:)
    moreover have "s / real_of_int n \<le> 1 / 2" using F(3) rn by (simp add: field_simps)
    ultimately have "s / 2 - 1 / 4 \<le> real_of_int i * s / real_of_int n" by linarith
    then show ?thesis using F(4) unfolding xl_def sd by linarith
  qed
  have hi: "real_of_int k \<le> xr"
  proof (cases "i < n div 2")
    case False
    then have "sd = sd0" by (simp add: sd_def q)
    then show ?thesis using frac_ni F(5) by (simp add: xr_def)
  next
    case True
    then have sd: "sd = - sd0" by (simp add: sd_def q)
    have "2 * i \<le> n" using True by linarith
    then have "real_of_int n \<le> 2 * real_of_int (n - i)" by simp
    from frac_half[OF rn s0 this]
    have "s / 2 \<le> real_of_int (n - i) * s / real_of_int n" .
    then show ?thesis using F(4) unfolding xr_def sd by linarith
  qed
  have tl: "trunc xl \<le> k" using trunc_le[OF n(4) lo] .
  have tr: "k \<le> trunc xr" using trunc_ge[OF n(4) hi] .
  have "xr - xl = s" using sum by (simp add: xr_def xl_def)
  then have "real_of_int (trunc xr) - real_of_int (trunc xl) < s + 2"
    using trunc_bounds[of xl] trunc_bounds[of xr] by linarith
  moreover have "s + 2 \<le> real_of_int (right - left)"
    using F(3) n(1) by (simp add: n_def)
  ultimately have "real_of_int (trunc xr - trunc xl) < real_of_int (right - left)" by simp
  then have w: "trunc xr - trunc xl < right - left" by linarith
  show "newLeft narrowing left right k \<le> k \<and> k \<le> newRight narrowing left right k \<and>
        newRight narrowing left right k - newLeft narrowing left right k < right - left"
    using tl tr w a by (simp add: newLeft_def newRight_def e)
qed

section \<open>Proofs: the partitioning helpers of PDQSelect\<close>

lemma partition_scan_i_ok:
  assumes "inb d a" "0 \<le> i" "j < int (length d)" "i \<le> j + 1"
  shows "\<exists>i'. partition_scan_i lt d i j a = Inr i' \<and> i \<le> i' \<and> i' \<le> j + 1 \<and>
           (\<forall>x. i \<le> x \<and> x < i' \<longrightarrow> lt (item d x) (item d a)) \<and>
           (i' \<le> j \<longrightarrow> \<not> lt (item d i') (item d a))"
  using assms(2,4)
proof (induction "nat (j + 1 - i)" arbitrary: i rule: less_induct)
  case less
  show ?case
  proof (cases "i \<le> j")
    case False
    then show ?thesis using less.prems by (subst partition_scan_i.simps) auto
  next
    case True
    then have ib: "inb d i" using less.prems assms(3) by (simp add: inb_def)
    show ?thesis
    proof (cases "lt (item d i) (item d a)")
      case c: True
      from less.hyps[of "i + 1"] True less.prems obtain i' where
        r: "partition_scan_i lt d (i + 1) j a = Inr i'" "i + 1 \<le> i'" "i' \<le> j + 1"
           "\<forall>x. i + 1 \<le> x \<and> x < i' \<longrightarrow> lt (item d x) (item d a)"
           "i' \<le> j \<longrightarrow> \<not> lt (item d i') (item d a)"
        by auto
      have "\<forall>x. i \<le> x \<and> x < i' \<longrightarrow> lt (item d x) (item d a)"
      proof (intro allI impI)
        fix x assume "i \<le> x \<and> x < i'"
        then have "x = i \<or> (i + 1 \<le> x \<and> x < i')" by auto
        then show "lt (item d x) (item d a)" using c r(4) by auto
      qed
      then show ?thesis
        using r c ib assms(1) True by (subst partition_scan_i.simps) (simp add: Less_ok)
    next
      case False
      then show ?thesis
        using ib assms(1) True by (subst partition_scan_i.simps) (auto simp: Less_ok)
    qed
  qed
qed

lemma partition_scan_j_ok:
  assumes "inb d a" "0 \<le> i" "j < int (length d)" "i \<le> j + 1"
  shows "\<exists>j'. partition_scan_j lt d i j a = Inr j' \<and> j' \<le> j \<and> i - 1 \<le> j' \<and>
           (\<forall>x. j' < x \<and> x \<le> j \<longrightarrow> lt (item d a) (item d x)) \<and>
           (i \<le> j' \<longrightarrow> \<not> lt (item d a) (item d j'))"
  using assms(3,4)
proof (induction "nat (j + 1 - i)" arbitrary: j rule: less_induct)
  case less
  show ?case
  proof (cases "i \<le> j")
    case False
    then show ?thesis using less.prems by (subst partition_scan_j.simps) auto
  next
    case True
    then have ib: "inb d j" using less.prems assms(2) by (simp add: inb_def)
    show ?thesis
    proof (cases "lt (item d a) (item d j)")
      case c: True
      from less.hyps[of "j - 1"] True less.prems obtain j' where
        r: "partition_scan_j lt d i (j - 1) a = Inr j'" "j' \<le> j - 1" "i - 1 \<le> j'"
           "\<forall>x. j' < x \<and> x \<le> j - 1 \<longrightarrow> lt (item d a) (item d x)"
           "i \<le> j' \<longrightarrow> \<not> lt (item d a) (item d j')"
        by auto
      have "\<forall>x. j' < x \<and> x \<le> j \<longrightarrow> lt (item d a) (item d x)"
      proof (intro allI impI)
        fix x assume "j' < x \<and> x \<le> j"
        then have "x = j \<or> (j' < x \<and> x \<le> j - 1)" by auto
        then show "lt (item d a) (item d x)" using c r(4) by auto
      qed
      then show ?thesis
        using r c ib assms(1) True by (subst partition_scan_j.simps) (simp add: Less_ok)
    next
      case False
      then show ?thesis
        using ib assms(1) True by (subst partition_scan_j.simps) (auto simp: Less_ok)
    qed
  qed
qed

lemma partitionEqual_scan_i_ok:
  assumes "inb d a" "0 \<le> i" "j < int (length d)" "i \<le> j + 1"
  shows "\<exists>i'. partitionEqual_scan_i lt d i j a = Inr i' \<and> i \<le> i' \<and> i' \<le> j + 1 \<and>
           (\<forall>x. i \<le> x \<and> x < i' \<longrightarrow> \<not> lt (item d a) (item d x)) \<and>
           (i' \<le> j \<longrightarrow> lt (item d a) (item d i'))"
  using assms(2,4)
proof (induction "nat (j + 1 - i)" arbitrary: i rule: less_induct)
  case less
  show ?case
  proof (cases "i \<le> j")
    case False
    then show ?thesis using less.prems by (subst partitionEqual_scan_i.simps) auto
  next
    case True
    then have ib: "inb d i" using less.prems assms(3) by (simp add: inb_def)
    show ?thesis
    proof (cases "lt (item d a) (item d i)")
      case c: False
      from less.hyps[of "i + 1"] True less.prems obtain i' where
        r: "partitionEqual_scan_i lt d (i + 1) j a = Inr i'" "i + 1 \<le> i'" "i' \<le> j + 1"
           "\<forall>x. i + 1 \<le> x \<and> x < i' \<longrightarrow> \<not> lt (item d a) (item d x)"
           "i' \<le> j \<longrightarrow> lt (item d a) (item d i')"
        by auto
      have "\<forall>x. i \<le> x \<and> x < i' \<longrightarrow> \<not> lt (item d a) (item d x)"
      proof (intro allI impI)
        fix x assume "i \<le> x \<and> x < i'"
        then have "x = i \<or> (i + 1 \<le> x \<and> x < i')" by auto
        then show "\<not> lt (item d a) (item d x)" using c r(4) by auto
      qed
      then show ?thesis
        using r c ib assms(1) True by (subst partitionEqual_scan_i.simps) (simp add: Less_ok)
    next
      case True
      then show ?thesis
        using ib assms(1) \<open>i \<le> j\<close> by (subst partitionEqual_scan_i.simps) (auto simp: Less_ok)
    qed
  qed
qed

definition part_inv ::
  "('a \<Rightarrow> 'a \<Rightarrow> bool) \<Rightarrow> int \<Rightarrow> int \<Rightarrow> 'a \<Rightarrow> 'a list \<Rightarrow> int \<Rightarrow> int \<Rightarrow> bool" where
  "part_inv lt a b pv d i j \<longleftrightarrow>
     0 \<le> a \<and> a < i \<and> i \<le> j + 1 \<and> j < b \<and> b \<le> int (length d) \<and> item d a = pv \<and>
     (\<forall>x. a < x \<and> x < i \<longrightarrow> \<not> lt pv (item d x)) \<and>
     (\<forall>x. j < x \<and> x < b \<longrightarrow> \<not> lt (item d x) pv) \<and>
     (i \<le> j \<longrightarrow> \<not> lt (item d i) pv \<and> \<not> lt pv (item d j))"

lemma partition_loop_ok:
  assumes asym: "\<forall>x y. lt x y \<longrightarrow> \<not> lt y x"
    and inv: "part_inv lt a b pv d i j"
  shows "\<exists>d' i' j'. partition_loop lt d i j a = Inr (d', i', j') \<and>
           part_inv lt a b pv d' i' j' \<and> j' \<le> i' \<and> perm_in (a + 1) b d d'"
  using inv
proof (induction "nat (j - i)" arbitrary: d i j rule: less_induct)
  case less
  note inv = less.prems
  show ?case
  proof (cases "i < j")
    case False
    then show ?thesis
      using inv by (subst partition_loop.simps) (auto intro: perm_in_refl)
  next
    case True
    from inv have f: "0 \<le> a" "a < i" "j < b" "b \<le> int (length d)" "item d a = pv"
        "\<forall>x. a < x \<and> x < i \<longrightarrow> \<not> lt pv (item d x)"
        "\<forall>x. j < x \<and> x < b \<longrightarrow> \<not> lt (item d x) pv"
        "\<not> lt (item d i) pv" "\<not> lt pv (item d j)"
      using True by (auto simp: part_inv_def)
    have bi: "inb d i" and bj: "inb d j" and ba: "inb d a"
      using f True by (auto simp: inb_def)
    define d1 where "d1 = swp d i j"
    have len1: "length d1 = length d" by (simp add: d1_def)
    have a1: "\<And>x. inb d x \<Longrightarrow> item d1 x = (if x = j then item d i else if x = i then item d j else item d x)"
      unfolding d1_def using bi bj by (simp add: at_swp)
    have ba1: "inb d1 a" using ba by (simp add: d1_def)
    have pt: "item d1 a = pv" using a1[OF ba] f True by auto
    obtain i' where up: "partition_scan_i lt d1 (i + 1) (j - 1) a = Inr i'" "i + 1 \<le> i'" "i' \<le> j"
        "\<forall>x. i + 1 \<le> x \<and> x < i' \<longrightarrow> lt (item d1 x) pv" "i' \<le> j - 1 \<longrightarrow> \<not> lt (item d1 i') pv"
      using partition_scan_i_ok[of d1 a "i + 1" "j - 1" lt] ba1 f True len1 pt by auto
    obtain j' where dn: "partition_scan_j lt d1 i' (j - 1) a = Inr j'" "j' \<le> j - 1" "i' - 1 \<le> j'"
        "\<forall>x. j' < x \<and> x \<le> j - 1 \<longrightarrow> lt pv (item d1 x)" "i' \<le> j' \<longrightarrow> \<not> lt pv (item d1 j')"
      using partition_scan_j_ok[of d1 a i' "j - 1" lt] ba1 f True len1 pt up(2,3) by auto
    have lo: "\<forall>x. a < x \<and> x < i' \<longrightarrow> \<not> lt pv (item d1 x)"
    proof (intro allI impI)
      fix x assume x: "a < x \<and> x < i'"
      have bx: "inb d x" using x f up(3) by (auto simp: inb_def)
      consider "x < i" | "x = i" | "i + 1 \<le> x" by linarith
      then show "\<not> lt pv (item d1 x)"
      proof cases
        case 1
        then show ?thesis using f(6) x True a1[OF bx] by auto
      next
        case 2
        then show ?thesis using f(9) True a1[OF bx] by auto
      next
        case 3
        then show ?thesis using up(4) x asym by blast
      qed
    qed
    have hi: "\<forall>x. j' < x \<and> x < b \<longrightarrow> \<not> lt (item d1 x) pv"
    proof (intro allI impI)
      fix x assume x: "j' < x \<and> x < b"
      have bx: "inb d x" using x f dn(3) up(2) by (auto simp: inb_def)
      consider "j < x" | "x = j" | "x \<le> j - 1" by linarith
      then show "\<not> lt (item d1 x) pv"
      proof cases
        case 1
        then show ?thesis using f(7) x True a1[OF bx] by auto
      next
        case 2
        then show ?thesis using f(8) True a1[OF bx] by auto
      next
        case 3
        then show ?thesis using dn(4) x asym by blast
      qed
    qed
    have inv1: "part_inv lt a b pv d1 i' j'"
      unfolding part_inv_def
      using f(1-4) up(2,3,5) dn(2,3,5) lo hi pt len1 by auto
    have "nat (j' - i') < nat (j - i)"
      using up(2) dn(2) True by linarith
    from less.hyps[OF this inv1] obtain d' i'' j'' where
      r: "partition_loop lt d1 i' j' a = Inr (d', i'', j'')"
         "part_inv lt a b pv d' i'' j''" "j'' \<le> i''" "perm_in (a + 1) b d1 d'"
      by blast
    have p1: "perm_in (a + 1) b d d1"
      unfolding d1_def using f True bi bj by (intro perm_in_swp) auto
    have "partition_loop lt d i j a = Inr (d', i'', j'')"
      using True bi bj up(1) dn(1) r(1)
      by (subst partition_loop.simps) (simp add: Swap_ok d1_def[symmetric])
    then show ?thesis
      using r perm_in_trans[OF r(4) p1] by blast
  qed
qed

lemma partition_range_ok:
  assumes asym: "\<forall>x y. lt x y \<longrightarrow> \<not> lt y x"
    and b: "0 \<le> a" "a \<le> p" "p < b" "b \<le> int (length d)"
  shows "\<exists>d' mid ap. partition_range lt d a b p = Inr (d', mid, ap) \<and> a \<le> mid \<and> mid < b \<and>
           perm_in a b d d' \<and>
           (\<forall>x. a \<le> x \<and> x < mid \<longrightarrow> \<not> lt (item d' mid) (item d' x)) \<and>
           (\<forall>x. mid < x \<and> x < b \<longrightarrow> \<not> lt (item d' x) (item d' mid))"
proof -
  have ba: "inb d a" and bp: "inb d p" using b by (auto simp: inb_def)
  define d1 where "d1 = swp d p a"
  define pv where "pv = item d1 a"
  have len1: "length d1 = length d" by (simp add: d1_def)
  have ba1: "inb d1 a" using ba by (simp add: d1_def)
  have p1: "perm_in a b d d1"
    unfolding d1_def using b ba bp by (intro perm_in_swp) auto
  obtain i where up: "partition_scan_i lt d1 (a + 1) (b - 1) a = Inr i" "a + 1 \<le> i" "i \<le> b"
      "\<forall>x. a + 1 \<le> x \<and> x < i \<longrightarrow> lt (item d1 x) pv" "i \<le> b - 1 \<longrightarrow> \<not> lt (item d1 i) pv"
    using partition_scan_i_ok[of d1 a "a + 1" "b - 1" lt] ba1 b len1 by (auto simp: pv_def)
  obtain j where dn: "partition_scan_j lt d1 i (b - 1) a = Inr j" "j \<le> b - 1" "i - 1 \<le> j"
      "\<forall>x. j < x \<and> x \<le> b - 1 \<longrightarrow> lt pv (item d1 x)" "i \<le> j \<longrightarrow> \<not> lt pv (item d1 j)"
    using partition_scan_j_ok[of d1 a i "b - 1" lt] ba1 b len1 up(2,3) by (auto simp: pv_def)
  have inv: "part_inv lt a b pv d1 i j"
    unfolding part_inv_def
    using b up(2-5) dn(2-5) len1 asym by (auto simp: pv_def)
  from partition_loop_ok[OF asym inv] obtain d2 i2 j2 where
    r: "partition_loop lt d1 i j a = Inr (d2, i2, j2)" "part_inv lt a b pv d2 i2 j2"
       "j2 \<le> i2" "perm_in (a + 1) b d1 d2"
    by blast
  from r(2) have f: "a < i2" "i2 \<le> j2 + 1" "j2 < b" "b \<le> int (length d2)" "item d2 a = pv"
      "\<forall>x. a < x \<and> x < i2 \<longrightarrow> \<not> lt pv (item d2 x)"
      "\<forall>x. j2 < x \<and> x < b \<longrightarrow> \<not> lt (item d2 x) pv"
      "i2 \<le> j2 \<longrightarrow> \<not> lt (item d2 i2) pv"
    by (auto simp: part_inv_def)
  define mid where "mid = i2 - 1"
  have ba2: "inb d2 a" and bm: "inb d2 mid"
    using b f by (auto simp: inb_def mid_def)
  define d3 where "d3 = swp d2 a mid"
  have a3: "\<And>x. inb d2 x \<Longrightarrow> item d3 x = (if x = mid then item d2 a else if x = a then item d2 mid else item d2 x)"
    unfolding d3_def using ba2 bm by (simp add: at_swp)
  have p3: "perm_in a b d2 d3"
    unfolding d3_def using f ba2 bm b by (intro perm_in_swp) (auto simp: mid_def)
  have res: "partition_range lt d a b p = Inr (d3, mid, i > j)"
    unfolding partition_range_def
    using ba bp up(1) dn(1) r(1) ba2 bm
    by (simp add: Swap_ok d1_def[symmetric] d3_def[symmetric] mid_def[symmetric])
  have am: "item d3 mid = pv" using a3[OF bm] f(5) by simp
  have lo: "\<forall>x. a \<le> x \<and> x < mid \<longrightarrow> \<not> lt (item d3 mid) (item d3 x)"
  proof (intro allI impI)
    fix x assume x: "a \<le> x \<and> x < mid"
    have bx: "inb d2 x" using x ba2 bm by (auto simp: inb_def)
    show "\<not> lt (item d3 mid) (item d3 x)"
      using a3[OF bx] x f(6) am by (cases "x = a") (auto simp: mid_def)
  qed
  have hi: "\<forall>x. mid < x \<and> x < b \<longrightarrow> \<not> lt (item d3 x) (item d3 mid)"
  proof (intro allI impI)
    fix x assume x: "mid < x \<and> x < b"
    have bx: "inb d2 x" using x bm f(4) by (auto simp: inb_def)
    have "j2 < x \<or> (x = i2 \<and> i2 \<le> j2)" using x r(3) by (auto simp: mid_def)
    then show "\<not> lt (item d3 x) (item d3 mid)"
      using a3[OF bx] x f(1,7,8) am by (auto simp: mid_def)
  qed
  have "perm_in a b d d3"
    using perm_in_trans[OF p3 perm_in_trans[OF perm_in_mono[OF r(4), of a b] p1]] by simp
  then show ?thesis
    using res lo hi f(1,2,3) by (auto simp: mid_def)
qed


definition pe_inv ::
  "('a \<Rightarrow> 'a \<Rightarrow> bool) \<Rightarrow> int \<Rightarrow> int \<Rightarrow> 'a \<Rightarrow> 'a list \<Rightarrow> int \<Rightarrow> int \<Rightarrow> bool" where
  "pe_inv lt a b pv d i j \<longleftrightarrow>
     0 \<le> a \<and> a < i \<and> i \<le> j + 1 \<and> j < b \<and> b \<le> int (length d) \<and> item d a = pv \<and>
     (\<forall>x. a < x \<and> x < i \<longrightarrow> \<not> lt pv (item d x)) \<and>
     (\<forall>x. j < x \<and> x < b \<longrightarrow> lt pv (item d x))"

lemma partitionEqual_loop_ok:
  assumes inv: "pe_inv lt a b pv d i j"
  shows "\<exists>d' mid. partitionEqual_loop lt d i j a = Inr (d', mid) \<and> a < mid \<and> mid \<le> b \<and>
           perm_in (a + 1) b d d' \<and> item d' a = pv \<and>
           (\<forall>x. a < x \<and> x < mid \<longrightarrow> \<not> lt pv (item d' x)) \<and>
           (\<forall>x. mid \<le> x \<and> x < b \<longrightarrow> lt pv (item d' x))"
  using inv
proof (induction "nat (j + 1 - i)" arbitrary: d i j rule: less_induct)
  case less
  from less.prems have f: "0 \<le> a" "a < i" "i \<le> j + 1" "j < b" "b \<le> int (length d)" "item d a = pv"
      "\<forall>x. a < x \<and> x < i \<longrightarrow> \<not> lt pv (item d x)"
      "\<forall>x. j < x \<and> x < b \<longrightarrow> lt pv (item d x)"
    by (auto simp: pe_inv_def)
  have ba: "inb d a" using f by (auto simp: inb_def)
  obtain i' where up: "partitionEqual_scan_i lt d i j a = Inr i'" "i \<le> i'" "i' \<le> j + 1"
      "\<forall>x. i \<le> x \<and> x < i' \<longrightarrow> \<not> lt pv (item d x)" "i' \<le> j \<longrightarrow> lt pv (item d i')"
    using partitionEqual_scan_i_ok[of d a i j lt] ba f by auto
  obtain j' where dn: "partition_scan_j lt d i' j a = Inr j'" "j' \<le> j" "i' - 1 \<le> j'"
      "\<forall>x. j' < x \<and> x \<le> j \<longrightarrow> lt pv (item d x)" "i' \<le> j' \<longrightarrow> \<not> lt pv (item d j')"
    using partition_scan_j_ok[of d a i' j lt] ba f up(2,3) by auto
  have lo: "\<forall>x. a < x \<and> x < i' \<longrightarrow> \<not> lt pv (item d x)"
  proof (intro allI impI)
    fix x assume "a < x \<and> x < i'"
    then have "(a < x \<and> x < i) \<or> (i \<le> x \<and> x < i')" by auto
    then show "\<not> lt pv (item d x)" using f(7) up(4) by blast
  qed
  have hi: "\<forall>x. j' < x \<and> x < b \<longrightarrow> lt pv (item d x)"
  proof (intro allI impI)
    fix x assume "j' < x \<and> x < b"
    then have "(j < x \<and> x < b) \<or> (j' < x \<and> x \<le> j)" by auto
    then show "lt pv (item d x)" using f(8) dn(4) by blast
  qed
  show ?case
  proof (cases "i' > j'")
    case True
    have "partitionEqual_loop lt d i j a = Inr (d, i')"
      using up(1) dn(1) True by (subst partitionEqual_loop.simps) simp
    moreover have "\<forall>x. i' \<le> x \<and> x < b \<longrightarrow> lt pv (item d x)"
      using hi True by auto
    ultimately show ?thesis
      using f up(2,3) lo by (auto intro: perm_in_refl)
  next
    case False
    then have le: "i' \<le> j'" by simp
    then have c: "lt pv (item d i')" "\<not> lt pv (item d j')" using up(5) dn(2,5) by auto
    then have ne: "i' \<noteq> j'" by auto
    have bi: "inb d i'" and bj: "inb d j'"
      using f up(2) dn(2) le by (auto simp: inb_def)
    define d1 where "d1 = swp d i' j'"
    have len1: "length d1 = length d" by (simp add: d1_def)
    have a1: "\<And>x. inb d x \<Longrightarrow> item d1 x = (if x = j' then item d i' else if x = i' then item d j' else item d x)"
      unfolding d1_def using bi bj by (simp add: at_swp)
    have pt: "item d1 a = pv" using a1[OF ba] f up(2) le by auto
    have lo1: "\<forall>x. a < x \<and> x < i' + 1 \<longrightarrow> \<not> lt pv (item d1 x)"
    proof (intro allI impI)
      fix x assume x: "a < x \<and> x < i' + 1"
      have bx: "inb d x" using x f bi by (auto simp: inb_def)
      show "\<not> lt pv (item d1 x)"
        using a1[OF bx] x lo c le ne by (cases "x = i'") auto
    qed
    have hi1: "\<forall>x. j' - 1 < x \<and> x < b \<longrightarrow> lt pv (item d1 x)"
    proof (intro allI impI)
      fix x assume x: "j' - 1 < x \<and> x < b"
      have bx: "inb d x" using x f bj by (auto simp: inb_def)
      show "lt pv (item d1 x)"
        using a1[OF bx] x hi c le ne by (cases "x = j'") auto
    qed
    have inv1: "pe_inv lt a b pv d1 (i' + 1) (j' - 1)"
      unfolding pe_inv_def
      using f(1,2,4,5) up(2) dn(2) le ne lo1 hi1 pt len1 by auto
    have "nat (j' - 1 + 1 - (i' + 1)) < nat (j + 1 - i)"
      using up(2) dn(2) le by linarith
    from less.hyps[OF this inv1] obtain d' mid where
      r: "partitionEqual_loop lt d1 (i' + 1) (j' - 1) a = Inr (d', mid)" "a < mid" "mid \<le> b"
         "perm_in (a + 1) b d1 d'" "item d' a = pv"
         "\<forall>x. a < x \<and> x < mid \<longrightarrow> \<not> lt pv (item d' x)"
         "\<forall>x. mid \<le> x \<and> x < b \<longrightarrow> lt pv (item d' x)"
      by blast
    have p1: "perm_in (a + 1) b d d1"
      unfolding d1_def using f up(2) dn(2) le bi bj by (intro perm_in_swp) auto
    have "partitionEqual_loop lt d i j a = Inr (d', mid)"
      using up(1) dn(1) False bi bj r(1)
      by (subst partitionEqual_loop.simps) (simp add: Swap_ok d1_def[symmetric])
    then show ?thesis
      using r perm_in_trans[OF r(4) p1] by blast
  qed
qed

lemma partitionEqual_ok:
  assumes asym: "\<forall>x y. lt x y \<longrightarrow> \<not> lt y x"
    and b: "0 \<le> a" "a \<le> p" "p < b" "b \<le> int (length d)"
  shows "\<exists>d' mid. partitionEqual lt d a b p = Inr (d', mid) \<and> a < mid \<and> mid \<le> b \<and>
           perm_in a b d d' \<and>
           (\<forall>x. a \<le> x \<and> x < mid \<longrightarrow> \<not> lt (item d p) (item d' x)) \<and>
           (\<forall>x. mid \<le> x \<and> x < b \<longrightarrow> lt (item d p) (item d' x))"
proof -
  have ba: "inb d a" and bp: "inb d p" using b by (auto simp: inb_def)
  define d1 where "d1 = swp d p a"
  have len1: "length d1 = length d" by (simp add: d1_def)
  have pv: "item d1 a = item d p" unfolding d1_def using ba bp by (simp add: at_swp)
  have p1: "perm_in a b d d1"
    unfolding d1_def using b ba bp by (intro perm_in_swp) auto
  have inv: "pe_inv lt a b (item d p) d1 (a + 1) (b - 1)"
    unfolding pe_inv_def using b len1 pv by auto
  from partitionEqual_loop_ok[OF inv] obtain d' mid where
    r: "partitionEqual_loop lt d1 (a + 1) (b - 1) a = Inr (d', mid)" "a < mid" "mid \<le> b"
       "perm_in (a + 1) b d1 d'" "item d' a = item d p"
       "\<forall>x. a < x \<and> x < mid \<longrightarrow> \<not> lt (item d p) (item d' x)"
       "\<forall>x. mid \<le> x \<and> x < b \<longrightarrow> lt (item d p) (item d' x)"
    by blast
  have res: "partitionEqual lt d a b p = Inr (d', mid)"
    unfolding partitionEqual_def using ba bp r(1) by (simp add: Swap_ok d1_def[symmetric])
  have lo: "\<forall>x. a \<le> x \<and> x < mid \<longrightarrow> \<not> lt (item d p) (item d' x)"
  proof (intro allI impI)
    fix x assume "a \<le> x \<and> x < mid"
    then have "x = a \<or> (a < x \<and> x < mid)" by auto
    then show "\<not> lt (item d p) (item d' x)" using r(5,6) asym by metis
  qed
  have "perm_in a b d d'"
    using perm_in_trans[OF perm_in_mono[OF r(4), of a b] p1] by simp
  then show ?thesis using res r(2,3,7) lo by blast
qed

lemma breakPatterns_ok:
  assumes b: "0 \<le> a" "a < b" "b \<le> int (length d)"
  shows "\<exists>d'. breakPatterns d a b = Inr d' \<and> perm_in a b d d'"
proof -
  define len where "len = b - a"
  define mid where "mid = a + len div 2"
  have l: "0 < len" "len div 4 \<le> len div 2" "0 \<le> len div 4" "len div 2 + len div 4 < len"
    using b by (auto simp: len_def)
  define d1 where "d1 = swp d a (a + len div 4)"
  define d2 where "d2 = swp d1 mid (mid + len div 4)"
  define d3 where "d3 = swp d2 (b - 1) (b - 1 - len div 4)"
  have i1: "inb d a" "inb d (a + len div 4)"
    using b l by (auto simp: inb_def len_def)
  have i2: "inb d1 mid" "inb d1 (mid + len div 4)"
    using b l by (auto simp: inb_def len_def mid_def d1_def)
  have i3: "inb d2 (b - 1)" "inb d2 (b - 1 - len div 4)"
    using b l by (auto simp: inb_def len_def d1_def d2_def)
  have p1: "perm_in a b d d1"
    unfolding d1_def using i1 b l by (intro perm_in_swp) (auto simp: len_def)
  have p2: "perm_in a b d1 d2"
    unfolding d2_def using i2 b l by (intro perm_in_swp) (auto simp: len_def mid_def)
  have p3: "perm_in a b d2 d3"
    unfolding d3_def using i3 b l by (intro perm_in_swp) (auto simp: len_def)
  have "breakPatterns d a b = Inr d3"
    unfolding breakPatterns_def Let_def
    using i1 i2 i3
    by (simp add: Swap_ok len_def[symmetric] mid_def[symmetric] d1_def[symmetric]
        d2_def[symmetric] d3_def[symmetric])
  then show ?thesis using perm_in_trans[OF p3 perm_in_trans[OF p2 p1]] by blast
qed

lemma reverse_loop_ok:
  "0 \<le> i \<Longrightarrow> j < int (length d) \<Longrightarrow> a \<le> i \<Longrightarrow> j < b \<Longrightarrow>
   \<exists>d'. reverse_loop d i j = Inr d' \<and> perm_in a b d d'"
proof (induction "nat (j - i)" arbitrary: d i j rule: less_induct)
  case less
  show ?case
  proof (cases "i < j")
    case False
    then show ?thesis by (subst reverse_loop.simps) (auto intro: perm_in_refl)
  next
    case True
    have bi: "inb d i" and bj: "inb d j" using less.prems True by (auto simp: inb_def)
    have "nat (j - 1 - (i + 1)) < nat (j - i)" using True by linarith
    from less.hyps[OF this, of "swp d i j"] less.prems True obtain d' where
      r: "reverse_loop (swp d i j) (i + 1) (j - 1) = Inr d'" "perm_in a b (swp d i j) d'"
      by auto
    have p1: "perm_in a b d (swp d i j)"
      using less.prems True bi bj by (intro perm_in_swp) auto
    have "reverse_loop d i j = Inr d'"
      using True bi bj r(1) by (subst reverse_loop.simps) (simp add: Swap_ok)
    then show ?thesis using perm_in_trans[OF r(2) p1] by blast
  qed
qed

lemma reverseRange_ok:
  "0 \<le> a \<Longrightarrow> b \<le> int (length d) \<Longrightarrow> \<exists>d'. reverseRange d a b = Inr d' \<and> perm_in a b d d'"
  unfolding reverseRange_def using reverse_loop_ok[of a "b - 1" d a b] by auto

section \<open>Proofs: insertion sort\<close>

definition adj_sorted :: "('a \<Rightarrow> 'a \<Rightarrow> bool) \<Rightarrow> 'a list \<Rightarrow> int \<Rightarrow> int \<Rightarrow> bool" where
  "adj_sorted lt d a b \<longleftrightarrow> (\<forall>x. a \<le> x \<and> x + 1 < b \<longrightarrow> \<not> lt (item d (x + 1)) (item d x))"

definition sorted_in :: "('a \<Rightarrow> 'a \<Rightarrow> bool) \<Rightarrow> 'a list \<Rightarrow> int \<Rightarrow> int \<Rightarrow> bool" where
  "sorted_in lt d a b \<longleftrightarrow> (\<forall>x y. a \<le> x \<and> x \<le> y \<and> y < b \<longrightarrow> \<not> lt (item d y) (item d x))"

lemma adj_sorted_imp_sorted_in:
  assumes asym: "\<forall>x y. lt x y \<longrightarrow> \<not> lt y x"
    and ntr: "\<forall>x y z. \<not> lt x y \<longrightarrow> \<not> lt y z \<longrightarrow> \<not> lt x z"
    and adj: "adj_sorted lt d a b"
  shows "sorted_in lt d a b"
  unfolding sorted_in_def
proof (intro allI impI)
  fix x y assume xy: "a \<le> x \<and> x \<le> y \<and> y < b"
  then show "\<not> lt (item d y) (item d x)"
  proof (induction "nat (y - x)" arbitrary: y)
    case 0
    then have "y = x" by simp
    then show ?case using asym by blast
  next
    case (Suc n)
    then have 1: "a \<le> x \<and> x \<le> y - 1 \<and> y - 1 < b" "n = nat (y - 1 - x)" by auto
    from Suc.hyps(1)[OF 1(2) 1(1)] have "\<not> lt (item d (y - 1)) (item d x)" .
    moreover have "\<not> lt (item d y) (item d (y - 1))"
      using adj Suc.prems 1 unfolding adj_sorted_def by (metis diff_add_cancel order.trans)
    ultimately show ?case using ntr by blast
  qed
qed

definition ins_inv :: "('a \<Rightarrow> 'a \<Rightarrow> bool) \<Rightarrow> int \<Rightarrow> int \<Rightarrow> 'a list \<Rightarrow> int \<Rightarrow> bool" where
  "ins_inv lt a i d j \<longleftrightarrow>
     a \<le> j \<and> j \<le> i \<and>
     (\<forall>x. a \<le> x \<and> x + 1 \<le> i \<and> x + 1 \<noteq> j \<longrightarrow> \<not> lt (item d (x + 1)) (item d x)) \<and>
     (a < j \<and> j < i \<longrightarrow> \<not> lt (item d (j + 1)) (item d (j - 1)))"

lemma insert_down_ok:
  assumes asym: "\<forall>x y. lt x y \<longrightarrow> \<not> lt y x" and b: "0 \<le> a" "i < int (length d)"
    and inv: "ins_inv lt a i d j"
  shows "\<exists>d'. insert_down lt d a j = Inr d' \<and> perm_in a (i + 1) d d' \<and> adj_sorted lt d' a (i + 1)"
  using inv b(2)
proof (induction "nat (j - a)" arbitrary: d j rule: less_induct)
  case less
  from less.prems have f: "a \<le> j" "j \<le> i" "i < int (length d)"
      "\<forall>x. a \<le> x \<and> x + 1 \<le> i \<and> x + 1 \<noteq> j \<longrightarrow> \<not> lt (item d (x + 1)) (item d x)"
      "a < j \<and> j < i \<longrightarrow> \<not> lt (item d (j + 1)) (item d (j - 1))"
    by (auto simp: ins_inv_def)
  show ?case
  proof (cases "j > a")
    case False
    have "insert_down lt d a j = Inr d" using False by (subst insert_down.simps) simp
    moreover have "adj_sorted lt d a (i + 1)"
      unfolding adj_sorted_def using f(1,4) False by auto
    ultimately show ?thesis by (auto intro: perm_in_refl)
  next
    case True
    have bj: "inb d j" and bj1: "inb d (j - 1)"
      using f b(1) True by (auto simp: inb_def)
    show ?thesis
    proof (cases "lt (item d j) (item d (j - 1))")
      case False
      have "insert_down lt d a j = Inr d"
        using True False bj bj1 by (subst insert_down.simps) (simp add: Less_ok)
      moreover have "adj_sorted lt d a (i + 1)"
        unfolding adj_sorted_def
      proof (intro allI impI)
        fix x assume x: "a \<le> x \<and> x + 1 < i + 1"
        show "\<not> lt (item d (x + 1)) (item d x)"
        proof (cases "x + 1 = j")
          case True
          then have "x = j - 1" by simp
          then show ?thesis using False by simp
        next
          case False
          then show ?thesis using f(4) x by auto
        qed
      qed
      ultimately show ?thesis by (auto intro: perm_in_refl)
    next
      case c: True
      define d1 where "d1 = swp d j (j - 1)"
      have len1: "length d1 = length d" by (simp add: d1_def)
      have a1: "\<And>x. inb d x \<Longrightarrow>
          item d1 x = (if x = j - 1 then item d j else if x = j then item d (j - 1) else item d x)"
        unfolding d1_def using bj bj1 by (simp add: at_swp)
      have adj1: "\<forall>x. a \<le> x \<and> x + 1 \<le> i \<and> x + 1 \<noteq> j - 1 \<longrightarrow> \<not> lt (item d1 (x + 1)) (item d1 x)"
      proof (intro allI impI)
        fix x assume x: "a \<le> x \<and> x + 1 \<le> i \<and> x + 1 \<noteq> j - 1"
        have bx: "inb d x" "inb d (x + 1)" using x f b(1) by (auto simp: inb_def)
        consider "x + 1 = j" | "x = j" | "x + 1 < j - 1" | "j < x" using x by linarith
        then show "\<not> lt (item d1 (x + 1)) (item d1 x)"
        proof cases
          case 1
          then have "x = j - 1" by simp
          then show ?thesis using a1[OF bx(1)] a1[OF bx(2)] 1 c asym by auto
        next
          case 2
          then show ?thesis using a1[OF bx(1)] a1[OF bx(2)] f(5) x True by auto
        next
          case 3
          then show ?thesis using a1[OF bx(1)] a1[OF bx(2)] f(4) x by auto
        next
          case 4
          then show ?thesis using a1[OF bx(1)] a1[OF bx(2)] f(4) x by auto
        qed
      qed
      have around: "a < j - 1 \<and> j - 1 < i \<longrightarrow> \<not> lt (item d1 (j - 1 + 1)) (item d1 (j - 1 - 1))"
      proof (intro impI)
        assume h: "a < j - 1 \<and> j - 1 < i"
        have bx: "inb d (j - 2)" using h b(1) f by (auto simp: inb_def)
        have "\<not> lt (item d (j - 2 + 1)) (item d (j - 2))"
          using f(4)[rule_format, of "j - 2"] h by auto
        then show "\<not> lt (item d1 (j - 1 + 1)) (item d1 (j - 1 - 1))"
          using a1[OF bx] a1[OF bj] by (simp add: algebra_simps)
      qed
      have inv1: "ins_inv lt a i d1 (j - 1)"
        unfolding ins_inv_def using f(1,2) True adj1 around by auto
      have "nat (j - 1 - a) < nat (j - a)" using True by linarith
      from less.hyps[OF this inv1] f(3) len1 obtain d' where
        r: "insert_down lt d1 a (j - 1) = Inr d'" "perm_in a (i + 1) d1 d'"
           "adj_sorted lt d' a (i + 1)"
        by auto
      have p1: "perm_in a (i + 1) d d1"
        unfolding d1_def using f True bj bj1 by (intro perm_in_swp) auto
      have "insert_down lt d a j = Inr d'"
        using True c bj bj1 r(1)
        by (subst insert_down.simps) (simp add: Less_ok Swap_ok d1_def[symmetric])
      then show ?thesis using r perm_in_trans[OF r(2) p1] by blast
    qed
  qed
qed

lemma insertionSort_loop_ok:
  assumes asym: "\<forall>x y. lt x y \<longrightarrow> \<not> lt y x" and b: "0 \<le> a"
  shows "b \<le> int (length d) \<Longrightarrow> a < i \<Longrightarrow> adj_sorted lt d a i \<Longrightarrow>
    \<exists>d'. insertionSort_loop lt d a b i = Inr d' \<and> perm_in a b d d' \<and> adj_sorted lt d' a b"
proof (induction "nat (b - i)" arbitrary: d i rule: less_induct)
  case less
  show ?case
  proof (cases "i < b")
    case False
    have "insertionSort_loop lt d a b i = Inr d"
      using False by (subst insertionSort_loop.simps) simp
    moreover have "adj_sorted lt d a b"
      using less.prems(3) False unfolding adj_sorted_def by auto
    ultimately show ?thesis by (auto intro: perm_in_refl)
  next
    case True
    have inv: "ins_inv lt a i d i"
      unfolding ins_inv_def using less.prems(2,3) unfolding adj_sorted_def by auto
    have il: "i < int (length d)" using True less.prems(1) by simp
    from insert_down_ok[OF asym b il inv] obtain d1 where
      d1: "insert_down lt d a i = Inr d1" "perm_in a (i + 1) d d1" "adj_sorted lt d1 a (i + 1)"
      by blast
    have len1: "length d1 = length d" using perm_in_length[OF d1(2)] .
    have "nat (b - (i + 1)) < nat (b - i)" using True by linarith
    from less.hyps[OF this _ _ d1(3)] less.prems(1,2) len1 obtain d' where
      r: "insertionSort_loop lt d1 a b (i + 1) = Inr d'" "perm_in a b d1 d'" "adj_sorted lt d' a b"
      by auto
    have "insertionSort_loop lt d a b i = Inr d'"
      using True d1(1) r(1) by (subst insertionSort_loop.simps) simp
    then show ?thesis
      using r perm_in_trans[OF r(2) perm_in_mono[OF d1(2), of a b]] True by auto
  qed
qed

lemma insertionSort_ok:
  assumes asym: "\<forall>x y. lt x y \<longrightarrow> \<not> lt y x" and b: "0 \<le> a" "b \<le> int (length d)"
  shows "\<exists>d'. insertionSort lt d a b = Inr d' \<and> perm_in a b d d' \<and> adj_sorted lt d' a b"
proof -
  have "adj_sorted lt d a (a + 1)" unfolding adj_sorted_def by auto
  from insertionSort_loop_ok[OF asym b(1) b(2) _ this] show ?thesis
    unfolding insertionSort_def by auto
qed

lemma insert_down_budget_sim:
  "insert_down_budget lt d a j n = Inr (d', n', True) \<Longrightarrow> insert_down lt d a j = Inr d'"
proof (induction lt d a j n rule: insert_down_budget.induct)
  case (1 lt d a j budget)
  from "1.prems" show ?case
    apply (subst (asm) insert_down_budget.simps)
    apply (subst insert_down.simps)
    apply (auto split: sum.splits if_splits dest!: "1.IH")
    done
qed

lemma partialInsertionSort_loop_sim:
  "partialInsertionSort_loop lt d a b i n = Inr (d', True) \<Longrightarrow>
   insertionSort_loop lt d a b i = Inr d'"
proof (induction lt d a b i n rule: partialInsertionSort_loop.induct)
  case (1 lt d a b i budget)
  show ?case
  proof (cases "i < b")
    case False
    then show ?thesis
      using "1.prems"
      by (subst insertionSort_loop.simps, subst (asm) partialInsertionSort_loop.simps) simp
  next
    case True
    from "1.prems" True obtain d1 n1 f1 where
      e: "insert_down_budget lt d a i budget = Inr (d1, n1, f1)"
      by (subst (asm) partialInsertionSort_loop.simps) (auto split: sum.splits)
    have f1: f1 and rec: "partialInsertionSort_loop lt d1 a b (i + 1) n1 = Inr (d', True)"
      using "1.prems" True e
      by (subst (asm) partialInsertionSort_loop.simps, simp split: if_splits)+
    have "insertionSort_loop lt d1 a b (i + 1) = Inr d'"
      using "1.IH"[OF True e refl refl f1 rec] .
    moreover have "insert_down lt d a i = Inr d1"
      using e f1 insert_down_budget_sim[of lt d a i budget d1 n1] by simp
    ultimately show ?thesis
      using True by (subst insertionSort_loop.simps) simp
  qed
qed

lemma insert_down_budget_ok:
  "0 \<le> a \<Longrightarrow> j < int (length d) \<Longrightarrow> j < b \<Longrightarrow>
   \<exists>d' n' f. insert_down_budget lt d a j n = Inr (d', n', f) \<and> perm_in a b d d'"
proof (induction "nat (j - a)" arbitrary: d j n rule: less_induct)
  case less
  show ?case
  proof (cases "j > a \<and> lt (item d j) (item d (j - 1)) \<and> n \<noteq> 0")
    case False
    have bj: "j > a \<Longrightarrow> inb d j \<and> inb d (j - 1)"
      using less.prems by (auto simp: inb_def)
    then have "\<exists>n' f. insert_down_budget lt d a j n = Inr (d, n', f)"
      using False by (subst insert_down_budget.simps) (auto simp: Less_ok)
    then show ?thesis by (auto intro: perm_in_refl)
  next
    case True
    have bj: "inb d j" "inb d (j - 1)"
      using less.prems True by (auto simp: inb_def)
    have "nat (j - 1 - a) < nat (j - a)" using True by linarith
    from less.hyps[OF this, of "swp d j (j - 1)" "n - 1"] less.prems True obtain d' n' f where
      r: "insert_down_budget lt (swp d j (j - 1)) a (j - 1) (n - 1) = Inr (d', n', f)"
         "perm_in a b (swp d j (j - 1)) d'"
      by auto
    have p1: "perm_in a b d (swp d j (j - 1))"
      using less.prems True bj by (intro perm_in_swp) auto
    have "insert_down_budget lt d a j n = Inr (d', n', f)"
      using True bj r(1) by (subst insert_down_budget.simps) (simp add: Less_ok Swap_ok)
    then show ?thesis using perm_in_trans[OF r(2) p1] by blast
  qed
qed

lemma partialInsertionSort_loop_ok:
  "0 \<le> a \<Longrightarrow> b \<le> int (length d) \<Longrightarrow>
   \<exists>d' f. partialInsertionSort_loop lt d a b i n = Inr (d', f) \<and> perm_in a b d d'"
proof (induction "nat (b - i)" arbitrary: d i n rule: less_induct)
  case less
  show ?case
  proof (cases "i < b")
    case False
    then show ?thesis
      by (subst partialInsertionSort_loop.simps) (auto intro: perm_in_refl)
  next
    case True
    from insert_down_budget_ok[of a i d b lt n] less.prems True obtain d1 n1 f1 where
      d1: "insert_down_budget lt d a i n = Inr (d1, n1, f1)" "perm_in a b d d1"
      by auto
    have len1: "length d1 = length d" using perm_in_length[OF d1(2)] .
    show ?thesis
    proof (cases f1)
      case False
      have "partialInsertionSort_loop lt d a b i n = Inr (d1, False)"
        using True d1(1) False by (subst partialInsertionSort_loop.simps) simp
      then show ?thesis using d1(2) by blast
    next
      case f: True
      have "nat (b - (i + 1)) < nat (b - i)" using True by linarith
      from less.hyps[OF this, of d1 n1] less.prems len1 obtain d' f' where
        r: "partialInsertionSort_loop lt d1 a b (i + 1) n1 = Inr (d', f')" "perm_in a b d1 d'"
        by auto
      have "partialInsertionSort_loop lt d a b i n = Inr (d', f')"
        using True d1(1) f r(1) by (subst partialInsertionSort_loop.simps) simp
      then show ?thesis using perm_in_trans[OF r(2) d1(2)] by blast
    qed
  qed
qed

lemma partialInsertionSort_ok:
  assumes asym: "\<forall>x y. lt x y \<longrightarrow> \<not> lt y x" and b: "0 \<le> a" "b \<le> int (length d)"
  shows "\<exists>d' f. partialInsertionSort lt d a b = Inr (d', f) \<and> perm_in a b d d' \<and>
           (f \<longrightarrow> adj_sorted lt d' a b)"
proof -
  from partialInsertionSort_loop_ok[OF b, of lt "a + 1" 5] obtain d' f where
    r: "partialInsertionSort_loop lt d a b (a + 1) 5 = Inr (d', f)" "perm_in a b d d'"
    by blast
  have "adj_sorted lt d' a b" if f
  proof -
    have "insertionSort lt d a b = Inr d'"
      unfolding insertionSort_def
      using partialInsertionSort_loop_sim[of lt d a b "a + 1" 5 d'] r(1) that by simp
    then show ?thesis using insertionSort_ok[OF asym b, of ] by auto
  qed
  then show ?thesis using r unfolding partialInsertionSort_def by blast
qed

section \<open>Proofs: the PDQSelect driver\<close>

lemma min_scan_ok:
  assumes asym: "\<forall>x y. lt x y \<longrightarrow> \<not> lt y x"
    and ntr: "\<forall>x y z. \<not> lt x y \<longrightarrow> \<not> lt y z \<longrightarrow> \<not> lt x z"
    and b: "0 \<le> a" "b \<le> int (length d)"
  shows "a \<le> mn \<Longrightarrow> mn < i \<Longrightarrow> i \<le> b \<Longrightarrow>
    (\<forall>x. a \<le> x \<and> x < i \<longrightarrow> \<not> lt (item d x) (item d mn)) \<Longrightarrow>
    \<exists>m. min_scan lt d i b mn = Inr m \<and> a \<le> m \<and> m < b \<and>
        (\<forall>x. a \<le> x \<and> x < b \<longrightarrow> \<not> lt (item d x) (item d m))"
proof (induction "nat (b - i)" arbitrary: i mn rule: less_induct)
  case less
  show ?case
  proof (cases "i < b")
    case False
    then have "i = b" using less.prems by simp
    then show ?thesis using less.prems by (subst min_scan.simps) auto
  next
    case True
    have bi: "inb d i" and bm: "inb d mn" using less.prems True b by (auto simp: inb_def)
    define mn' where "mn' = (if lt (item d i) (item d mn) then i else mn)"
    have m: "a \<le> mn'" "mn' < i + 1" using less.prems by (auto simp: mn'_def)
    have lo: "\<forall>x. a \<le> x \<and> x < i + 1 \<longrightarrow> \<not> lt (item d x) (item d mn')"
    proof (intro allI impI)
      fix x assume x: "a \<le> x \<and> x < i + 1"
      show "\<not> lt (item d x) (item d mn')"
      proof (cases "lt (item d i) (item d mn)")
        case c: True
        then have e: "mn' = i" by (simp add: mn'_def)
        show ?thesis
        proof (cases "x = i")
          case True
          then show ?thesis using e asym by auto
        next
          case False
          then have "\<not> lt (item d x) (item d mn)" using less.prems(4) x by auto
          moreover have "\<not> lt (item d mn) (item d i)" using c asym by blast
          ultimately show ?thesis using ntr e by blast
        qed
      next
        case c: False
        then have e: "mn' = mn" by (simp add: mn'_def)
        show ?thesis using less.prems(4) x c e by (cases "x = i") auto
      qed
    qed
    have "nat (b - (i + 1)) < nat (b - i)" using True by linarith
    from less.hyps[OF this m(1,2) _ lo] True obtain r where
      r: "min_scan lt d (i + 1) b mn' = Inr r" "a \<le> r" "r < b"
         "\<forall>x. a \<le> x \<and> x < b \<longrightarrow> \<not> lt (item d x) (item d r)"
      by auto
    have "min_scan lt d i b mn = Inr r"
      using True bi bm r(1) by (subst min_scan.simps) (simp add: Less_ok mn'_def)
    then show ?thesis using r by blast
  qed
qed

lemma max_scan_ok:
  assumes asym: "\<forall>x y. lt x y \<longrightarrow> \<not> lt y x"
    and ntr: "\<forall>x y z. \<not> lt x y \<longrightarrow> \<not> lt y z \<longrightarrow> \<not> lt x z"
    and b: "0 \<le> a" "b \<le> int (length d)"
  shows "a \<le> mx \<Longrightarrow> mx < i \<Longrightarrow> i \<le> b \<Longrightarrow>
    (\<forall>x. a \<le> x \<and> x < i \<longrightarrow> \<not> lt (item d mx) (item d x)) \<Longrightarrow>
    \<exists>m. max_scan lt d i b mx = Inr m \<and> a \<le> m \<and> m < b \<and>
        (\<forall>x. a \<le> x \<and> x < b \<longrightarrow> \<not> lt (item d m) (item d x))"
proof (induction "nat (b - i)" arbitrary: i mx rule: less_induct)
  case less
  show ?case
  proof (cases "i < b")
    case False
    then have "i = b" using less.prems by simp
    then show ?thesis using less.prems by (subst max_scan.simps) auto
  next
    case True
    have bi: "inb d i" and bm: "inb d mx" using less.prems True b by (auto simp: inb_def)
    define mx' where "mx' = (if lt (item d mx) (item d i) then i else mx)"
    have m: "a \<le> mx'" "mx' < i + 1" using less.prems by (auto simp: mx'_def)
    have lo: "\<forall>x. a \<le> x \<and> x < i + 1 \<longrightarrow> \<not> lt (item d mx') (item d x)"
    proof (intro allI impI)
      fix x assume x: "a \<le> x \<and> x < i + 1"
      show "\<not> lt (item d mx') (item d x)"
      proof (cases "lt (item d mx) (item d i)")
        case c: True
        then have e: "mx' = i" by (simp add: mx'_def)
        show ?thesis
        proof (cases "x = i")
          case True
          then show ?thesis using e asym by auto
        next
          case False
          then have "\<not> lt (item d mx) (item d x)" using less.prems(4) x by auto
          moreover have "\<not> lt (item d i) (item d mx)" using c asym by blast
          ultimately show ?thesis using ntr e by blast
        qed
      next
        case c: False
        then have e: "mx' = mx" by (simp add: mx'_def)
        show ?thesis using less.prems(4) x c e by (cases "x = i") auto
      qed
    qed
    have "nat (b - (i + 1)) < nat (b - i)" using True by linarith
    from less.hyps[OF this m(1,2) _ lo] True obtain r where
      r: "max_scan lt d (i + 1) b mx' = Inr r" "a \<le> r" "r < b"
         "\<forall>x. a \<le> x \<and> x < b \<longrightarrow> \<not> lt (item d r) (item d x)"
      by auto
    have "max_scan lt d i b mx = Inr r"
      using True bi bm r(1) by (subst max_scan.simps) (simp add: Less_ok mx'_def)
    then show ?thesis using r by blast
  qed
qed


definition chooser_ok :: "'a chooser \<Rightarrow> bool" where
  "chooser_ok cp \<longleftrightarrow>
     (\<forall>d a b. 0 \<le> a \<and> a < b \<and> b \<le> int (length d) \<longrightarrow> a \<le> fst (cp d a b) \<and> fst (cp d a b) < b)"

definition above_prev :: "('a \<Rightarrow> 'a \<Rightarrow> bool) \<Rightarrow> 'a list \<Rightarrow> int \<Rightarrow> int \<Rightarrow> bool" where
  "above_prev lt d a b \<longleftrightarrow> a \<le> 0 \<or> (\<forall>x. a \<le> x \<and> x < b \<longrightarrow> lt (item d (a - 1)) (item d x))"

lemma above_prev_perm:
  assumes p: "perm_in a b d d'" and b: "b \<le> int (length d)" "a \<le> b"
    and ap: "above_prev lt d a b"
  shows "above_prev lt d' a b"
proof (cases "a \<le> 0")
  case True
  then show ?thesis by (simp add: above_prev_def)
next
  case False
  then have ba: "inb d (a - 1)" using b by (auto simp: inb_def)
  have e: "item d' (a - 1) = item d (a - 1)" using perm_in_outside[OF p ba] by simp
  have h: "\<forall>x. a \<le> x \<and> x < b \<and> inb d x \<longrightarrow> lt (item d (a - 1)) (item d x)"
    using ap False by (auto simp: above_prev_def)
  have "lt (item d (a - 1)) (item d' x)" if "a \<le> x \<and> x < b" for x
  proof -
    have "inb d x" using that False b by (auto simp: inb_def)
    then show ?thesis using perm_in_range[OF p h, of x] that by simp
  qed
  then show ?thesis by (simp add: above_prev_def e)
qed

lemma sel_from_sorted:
  assumes s: "split_at lt d a" "split_at lt d b" "sorted_in lt d a b"
    and b: "0 \<le> a" "a \<le> k" "k < b" "b \<le> int (length d)"
  shows "sel lt d k"
  unfolding sel_def
proof (intro conjI allI impI)
  fix x assume x: "0 \<le> x \<and> x < k"
  show "\<not> lt (item d k) (item d x)"
  proof (cases "x < a")
    case True
    then show ?thesis using s(1) x b unfolding split_at_def by auto
  next
    case False
    then show ?thesis using s(3) x b unfolding sorted_in_def by auto
  qed
next
  fix x assume x: "k < x \<and> x < int (length d)"
  show "\<not> lt (item d x) (item d k)"
  proof (cases "b \<le> x")
    case True
    then show ?thesis using s(2) x b unfolding split_at_def by auto
  next
    case False
    then show ?thesis using s(3) x b unfolding sorted_in_def by auto
  qed
qed

lemma pdqselect_pivot_ok:
  assumes asym: "\<forall>x y. lt x y \<longrightarrow> \<not> lt y x" and cok: "chooser_ok cp"
    and b: "0 \<le> a" "a < b" "b \<le> int (length d)"
  shows "\<exists>d3 pivot s. pdqselect_pivot lt cp d a b limit wb wp =
            Inr (d3, (if wb then limit else limit - 1), pivot, s) \<and>
          perm_in a b d d3 \<and> a \<le> pivot \<and> pivot < b \<and> (s \<longrightarrow> adj_sorted lt d3 a b)"
proof -
  define S1 where "S1 = (if \<not> wb then
              (case breakPatterns d a b of Inl e \<Rightarrow> Inl e | Inr d1 \<Rightarrow> Inr (d1, limit - 1))
            else Inr (d, limit))"
  have "\<exists>d1. S1 = Inr (d1, (if wb then limit else limit - 1)) \<and> perm_in a b d d1"
    using breakPatterns_ok[OF b] by (cases wb) (auto simp: S1_def intro: perm_in_refl)
  then obtain d1 where d1: "S1 = Inr (d1, (if wb then limit else limit - 1))" "perm_in a b d d1"
    by blast
  have len1: "length d1 = length d" using perm_in_length[OF d1(2)] .
  obtain pivot0 hint0 where cp: "cp d1 a b = (pivot0, hint0)" by (cases "cp d1 a b")
  have p0: "a \<le> pivot0" "pivot0 < b"
    using cok b len1 cp unfolding chooser_ok_def by (metis fst_conv)+
  define S2 where "S2 = (if hint0 = decreasingHint then
              (case reverseRange d1 a b of
                 Inl e \<Rightarrow> Inl e
               | Inr d2 \<Rightarrow> Inr (d2, (b - 1) - (pivot0 - a), increasingHint))
            else Inr (d1, pivot0, hint0))"
  have "\<exists>d2 pivot hint. S2 = Inr (d2, pivot, hint) \<and> perm_in a b d1 d2 \<and> a \<le> pivot \<and> pivot < b"
  proof (cases "hint0 = decreasingHint")
    case True
    from reverseRange_ok[of a b d1] b len1 obtain d2 where
      "reverseRange d1 a b = Inr d2" "perm_in a b d1 d2" by auto
    then show ?thesis using True p0 by (auto simp: S2_def)
  next
    case False
    then show ?thesis using p0 by (auto simp: S2_def intro: perm_in_refl)
  qed
  then obtain d2 pivot hint where
    d2: "S2 = Inr (d2, pivot, hint)" "perm_in a b d1 d2" "a \<le> pivot" "pivot < b"
    by blast
  have len2: "length d2 = length d" using perm_in_length[OF d2(2)] len1 by simp
  define S3 where "S3 = (if wb \<and> wp \<and> hint = increasingHint then
              partialInsertionSort lt d2 a b
            else Inr (d2, False))"
  have "\<exists>d3 s. S3 = Inr (d3, s) \<and> perm_in a b d2 d3 \<and> (s \<longrightarrow> adj_sorted lt d3 a b)"
  proof (cases "wb \<and> wp \<and> hint = increasingHint")
    case True
    from partialInsertionSort_ok[OF asym b(1), of b d2] b len2 show ?thesis
      using True by (auto simp: S3_def)
  next
    case False
    then show ?thesis by (auto simp: S3_def intro: perm_in_refl)
  qed
  then obtain d3 s where
    d3: "S3 = Inr (d3, s)" "perm_in a b d2 d3" "s \<longrightarrow> adj_sorted lt d3 a b"
    by blast
  have "pdqselect_pivot lt cp d a b limit wb wp =
      Inr (d3, (if wb then limit else limit - 1), pivot, s)"
    unfolding pdqselect_pivot_def
    using d1(1) cp d2(1) d3(1)
    by (simp add: S1_def[symmetric] S2_def[symmetric] S3_def[symmetric])
  then show ?thesis
    using perm_in_trans[OF d3(2) perm_in_trans[OF d2(2) d1(2)]] d2(3,4) d3(3) by blast
qed


definition lim_ok :: "int \<Rightarrow> int \<Rightarrow> bool \<Rightarrow> bool \<Rightarrow> bool" where
  "lim_ok len limit wb ab \<longleftrightarrow>
     0 \<le> limit \<and>
     (if wb then len < 2 ^ nat limit
      else 4 * len < 2 ^ nat limit \<and> (\<not> ab \<longrightarrow> 8 * len < 2 ^ nat limit))"

definition pdq_inv ::
  "('a \<Rightarrow> 'a \<Rightarrow> bool) \<Rightarrow> 'a list \<Rightarrow> int \<Rightarrow> int \<Rightarrow> int \<Rightarrow> int \<Rightarrow> bool \<Rightarrow> bool" where
  "pdq_inv lt d a b k limit wb \<longleftrightarrow>
     0 \<le> a \<and> a \<le> k \<and> k < b \<and> b \<le> int (length d) \<and>
     split_at lt d a \<and> split_at lt d b \<and> lim_ok (b - a) limit wb (above_prev lt d a b)"

lemma pow_dec: "1 \<le> limit \<Longrightarrow> (2::int) ^ nat limit = 2 * 2 ^ nat (limit - 1)"
proof -
  assume "1 \<le> limit"
  then have "nat limit = Suc (nat (limit - 1))" by simp
  then show ?thesis by simp
qed

lemma lim_ok_nonzero: "lim_ok len limit wb ab \<Longrightarrow> 1 \<le> len \<Longrightarrow> limit \<noteq> 0"
  by (auto simp: lim_ok_def split: if_splits)

lemma lim_ok_partition:
  assumes l: "lim_ok len limit wb ab" and nz: "limit \<noteq> 0"
    and le: "len' \<le> len" and ub: "\<not> wb' \<longrightarrow> 8 * len' < len"
  shows "lim_ok len' (if wb then limit else limit - 1) wb' ab'"
proof (cases wb)
  case True
  then have "len < 2 ^ nat limit" "0 \<le> limit" using l by (auto simp: lim_ok_def)
  moreover have "(0::int) < 2 ^ nat limit" by simp
  ultimately show ?thesis using True le ub by (auto simp: lim_ok_def)
next
  case False
  then have h: "4 * len < 2 ^ nat limit" "1 \<le> limit" using l nz by (auto simp: lim_ok_def)
  define P :: int where "P = 2 ^ nat (limit - 1)"
  have P: "0 < P" "2 ^ nat limit = 2 * P" using pow_dec[OF h(2)] by (simp_all add: P_def)
  have "2 * len < P" using h(1) P by simp
  then show ?thesis
    using False le ub P(1) h(2) by (auto simp: lim_ok_def P_def[symmetric])
qed

lemma lim_ok_equal:
  assumes l: "lim_ok len limit wb False" and nz: "limit \<noteq> 0" and le: "len' \<le> len"
  shows "lim_ok len' (if wb then limit else limit - 1) wb True"
proof (cases wb)
  case True
  then show ?thesis using l le by (auto simp: lim_ok_def)
next
  case False
  then have h: "8 * len < 2 ^ nat limit" "1 \<le> limit" using l nz by (auto simp: lim_ok_def)
  define P :: int where "P = 2 ^ nat (limit - 1)"
  have P: "0 < P" "2 ^ nat limit = 2 * P" using pow_dec[OF h(2)] by (simp_all add: P_def)
  have "4 * len < P" using h(1) P by simp
  then show ?thesis
    using False le h(2) by (auto simp: lim_ok_def P_def[symmetric])
qed


lemma equal_run_props:
  assumes asym: "\<forall>x y. lt x y \<longrightarrow> \<not> lt y x"
    and ntr: "\<forall>x y z. \<not> lt x y \<longrightarrow> \<not> lt y z \<longrightarrow> \<not> lt x z"
    and b: "0 < a" "a < mid" "mid \<le> b" "b \<le> int (length d)"
    and sa: "split_at lt d a" and sb: "split_at lt d b"
    and prev: "\<not> lt (item d (a - 1)) pv"
    and lo: "\<forall>x. a \<le> x \<and> x < mid \<longrightarrow> \<not> lt pv (item d x)"
    and hi: "\<forall>x. mid \<le> x \<and> x < b \<longrightarrow> lt pv (item d x)"
  shows "a \<le> k \<Longrightarrow> k < mid \<Longrightarrow> sel lt d k"
    and "split_at lt d mid"
    and "above_prev lt d mid b"
proof -
  have ge: "\<not> lt (item d x) pv" if "a \<le> x" "x < b" for x
  proof -
    have "\<not> lt (item d x) (item d (a - 1))"
      using sa that b unfolding split_at_def by auto
    then show ?thesis using prev ntr by blast
  qed
  show "sel lt d k" if k: "a \<le> k" "k < mid"
    unfolding sel_def
  proof (intro conjI allI impI)
    fix x assume x: "0 \<le> x \<and> x < k"
    show "\<not> lt (item d k) (item d x)"
    proof (cases "x < a")
      case True
      then show ?thesis using sa x k b unfolding split_at_def by auto
    next
      case False
      then have "\<not> lt pv (item d x)" using lo x k by auto
      moreover have "\<not> lt (item d k) pv" using ge k b by auto
      ultimately show ?thesis using ntr by blast
    qed
  next
    fix x assume x: "k < x \<and> x < int (length d)"
    show "\<not> lt (item d x) (item d k)"
    proof (cases "b \<le> x")
      case True
      then show ?thesis using sb x k b unfolding split_at_def by auto
    next
      case False
      then have "\<not> lt (item d x) pv" using ge x k by auto
      moreover have "\<not> lt pv (item d k)" using lo k by auto
      ultimately show ?thesis using ntr by blast
    qed
  qed
  show "split_at lt d mid"
    unfolding split_at_def
  proof (intro allI impI)
    fix x y assume xy: "0 \<le> x \<and> x < mid \<and> mid \<le> y \<and> y < int (length d)"
    consider "x < a" | "a \<le> x" "b \<le> y" | "a \<le> x" "y < b" by linarith
    then show "\<not> lt (item d y) (item d x)"
    proof cases
      case 1 then show ?thesis using sa xy b unfolding split_at_def by auto
    next
      case 2 then show ?thesis using sb xy b unfolding split_at_def by auto
    next
      case 3
      have "\<not> lt (item d y) pv" using hi xy 3 asym by blast
      moreover have "\<not> lt pv (item d x)" using lo xy 3 by auto
      ultimately show ?thesis using ntr by blast
    qed
  qed
  show "above_prev lt d mid b"
    unfolding above_prev_def
  proof (intro disjI2 allI impI)
    fix x assume x: "mid \<le> x \<and> x < b"
    have "\<not> lt pv (item d (mid - 1))" using lo b by auto
    moreover have "lt pv (item d x)" using hi x by auto
    ultimately show "lt (item d (mid - 1)) (item d x)" using ntr by blast
  qed
qed

lemma pdqselect_iter_ok:
  assumes asym: "\<forall>x y. lt x y \<longrightarrow> \<not> lt y x"
    and ntr: "\<forall>x y z. \<not> lt x y \<longrightarrow> \<not> lt y z \<longrightarrow> \<not> lt x z"
    and cok: "chooser_ok cp"
    and inv: "pdq_inv lt d a b k limit wb"
  shows "(\<exists>d'. pdqselect_iter lt cp d a b k limit wb wp = Inr (Done d') \<and>
            perm_in a b d d' \<and> sel lt d' k) \<or>
         (\<exists>d' a' b' limit' wb' wp'.
            pdqselect_iter lt cp d a b k limit wb wp = Inr (Again d' a' b' limit' wb' wp') \<and>
            perm_in a b d d' \<and> pdq_inv lt d' a' b' k limit' wb' \<and>
            a \<le> a' \<and> b' \<le> b \<and> b' - a' < b - a)"
proof -
  from inv have f: "0 \<le> a" "a \<le> k" "k < b" "b \<le> int (length d)"
      "split_at lt d a" "split_at lt d b" "lim_ok (b - a) limit wb (above_prev lt d a b)"
    by (auto simp: pdq_inv_def)
  have sorted_done: "sel lt d' k" if "perm_in a b d d'" "adj_sorted lt d' a b" for d'
  proof -
    have len: "length d' = length d" using perm_in_length[OF that(1)] .
    have "split_at lt d' a" "split_at lt d' b"
      using split_at_perm[OF that(1) f(1,4) _ f(5)] split_at_perm[OF that(1) f(1,4) _ f(6)]
      by auto
    moreover have "sorted_in lt d' a b"
      using adj_sorted_imp_sorted_in[OF asym ntr that(2)] .
    ultimately show ?thesis using sel_from_sorted[of lt d' a b k] f len by auto
  qed
  show ?thesis
  proof (cases "b - a \<le> maxInsertion")
    case True
    from insertionSort_ok[OF asym f(1,4)] obtain d' where
      r: "insertionSort lt d a b = Inr d'" "perm_in a b d d'" "adj_sorted lt d' a b"
      by blast
    have "pdqselect_iter lt cp d a b k limit wb wp = Inr (Done d')"
      unfolding pdqselect_iter_def using True r(1) by simp
    then show ?thesis using r(2) sorted_done[OF r(2,3)] by blast
  next
    case False
    then have big: "12 < b - a" by (simp add: maxInsertion_def)
    have nz: "limit \<noteq> 0" using lim_ok_nonzero[OF f(7)] big by simp
    define limit1 where "limit1 = (if wb then limit else limit - 1)"
    from pdqselect_pivot_ok[OF asym cok f(1) _ f(4), where limit=limit and wb=wb and wp=wp] big
    obtain d3 pivot s where
      pv: "pdqselect_pivot lt cp d a b limit wb wp = Inr (d3, limit1, pivot, s)"
          "perm_in a b d d3" "a \<le> pivot" "pivot < b" "s \<longrightarrow> adj_sorted lt d3 a b"
      unfolding limit1_def by auto
    have len3: "length d3 = length d" using perm_in_length[OF pv(2)] .
    have b3: "b \<le> int (length d3)" using f(4) len3 by simp
    have s3: "split_at lt d3 a" "split_at lt d3 b"
      using split_at_perm[OF pv(2) f(1,4) _ f(5)] split_at_perm[OF pv(2) f(1,4) _ f(6)]
      by auto
    show ?thesis
    proof (cases s)
      case True
      have "pdqselect_iter lt cp d a b k limit wb wp = Inr (Done d3)"
        unfolding pdqselect_iter_def using False nz pv(1) True by simp
      then show ?thesis using pv(2) sorted_done[OF pv(2)] pv(5) True by blast
    next
      case ns: False
      define c where "c = lt (item d3 (a - 1)) (item d3 pivot)"
      have bp: "inb d3 pivot" using pv(3,4) f(1) b3 by (auto simp: inb_def)
      have ba: "a > 0 \<Longrightarrow> inb d3 (a - 1)" using big b3 by (auto simp: inb_def)
      have lessc: "(if a > 0 then Less lt d3 (a - 1) pivot else Inr True) =
                   Inr (if a > 0 then c else True)"
        using bp ba by (auto simp: Less_ok c_def)
      show ?thesis
      proof (cases "a > 0 \<and> \<not> c")
        case True
        from partitionEqual_ok[OF asym f(1) pv(3,4) b3] obtain d4 mid where
          pe: "partitionEqual lt d3 a b pivot = Inr (d4, mid)" "a < mid" "mid \<le> b"
              "perm_in a b d3 d4"
              "\<forall>x. a \<le> x \<and> x < mid \<longrightarrow> \<not> lt (item d3 pivot) (item d4 x)"
              "\<forall>x. mid \<le> x \<and> x < b \<longrightarrow> lt (item d3 pivot) (item d4 x)"
          by blast
        have len4: "length d4 = length d" using perm_in_length[OF pe(4)] len3 by simp
        have b4: "b \<le> int (length d4)" using f(4) len4 by simp
        have s4: "split_at lt d4 a" "split_at lt d4 b"
          using split_at_perm[OF pe(4) f(1) b3 _ s3(1)] split_at_perm[OF pe(4) f(1) b3 _ s3(2)]
          by auto
        have p4: "perm_in a b d d4" using perm_in_trans[OF pe(4) pv(2)] .
        have "item d4 (a - 1) = item d3 (a - 1)"
          using perm_in_outside[OF pe(4), of "a - 1"] ba True by auto
        then have prev: "\<not> lt (item d4 (a - 1)) (item d3 pivot)"
          using True by (simp add: c_def)
        have a0: "0 < a" using True by simp
        note er = equal_run_props[OF asym ntr a0 pe(2,3) b4 s4 prev pe(5,6)]
        show ?thesis
        proof (cases "k < mid")
          case km: True
          have "pdqselect_iter lt cp d a b k limit wb wp = Inr (Done d4)"
            unfolding pdqselect_iter_def
            using False nz pv(1) ns lessc True pe(1) km by simp
          then show ?thesis using p4 er(1)[OF f(2) km] by blast
        next
          case km: False
          have res: "pdqselect_iter lt cp d a b k limit wb wp =
                  Inr (Again d4 mid b limit1 wb wp)"
            unfolding pdqselect_iter_def
            using False nz pv(1) ns lessc True pe(1) km by simp
          have nab: "\<not> above_prev lt d a b"
          proof
            assume "above_prev lt d a b"
            from above_prev_perm[OF pv(2) f(4) _ this] f
            have "above_prev lt d3 a b" by auto
            then have "lt (item d3 (a - 1)) (item d3 pivot)"
              using True pv(3,4) by (auto simp: above_prev_def)
            then show False using True by (simp add: c_def)
          qed
          have "lim_ok (b - mid) limit1 wb True"
            unfolding limit1_def
            using lim_ok_equal[of "b - a" limit wb "b - mid"] f(7) nab nz pe(2) by auto
          then have "pdq_inv lt d4 mid b k limit1 wb"
            unfolding pdq_inv_def using er(2,3) s4(2) km f(3) b4 pe(2) a0 by auto
          then show ?thesis using res p4 pe(2) by auto
        qed
      next
        case npe: False
        from partition_range_ok[OF asym f(1) pv(3,4) b3] obtain d4 mid ap where
          pt: "partition_range lt d3 a b pivot = Inr (d4, mid, ap)" "a \<le> mid" "mid < b"
              "perm_in a b d3 d4"
              "\<forall>x. a \<le> x \<and> x < mid \<longrightarrow> \<not> lt (item d4 mid) (item d4 x)"
              "\<forall>x. mid < x \<and> x < b \<longrightarrow> \<not> lt (item d4 x) (item d4 mid)"
          by blast
        have len4: "length d4 = length d" using perm_in_length[OF pt(4)] len3 by simp
        have b4: "b \<le> int (length d4)" using f(4) len4 by simp
        have s4: "split_at lt d4 a" "split_at lt d4 b"
          using split_at_perm[OF pt(4) f(1) b3 _ s3(1)] split_at_perm[OF pt(4) f(1) b3 _ s3(2)]
          by auto
        have p4: "perm_in a b d d4" using perm_in_trans[OF pt(4) pv(2)] .
        have nt: "\<And>x y z. \<not> lt x y \<Longrightarrow> \<not> lt y z \<Longrightarrow> \<not> lt x z" using ntr by blast
        have sm: "split_at lt d4 mid" "split_at lt d4 (mid + 1)"
          using split_at_mid[of lt d4 a b mid, OF nt s4 pt(2,3) f(1) b4 pt(5,6)] by auto
        have bk: "inb d4 k" using f b4 by (auto simp: inb_def)
        consider "k = mid" | "k < mid" | "mid < k" by linarith
        then show ?thesis
        proof cases
          case 1
          have "pdqselect_iter lt cp d a b k limit wb wp = Inr (Done d4)"
            unfolding pdqselect_iter_def
            using False nz pv(1) ns lessc npe pt(1) 1 by simp
          moreover have "sel lt d4 k" using sel_from_split[OF _ _ bk] sm 1 by simp
          ultimately show ?thesis using p4 by blast
        next
          case 2
          define wb' where "wb' = (mid - a \<ge> (b - a) div 8)"
          have res: "pdqselect_iter lt cp d a b k limit wb wp =
                  Inr (Again d4 a mid limit1 wb' ap)"
            unfolding pdqselect_iter_def
            using False nz pv(1) ns lessc npe pt(1) 2 by (simp add: wb'_def Let_def)
          have "\<not> wb' \<longrightarrow> 8 * (mid - a) < b - a" unfolding wb'_def by auto
          then have "lim_ok (mid - a) limit1 wb' (above_prev lt d4 a mid)"
            unfolding limit1_def
            using lim_ok_partition[of "b - a" limit wb "above_prev lt d a b" "mid - a" wb']
              f(7) nz pt(3) by auto
          then have "pdq_inv lt d4 a mid k limit1 wb'"
            unfolding pdq_inv_def using f(1,2) 2 pt(3) b4 s4(1) sm(1) by auto
          then show ?thesis using res p4 pt(3) by auto
        next
          case 3
          define wb' where "wb' = (b - mid \<ge> (b - a) div 8)"
          have res: "pdqselect_iter lt cp d a b k limit wb wp =
                  Inr (Again d4 (mid + 1) b limit1 wb' ap)"
            unfolding pdqselect_iter_def
            using False nz pv(1) ns lessc npe pt(1) 3 by (simp add: wb'_def Let_def)
          have "\<not> wb' \<longrightarrow> 8 * (b - (mid + 1)) < b - a" unfolding wb'_def by auto
          then have "lim_ok (b - (mid + 1)) limit1 wb' (above_prev lt d4 (mid + 1) b)"
            unfolding limit1_def
            using lim_ok_partition[of "b - a" limit wb "above_prev lt d a b" "b - (mid + 1)" wb']
              f(7) nz pt(2) by auto
          then have "pdq_inv lt d4 (mid + 1) b k limit1 wb'"
            unfolding pdq_inv_def using f(1,3) 3 pt(2) b4 s4(2) sm(2) by auto
          then show ?thesis using res p4 pt(2) by auto
        qed
      qed
    qed
  qed
qed


lemma pdqselect_loop_ok:
  assumes asym: "\<forall>x y. lt x y \<longrightarrow> \<not> lt y x"
    and ntr: "\<forall>x y z. \<not> lt x y \<longrightarrow> \<not> lt y z \<longrightarrow> \<not> lt x z"
    and cok: "chooser_ok cp"
  shows "pdq_inv lt d a b k limit wb \<Longrightarrow>
    \<exists>d'. pdqselect_loop lt cp d a b k limit wb wp = Some (Inr d') \<and>
         perm_in a b d d' \<and> sel lt d' k"
proof (induction "nat (b - a)" arbitrary: d a b limit wb wp rule: less_induct)
  case less
  from pdqselect_iter_ok[OF asym ntr cok less.prems, of wp]
  show ?case
  proof (elim disjE exE conjE)
    fix d' assume "pdqselect_iter lt cp d a b k limit wb wp = Inr (Done d')"
      "perm_in a b d d'" "sel lt d' k"
    then show ?thesis by (subst pdqselect_loop.simps) auto
  next
    fix d1 a' b' limit' wb' wp'
    assume r: "pdqselect_iter lt cp d a b k limit wb wp = Inr (Again d1 a' b' limit' wb' wp')"
      "perm_in a b d d1" "pdq_inv lt d1 a' b' k limit' wb'" "a \<le> a'" "b' \<le> b"
      "b' - a' < b - a"
    have "nat (b' - a') < nat (b - a)" using r(3,6) by (auto simp: pdq_inv_def)
    from less.hyps[OF this r(3), of wp'] obtain d' where
      d': "pdqselect_loop lt cp d1 a' b' k limit' wb' wp' = Some (Inr d')"
          "perm_in a' b' d1 d'" "sel lt d' k"
      by blast
    have "pdqselect_loop lt cp d a b k limit wb wp = Some (Inr d')"
      using r(1) d'(1) by (subst pdqselect_loop.simps) simp
    then show ?thesis
      using d'(3) perm_in_trans[OF perm_in_mono[OF d'(2) r(4,5)] r(2)] by blast
  qed
qed

lemma bits_Len_bound: "0 \<le> n \<Longrightarrow> 0 \<le> bits_Len n \<and> n < 2 ^ nat (bits_Len n)"
proof (induction n rule: bits_Len.induct)
  case (1 n)
  show ?case
  proof (cases "n \<le> 0")
    case True
    then show ?thesis using "1.prems" by (subst bits_Len.simps, subst bits_Len.simps) simp
  next
    case False
    then have ih: "0 \<le> bits_Len (n div 2)" "n div 2 < 2 ^ nat (bits_Len (n div 2))"
      using "1.IH" by auto
    have e: "bits_Len n = 1 + bits_Len (n div 2)"
      using False by (subst bits_Len.simps) simp
    have "nat (1 + bits_Len (n div 2)) = Suc (nat (bits_Len (n div 2)))" using ih(1) by simp
    then have "(2::int) ^ nat (bits_Len n) = 2 * 2 ^ nat (bits_Len (n div 2))"
      using e by simp
    then show ?thesis using ih e by linarith
  qed
qed

lemma pdqselect_min_ok:
  assumes asym: "\<forall>x y. lt x y \<longrightarrow> \<not> lt y x"
    and ntr: "\<forall>x y z. \<not> lt x y \<longrightarrow> \<not> lt y z \<longrightarrow> \<not> lt x z"
    and b: "0 \<le> a" "a < b" "b \<le> int (length d)"
  shows "\<exists>mn. min_scan lt d (a + 1) b a = Inr mn \<and> a \<le> mn \<and> mn < b \<and>
           (\<forall>x. a \<le> x \<and> x < b \<longrightarrow> \<not> lt (item d x) (item d mn)) \<and>
           pdqselect lt cp d a b 0 limit = Some (Inr (swp d mn a)) \<and>
           perm_in a b d (swp d mn a) \<and>
           (\<forall>x. a \<le> x \<and> x < b \<longrightarrow> \<not> lt (item (swp d mn a) x) (item (swp d mn a) a))"
proof -
  have irr: "\<And>x. \<not> lt x x" using asym by blast
  have "\<forall>x. a \<le> x \<and> x < a + 1 \<longrightarrow> \<not> lt (item d x) (item d a)" using irr by auto
  from min_scan_ok[OF asym ntr b(1,3) _ _ _ this] b obtain mn where
    m: "min_scan lt d (a + 1) b a = Inr mn" "a \<le> mn" "mn < b"
       "\<forall>x. a \<le> x \<and> x < b \<longrightarrow> \<not> lt (item d x) (item d mn)"
    by auto
  have ba: "inb d a" and bm: "inb d mn" using b m by (auto simp: inb_def)
  have "pdqselect lt cp d a b 0 limit = Some (Inr (swp d mn a))"
    unfolding pdqselect_def using m(1) ba bm by (auto simp: Swap_ok)
  moreover have "perm_in a b d (swp d mn a)"
    using b m ba bm by (intro perm_in_swp) auto
  moreover have "\<forall>x. a \<le> x \<and> x < b \<longrightarrow> \<not> lt (item (swp d mn a) x) (item (swp d mn a) a)"
  proof (intro allI impI)
    fix x assume x: "a \<le> x \<and> x < b"
    then have bx: "inb d x" using b by (auto simp: inb_def)
    have "\<not> lt (item d x) (item d mn)" "\<not> lt (item d a) (item d mn)" "\<not> lt (item d mn) (item d mn)"
      using m(2,3,4) x b irr by auto
    then show "\<not> lt (item (swp d mn a) x) (item (swp d mn a) a)"
      using at_swp[OF bm ba bx] at_swp[OF bm ba ba] by auto
  qed
  ultimately show ?thesis using m by blast
qed

lemma pdqselect_max_ok:
  assumes asym: "\<forall>x y. lt x y \<longrightarrow> \<not> lt y x"
    and ntr: "\<forall>x y z. \<not> lt x y \<longrightarrow> \<not> lt y z \<longrightarrow> \<not> lt x z"
    and b: "0 \<le> a" "a < b" "b \<le> int (length d)" and k: "b - 1 \<noteq> 0"
  shows "\<exists>mx. max_scan lt d (a + 1) b a = Inr mx \<and> a \<le> mx \<and> mx < b \<and>
           (\<forall>x. a \<le> x \<and> x < b \<longrightarrow> \<not> lt (item d mx) (item d x)) \<and>
           pdqselect lt cp d a b (b - 1) limit = Some (Inr (swp d mx (b - 1))) \<and>
           perm_in a b d (swp d mx (b - 1)) \<and>
           (\<forall>x. a \<le> x \<and> x < b \<longrightarrow>
              \<not> lt (item (swp d mx (b - 1)) (b - 1)) (item (swp d mx (b - 1)) x))"
proof -
  have irr: "\<And>x. \<not> lt x x" using asym by blast
  have "\<forall>x. a \<le> x \<and> x < a + 1 \<longrightarrow> \<not> lt (item d a) (item d x)" using irr by auto
  from max_scan_ok[OF asym ntr b(1,3) _ _ _ this] b obtain mx where
    m: "max_scan lt d (a + 1) b a = Inr mx" "a \<le> mx" "mx < b"
       "\<forall>x. a \<le> x \<and> x < b \<longrightarrow> \<not> lt (item d mx) (item d x)"
    by auto
  have bb: "inb d (b - 1)" and bm: "inb d mx" using b m by (auto simp: inb_def)
  have "pdqselect lt cp d a b (b - 1) limit = Some (Inr (swp d mx (b - 1)))"
    unfolding pdqselect_def using m(1) bb bm k by (auto simp: Swap_ok)
  moreover have "perm_in a b d (swp d mx (b - 1))"
    using b m bb bm by (intro perm_in_swp) auto
  moreover have "\<forall>x. a \<le> x \<and> x < b \<longrightarrow>
      \<not> lt (item (swp d mx (b - 1)) (b - 1)) (item (swp d mx (b - 1)) x)"
  proof (intro allI impI)
    fix x assume x: "a \<le> x \<and> x < b"
    then have bx: "inb d x" using b by (auto simp: inb_def)
    have "\<not> lt (item d mx) (item d x)" "\<not> lt (item d mx) (item d (b - 1))" "\<not> lt (item d mx) (item d mx)"
      using m(2,3,4) x b irr by auto
    then show "\<not> lt (item (swp d mx (b - 1)) (b - 1)) (item (swp d mx (b - 1)) x)"
      using at_swp[OF bm bb bx] at_swp[OF bm bb bb] by auto
  qed
  ultimately show ?thesis using m by blast
qed

lemma PDQSelect_ok:
  assumes asym: "\<forall>x y. lt x y \<longrightarrow> \<not> lt y x"
    and ntr: "\<forall>x y z. \<not> lt x y \<longrightarrow> \<not> lt y z \<longrightarrow> \<not> lt x z"
    and cok: "chooser_ok cp"
    and k: "1 \<le> k" "k \<le> int (length d)"
  shows "\<exists>d'. PDQSelect lt cp d k = Some (Inr d') \<and> perm_in 0 (int (length d)) d d' \<and>
           sel lt d' (k - 1)"
proof -
  define n where "n = int (length d)"
  have e: "PDQSelect lt cp d k = pdqselect lt cp d 0 n (k - 1) (bits_Len n)"
    unfolding PDQSelect_def n_def using k by (simp add: Let_def)
  have n: "0 < n" "n \<le> int (length d)" using k by (auto simp: n_def)
  consider "k - 1 = 0" | "k - 1 \<noteq> 0" "k - 1 = n - 1" | "k - 1 \<noteq> 0" "k - 1 \<noteq> n - 1" by blast
  then show ?thesis
  proof cases
    case 1
    from pdqselect_min_ok[OF asym ntr _ n, of cp "bits_Len n"] obtain d' where
      r: "pdqselect lt cp d 0 n 0 (bits_Len n) = Some (Inr d')" "perm_in 0 n d d'"
         "\<forall>x. 0 \<le> x \<and> x < n \<longrightarrow> \<not> lt (item d' x) (item d' 0)"
      by auto
    have "length d' = length d" using perm_in_length[OF r(2)] .
    then have "sel lt d' 0" using r(3) by (auto simp: sel_def n_def)
    then show ?thesis using e r 1 by (auto simp: n_def)
  next
    case 2
    then have "n - 1 \<noteq> 0" by simp
    from pdqselect_max_ok[OF asym ntr _ n this, of cp "bits_Len n"] obtain d' where
      r: "pdqselect lt cp d 0 n (n - 1) (bits_Len n) = Some (Inr d')" "perm_in 0 n d d'"
         "\<forall>x. 0 \<le> x \<and> x < n \<longrightarrow> \<not> lt (item d' (n - 1)) (item d' x)"
      by auto
    have "length d' = length d" using perm_in_length[OF r(2)] .
    then have "sel lt d' (n - 1)" using r(3) by (auto simp: sel_def n_def)
    then show ?thesis using e r 2 by (auto simp: n_def)
  next
    case 3
    have "split_at lt d 0" "split_at lt d n" by (auto simp: split_at_def n_def)
    moreover have "lim_ok (n - 0) (bits_Len n) True (above_prev lt d 0 n)"
      using bits_Len_bound[of n] n by (simp add: lim_ok_def)
    ultimately have inv: "pdq_inv lt d 0 n (k - 1) (bits_Len n) True"
      unfolding pdq_inv_def using k by (auto simp: n_def)
    from pdqselect_loop_ok[OF asym ntr cok inv, of True] obtain d' where
      "pdqselect_loop lt cp d 0 n (k - 1) (bits_Len n) True True = Some (Inr d')"
      "perm_in 0 n d d'" "sel lt d' (k - 1)"
      by blast
    then show ?thesis using e 3 by (auto simp: pdqselect_def n_def)
  qed
qed

lemma FloydRivest_ok:
  assumes asym: "\<forall>x y. lt x y \<longrightarrow> \<not> lt y x"
    and ntr: "\<forall>x y z. \<not> lt x y \<longrightarrow> \<not> lt y z \<longrightarrow> \<not> lt x z"
    and nok: "narrowing_ok est"
    and k: "1 \<le> k" "k \<le> int (length d)"
  shows "\<exists>d'. FloydRivest lt est d k = Some (Inr d') \<and> perm_in 0 (int (length d)) d d' \<and>
           sel lt d' (k - 1)"
proof -
  define n where "n = int (length d)"
  have e: "FloydRivest lt est d k = floydRivest lt est d 0 (n - 1) (k - 1)"
    unfolding FloydRivest_def n_def using k by (simp add: Let_def)
  have "split_at lt d 0" "split_at lt d (n - 1 + 1)" by (auto simp: split_at_def n_def)
  moreover from floydRivest_ok[OF asym nok, of 0 "n - 1" d "k - 1"] k obtain d' where
    "floydRivest lt est d 0 (n - 1) (k - 1) = Some (Inr d')" "perm_in 0 (n - 1 + 1) d d'"
    "(\<forall>x y z. \<not> lt x y \<longrightarrow> \<not> lt y z \<longrightarrow> \<not> lt x z) \<longrightarrow>
       split_at lt d 0 \<longrightarrow> split_at lt d (n - 1 + 1) \<longrightarrow> sel lt d' (k - 1)"
    by (auto simp: n_def)
  ultimately show ?thesis using e ntr by (auto simp: n_def)
qed

section \<open>Proofs: heapSelect\<close>

definition is_child :: "int \<Rightarrow> int \<Rightarrow> bool" where
  "is_child c i \<longleftrightarrow> c = 2 * i + 1 \<or> c = 2 * i + 2"

definition heap_from :: "('a \<Rightarrow> 'a \<Rightarrow> bool) \<Rightarrow> 'a list \<Rightarrow> int \<Rightarrow> int \<Rightarrow> int \<Rightarrow> bool" where
  "heap_from lt d first hi s \<longleftrightarrow>
     (\<forall>i c. s \<le> i \<and> is_child c i \<and> c < hi \<longrightarrow> \<not> lt (item d (first + i)) (item d (first + c)))"

definition sift_inv ::
  "('a \<Rightarrow> 'a \<Rightarrow> bool) \<Rightarrow> 'a list \<Rightarrow> int \<Rightarrow> int \<Rightarrow> int \<Rightarrow> int \<Rightarrow> bool" where
  "sift_inv lt d first hi r0 rt \<longleftrightarrow>
     0 \<le> r0 \<and> r0 \<le> rt \<and>
     (\<forall>i c. r0 \<le> i \<and> i \<noteq> rt \<and> is_child c i \<and> c < hi \<longrightarrow>
        \<not> lt (item d (first + i)) (item d (first + c))) \<and>
     (\<forall>p c. r0 \<le> p \<and> is_child rt p \<and> is_child c rt \<and> c < hi \<longrightarrow>
        \<not> lt (item d (first + p)) (item d (first + c)))"

lemma siftDown_ok:
  assumes asym: "\<forall>x y. lt x y \<longrightarrow> \<not> lt y x"
    and ntr: "\<forall>x y z. \<not> lt x y \<longrightarrow> \<not> lt y z \<longrightarrow> \<not> lt x z"
    and b: "0 \<le> first" "0 \<le> r0"
  shows "first + hi \<le> int (length d) \<Longrightarrow> sift_inv lt d first hi r0 (int rt) \<Longrightarrow>
    \<exists>d'. siftDown lt d rt hi first = Inr d' \<and>
         perm_in (first + r0) (first + hi) d d' \<and> heap_from lt d' first hi r0"
proof (induction "nat (hi - int rt)" arbitrary: d rt rule: less_induct)
  case less
  note len = less.prems(1) and inv = less.prems(2)
  define r where "r = int rt"
  define child where "child = 2 * r + 1"
  from inv have f: "r0 \<le> r"
      "\<forall>i c. r0 \<le> i \<and> i \<noteq> r \<and> is_child c i \<and> c < hi \<longrightarrow>
         \<not> lt (item d (first + i)) (item d (first + c))"
      "\<forall>p c. r0 \<le> p \<and> is_child r p \<and> is_child c r \<and> c < hi \<longrightarrow>
         \<not> lt (item d (first + p)) (item d (first + c))"
    by (auto simp: sift_inv_def r_def)
  have r0: "0 \<le> r" by (simp add: r_def)
  show ?case
  proof (cases "child \<ge> hi")
    case True
    have "siftDown lt d rt hi first = Inr d"
      using True by (subst siftDown.simps) (simp add: child_def r_def Let_def)
    moreover have "heap_from lt d first hi r0"
      unfolding heap_from_def
    proof (intro allI impI)
      fix i c assume h: "r0 \<le> i \<and> is_child c i \<and> c < hi"
      show "\<not> lt (item d (first + i)) (item d (first + c))"
      proof (cases "i = r")
        case True
        then have "child \<le> c" using h by (auto simp: is_child_def child_def)
        then show ?thesis using h \<open>child \<ge> hi\<close> by simp
      next
        case False
        then show ?thesis using f(2) h by blast
      qed
    qed
    ultimately show ?thesis by (auto intro: perm_in_refl)
  next
    case False
    then have ch: "child < hi" by simp
    have bc: "inb d (first + child)" "inb d (first + r)"
      using ch r0 b len by (auto simp: inb_def child_def)
    have bc1: "child + 1 < hi \<Longrightarrow> inb d (first + child + 1)"
      using r0 b len by (auto simp: inb_def child_def)
    define c where "c = (child + 1 < hi \<and> lt (item d (first + child)) (item d (first + child + 1)))"
    have lessc: "(if child + 1 < hi then Less lt d (first + child) (first + child + 1) else Inr False)
        = Inr c"
      using bc bc1 by (auto simp: Less_ok c_def)
    define child' where "child' = (if c then child + 1 else child)"
    have c': "is_child child' r" "child' < hi" "r < child'" "child \<le> child'" "child' \<le> child + 1"
      using ch r0 by (auto simp: child'_def c_def is_child_def child_def)
    have bc': "inb d (first + child')"
      using bc bc1 by (auto simp: child'_def c_def add.assoc)
    have big: "\<forall>x. is_child x r \<and> x < hi \<longrightarrow> \<not> lt (item d (first + child')) (item d (first + x))"
    proof (intro allI impI)
      fix x assume x: "is_child x r \<and> x < hi"
      then consider "x = child" | "x = child + 1" "child + 1 < hi"
        by (auto simp: is_child_def child_def)
      then show "\<not> lt (item d (first + child')) (item d (first + x))"
      proof cases
        case 1
        then show ?thesis using asym by (auto simp: child'_def c_def add.assoc)
      next
        case 2
        then show ?thesis using asym by (auto simp: child'_def c_def add.assoc)
      qed
    qed
    show ?thesis
    proof (cases "lt (item d (first + r)) (item d (first + child'))")
      case nl: False
      have "siftDown lt d rt hi first = Inr d"
        using ch lessc nl bc bc'
        by (subst siftDown.simps)
           (simp add: child_def[symmetric] r_def[symmetric] Let_def child'_def[symmetric] Less_ok)
      moreover have "heap_from lt d first hi r0"
        unfolding heap_from_def
      proof (intro allI impI)
        fix i x assume h: "r0 \<le> i \<and> is_child x i \<and> x < hi"
        show "\<not> lt (item d (first + i)) (item d (first + x))"
        proof (cases "i = r")
          case True
          then have "\<not> lt (item d (first + child')) (item d (first + x))" using big h by auto
          then show ?thesis using nl ntr True by blast
        next
          case False
          then show ?thesis using f(2) h by blast
        qed
      qed
      ultimately show ?thesis by (auto intro: perm_in_refl)
    next
      case l: True
      define d1 where "d1 = swp d (first + r) (first + child')"
      have len1: "length d1 = length d" by (simp add: d1_def)
      have a1: "\<And>x. inb d x \<Longrightarrow> item d1 x =
          (if x = first + child' then item d (first + r)
           else if x = first + r then item d (first + child') else item d x)"
        unfolding d1_def using bc(2) bc' by (simp add: at_swp)
      have ib: "\<And>x. 0 \<le> x \<Longrightarrow> x < hi \<Longrightarrow> inb d (first + x)"
        using b len by (auto simp: inb_def)
      have inv1: "sift_inv lt d1 first hi r0 (int (nat child'))"
        unfolding sift_inv_def
      proof (intro conjI allI impI)
        show "0 \<le> r0" using b by simp
        show "r0 \<le> int (nat child')" using f(1) c'(3) by simp
      next
        fix i x assume h: "r0 \<le> i \<and> i \<noteq> int (nat child') \<and> is_child x i \<and> x < hi"
        then have i0: "0 \<le> i" "i < x" "i < hi" "0 \<le> x" "i \<noteq> child'"
          using b c'(3) r0 by (auto simp: is_child_def)
        have e: "item d1 (first + i) = (if i = r then item d (first + child') else item d (first + i))"
          "item d1 (first + x) = (if x = child' then item d (first + r)
              else if x = r then item d (first + child') else item d (first + x))"
          using a1[OF ib[OF i0(1,3)]] a1[OF ib[OF i0(4)]] h i0(5) by auto
        show "\<not> lt (item d1 (first + i)) (item d1 (first + x))"
        proof (cases "i = r")
          case True
          then have "x = child' \<or> (x \<noteq> child' \<and> x \<noteq> r)" using h i0 by auto
          then show ?thesis
          proof
            assume "x = child'"
            then show ?thesis using e True l asym by auto
          next
            assume "x \<noteq> child' \<and> x \<noteq> r"
            then show ?thesis using e True big h by auto
          qed
        next
          case nr: False
          show ?thesis
          proof (cases "x = r")
            case True
            then have "\<not> lt (item d (first + i)) (item d (first + child'))"
              using f(3) h c'(1,2) by blast
            then show ?thesis using e nr True c'(3) by auto
          next
            case False
            have "x \<noteq> child'"
            proof
              assume "x = child'"
              then have "i = r" using h c'(1) by (auto simp: is_child_def)
              then show False using nr by simp
            qed
            then show ?thesis using e nr False f(2) h by auto
          qed
        qed
      next
        fix p x assume h: "r0 \<le> p \<and> is_child (int (nat child')) p \<and>
            is_child x (int (nat child')) \<and> x < hi"
        then have cc: "is_child child' p" "is_child x child'" using c'(3) r0 by auto
        then have pr: "p = r" using c'(1) by (auto simp: is_child_def)
        have x0: "0 \<le> x" "x \<noteq> r" "x \<noteq> child'" "child' < x"
          using cc(2) c'(3) r0 by (auto simp: is_child_def)
        have "\<not> lt (item d (first + child')) (item d (first + x))"
          using f(2) cc(2) h c'(3) f(1) by (metis less_le_not_le order.trans)
        moreover have "item d1 (first + r) = item d (first + child')"
          using a1[OF bc(2)] c'(3) by auto
        moreover have "item d1 (first + x) = item d (first + x)"
          using a1[OF ib[OF x0(1)]] h x0 by auto
        ultimately show "\<not> lt (item d1 (first + p)) (item d1 (first + x))"
          using pr by simp
      qed
      have "nat (hi - int (nat child')) < nat (hi - int rt)"
        using c'(2,3) r0 by (simp add: r_def)
      from less.hyps[OF this _ inv1] len len1 obtain d' where
        r: "siftDown lt d1 (nat child') hi first = Inr d'"
           "perm_in (first + r0) (first + hi) d1 d'" "heap_from lt d' first hi r0"
        by auto
      have p1: "perm_in (first + r0) (first + hi) d d1"
        unfolding d1_def using f(1) c'(2,3) ch bc(2) bc' r0
        by (intro perm_in_swp) (auto simp: child_def)
      have "siftDown lt d rt hi first = Inr d'"
        using ch lessc l bc bc' r(1)
        by (subst siftDown.simps)
           (simp add: child_def[symmetric] r_def[symmetric] Let_def child'_def[symmetric]
              Less_ok Swap_ok d1_def[symmetric])
      then show ?thesis using r perm_in_trans[OF r(2) p1] by blast
    qed
  qed
qed


lemma heapSelect_build_ok:
  assumes asym: "\<forall>x y. lt x y \<longrightarrow> \<not> lt y x"
    and ntr: "\<forall>x y z. \<not> lt x y \<longrightarrow> \<not> lt y z \<longrightarrow> \<not> lt x z"
    and b: "0 \<le> first"
  shows "first + hi \<le> int (length d) \<Longrightarrow> - 1 \<le> i \<Longrightarrow> heap_from lt d first hi (i + 1) \<Longrightarrow>
    \<exists>d'. heapSelect_build lt d i hi first = Inr d' \<and>
         perm_in first (first + hi) d d' \<and> heap_from lt d' first hi 0"
proof (induction "nat (i + 1)" arbitrary: d i rule: less_induct)
  case less
  show ?case
  proof (cases "i \<ge> 0")
    case False
    then have "i + 1 = 0" using less.prems(2) by simp
    then show ?thesis
      using False less.prems(3) by (subst heapSelect_build.simps) (auto intro: perm_in_refl)
  next
    case True
    have inv: "sift_inv lt d first hi i (int (nat i))"
      unfolding sift_inv_def using True less.prems(3)
      by (auto simp: heap_from_def is_child_def)
    from siftDown_ok[OF asym ntr b True less.prems(1) inv] obtain d1 where
      d1: "siftDown lt d (nat i) hi first = Inr d1" "perm_in (first + i) (first + hi) d d1"
          "heap_from lt d1 first hi i"
      by blast
    have len1: "length d1 = length d" using perm_in_length[OF d1(2)] .
    have "nat (i - 1 + 1) < nat (i + 1)" using True by simp
    from less.hyps[OF this, of d1] less.prems(1) len1 True d1(3) obtain d' where
      r: "heapSelect_build lt d1 (i - 1) hi first = Inr d'" "perm_in first (first + hi) d1 d'"
         "heap_from lt d' first hi 0"
      by auto
    have "heapSelect_build lt d i hi first = Inr d'"
      using True d1(1) r(1) by (subst heapSelect_build.simps) simp
    moreover have "perm_in first (first + hi) d d1"
      using perm_in_mono[OF d1(2), of first "first + hi"] True by simp
    ultimately show ?thesis using r perm_in_trans[OF r(2)] by blast
  qed
qed

lemma heap_max:
  assumes asym: "\<forall>x y. lt x y \<longrightarrow> \<not> lt y x"
    and ntr: "\<forall>x y z. \<not> lt x y \<longrightarrow> \<not> lt y z \<longrightarrow> \<not> lt x z"
    and h: "heap_from lt d first hi 0"
  shows "0 \<le> c \<Longrightarrow> c < hi \<Longrightarrow> \<not> lt (item d first) (item d (first + c))"
proof (induction "nat c" arbitrary: c rule: less_induct)
  case less
  show ?case
  proof (cases "c = 0")
    case True
    then show ?thesis using asym by auto
  next
    case False
    define p where "p = (c - 1) div 2"
    have p: "0 \<le> p" "p < c" "is_child c p"
      using False less.prems by (auto simp: p_def is_child_def)
    have "\<not> lt (item d (first + p)) (item d (first + c))"
      using h p less.prems unfolding heap_from_def by blast
    moreover have "\<not> lt (item d first) (item d (first + p))"
      using less.hyps[of p] p less.prems by simp
    ultimately show ?thesis using ntr by blast
  qed
qed

lemma heapSelect_scan_ok:
  assumes asym: "\<forall>x y. lt x y \<longrightarrow> \<not> lt y x"
    and ntr: "\<forall>x y z. \<not> lt x y \<longrightarrow> \<not> lt y z \<longrightarrow> \<not> lt x z"
    and b: "0 \<le> a" "0 < hi"
  shows "a + n \<le> int (length d) \<Longrightarrow> hi \<le> i \<Longrightarrow> i \<le> n \<Longrightarrow> heap_from lt d a hi 0 \<Longrightarrow>
    (\<forall>x. hi \<le> x \<and> x < i \<longrightarrow> \<not> lt (item d (a + x)) (item d a)) \<Longrightarrow>
    \<exists>d'. heapSelect_scan lt d i n hi a = Inr d' \<and> perm_in a (a + n) d d' \<and>
         heap_from lt d' a hi 0 \<and> (\<forall>x. hi \<le> x \<and> x < n \<longrightarrow> \<not> lt (item d' (a + x)) (item d' a))"
proof (induction "nat (n - i)" arbitrary: d i rule: less_induct)
  case less
  note len = less.prems(1) and hp = less.prems(4) and dn = less.prems(5)
  show ?case
  proof (cases "i < n")
    case False
    then have "i = n" using less.prems(3) by simp
    then show ?thesis
      using hp dn by (subst heapSelect_scan.simps) (auto intro: perm_in_refl)
  next
    case True
    have bi: "inb d (a + i)" and ba: "inb d a"
      using True less.prems(2) b len by (auto simp: inb_def)
    have m: "nat (n - (i + 1)) < nat (n - i)" using True by simp
    show ?thesis
    proof (cases "lt (item d (a + i)) (item d a)")
      case False
      have dn': "\<forall>x. hi \<le> x \<and> x < i + 1 \<longrightarrow> \<not> lt (item d (a + x)) (item d a)"
      proof (intro allI impI)
        fix x assume "hi \<le> x \<and> x < i + 1"
        then have "x = i \<or> (hi \<le> x \<and> x < i)" by auto
        then show "\<not> lt (item d (a + x)) (item d a)" using False dn by auto
      qed
      from less.hyps[OF m len _ _ hp dn'] less.prems(2) True obtain d' where
        r: "heapSelect_scan lt d (i + 1) n hi a = Inr d'" "perm_in a (a + n) d d'"
           "heap_from lt d' a hi 0" "\<forall>x. hi \<le> x \<and> x < n \<longrightarrow> \<not> lt (item d' (a + x)) (item d' a)"
        by auto
      have "heapSelect_scan lt d i n hi a = Inr d'"
        using True False bi ba r(1) by (subst heapSelect_scan.simps) (simp add: Less_ok)
      then show ?thesis using r by blast
    next
      case c: True
      define R where "R = item d a"
      define d1 where "d1 = swp d a (a + i)"
      have len1: "length d1 = length d" by (simp add: d1_def)
      have a1: "\<And>x. inb d x \<Longrightarrow>
          item d1 x = (if x = a + i then item d a else if x = a then item d (a + i) else item d x)"
        unfolding d1_def using ba bi by (simp add: at_swp)
      have ib: "\<And>x. 0 \<le> x \<Longrightarrow> x < n \<Longrightarrow> inb d (a + x)"
        using b len by (auto simp: inb_def)
      have hle: "\<And>x. 0 \<le> x \<Longrightarrow> x < hi \<Longrightarrow> \<not> lt R (item d (a + x))"
        unfolding R_def using heap_max[OF asym ntr hp] by blast
      have inv1: "sift_inv lt d1 a hi 0 (int 0)"
        unfolding sift_inv_def
      proof (intro conjI allI impI)
        fix j x assume h: "0 \<le> j \<and> j \<noteq> int 0 \<and> is_child x j \<and> x < hi"
        then have jx: "0 < j" "j < x" "j < n" "x < n" "0 \<le> x" "x \<noteq> i" "j \<noteq> i"
          using less.prems(2) True by (auto simp: is_child_def)
        have "item d1 (a + j) = item d (a + j)" "item d1 (a + x) = item d (a + x)"
          using a1[OF ib, of j] a1[OF ib, of x] jx by auto
        then show "\<not> lt (item d1 (a + j)) (item d1 (a + x))"
          using hp h unfolding heap_from_def by auto
      next
        fix p x assume h: "0 \<le> p \<and> is_child (int 0) p \<and> is_child x (int 0) \<and> x < hi"
        then have "is_child 0 p" by simp
        then have "0 = 2 * p + 1 \<or> 0 = 2 * p + 2" by (simp only: is_child_def)
        moreover have "0 \<le> p" using h by simp
        ultimately have False by presburger
        then show "\<not> lt (item d1 (a + p)) (item d1 (a + x))" ..
      qed simp_all
      have l1: "a + hi \<le> int (length d1)" using len len1 less.prems(2,3) by simp
      from siftDown_ok[OF asym ntr b(1) _ l1 inv1] obtain d2 where
        d2: "siftDown lt d1 0 hi a = Inr d2" "perm_in (a + 0) (a + hi) d1 d2"
            "heap_from lt d2 a hi 0"
        by auto
      have len2: "length d2 = length d" using perm_in_length[OF d2(2)] len1 by simp
      have p2: "perm_in a (a + hi) d1 d2" using d2(2) by simp
      have le1: "\<forall>x. a \<le> x \<and> x < a + hi \<and> inb d1 x \<longrightarrow> \<not> lt R (item d1 x)"
      proof (intro allI impI)
        fix x assume x: "a \<le> x \<and> x < a + hi \<and> inb d1 x"
        have bx: "inb d x" using x by (simp add: d1_def)
        show "\<not> lt R (item d1 x)"
        proof (cases "x = a")
          case True
          then show ?thesis using a1[OF ba] c asym by (auto simp: R_def)
        next
          case False
          have "\<not> lt R (item d (a + (x - a)))" using hle[of "x - a"] x by auto
          then show ?thesis using a1[OF bx] False x less.prems(2) by auto
        qed
      qed
      have root2: "\<not> lt R (item d2 a)"
        using perm_in_range[OF p2 le1, of a] b ba by (simp add: d1_def)
      have dn2: "\<forall>x. hi \<le> x \<and> x < i + 1 \<longrightarrow> \<not> lt (item d2 (a + x)) (item d2 a)"
      proof (intro allI impI)
        fix x assume x: "hi \<le> x \<and> x < i + 1"
        have bx: "inb d (a + x)" using ib[of x] x b True by auto
        have e2: "item d2 (a + x) = item d1 (a + x)"
          using perm_in_outside[OF p2, of "a + x"] bx x by (simp add: d1_def)
        have "\<not> lt (item d1 (a + x)) R"
        proof (cases "x = i")
          case True
          then show ?thesis using a1[OF bx] asym by (auto simp: R_def)
        next
          case False
          then have "\<not> lt (item d (a + x)) (item d a)" using dn x by auto
          then show ?thesis using a1[OF bx] False x b by (auto simp: R_def)
        qed
        then show "\<not> lt (item d2 (a + x)) (item d2 a)" using e2 root2 ntr by metis
      qed
      from less.hyps[OF m _ _ _ d2(3) dn2] len len2 less.prems(2) True obtain d' where
        r: "heapSelect_scan lt d2 (i + 1) n hi a = Inr d'" "perm_in a (a + n) d2 d'"
           "heap_from lt d' a hi 0" "\<forall>x. hi \<le> x \<and> x < n \<longrightarrow> \<not> lt (item d' (a + x)) (item d' a)"
        by auto
      have p1: "perm_in a (a + n) d d1"
        unfolding d1_def using b True less.prems(2) ba bi by (intro perm_in_swp) auto
      have p2': "perm_in a (a + n) d1 d2"
        using perm_in_mono[OF p2, of a "a + n"] less.prems(2,3) by simp
      have "heapSelect_scan lt d i n hi a = Inr d'"
        using True c bi ba d2(1) r(1)
        by (subst heapSelect_scan.simps) (simp add: Less_ok Swap_ok d1_def[symmetric])
      then show ?thesis
        using r perm_in_trans[OF r(2) perm_in_trans[OF p2' p1]] by blast
    qed
  qed
qed

lemma heapSelect_ok:
  assumes asym: "\<forall>x y. lt x y \<longrightarrow> \<not> lt y x"
    and ntr: "\<forall>x y z. \<not> lt x y \<longrightarrow> \<not> lt y z \<longrightarrow> \<not> lt x z"
    and b: "0 \<le> a" "0 \<le> k" "a + k < b" "b \<le> int (length d)"
  shows "\<exists>d'. heapSelect lt d a b k = Inr d' \<and> perm_in a b d d' \<and>
           (\<forall>x. a \<le> x \<and> x < a + k \<longrightarrow> \<not> lt (item d' (a + k)) (item d' x)) \<and>
           (\<forall>x. a + k < x \<and> x < b \<longrightarrow> \<not> lt (item d' x) (item d' (a + k)))"
proof -
  define n where "n = b - a"
  define hi where "hi = k + 1"
  have q: "quot k 2 = k div 2" using b by (simp add: quot_def)
  have l: "a + hi \<le> int (length d)" "a + n \<le> int (length d)" "0 < hi" "hi \<le> n"
    using b by (auto simp: n_def hi_def)
  have h0: "heap_from lt d a hi (k div 2 + 1)"
    unfolding heap_from_def hi_def is_child_def by auto
  have kd: "- 1 \<le> k div 2" using b by simp
  from heapSelect_build_ok[OF asym ntr b(1) l(1) kd h0] obtain d1 where
    d1: "heapSelect_build lt d (k div 2) hi a = Inr d1" "perm_in a (a + hi) d d1"
        "heap_from lt d1 a hi 0"
    by auto
  have len1: "length d1 = length d" using perm_in_length[OF d1(2)] .
  have "\<forall>x. hi \<le> x \<and> x < hi \<longrightarrow> \<not> lt (item d1 (a + x)) (item d1 a)" by auto
  from heapSelect_scan_ok[OF asym ntr b(1) l(3) _ _ l(4) d1(3) this] l(2) len1 obtain d2 where
    d2: "heapSelect_scan lt d1 hi n hi a = Inr d2" "perm_in a (a + n) d1 d2"
        "heap_from lt d2 a hi 0" "\<forall>x. hi \<le> x \<and> x < n \<longrightarrow> \<not> lt (item d2 (a + x)) (item d2 a)"
    by auto
  have len2: "length d2 = length d" using perm_in_length[OF d2(2)] len1 by simp
  have ba: "inb d2 a" and bk: "inb d2 (a + k)" using b len2 by (auto simp: inb_def)
  define d3 where "d3 = swp d2 a (a + k)"
  have a3: "\<And>x. inb d2 x \<Longrightarrow>
      item d3 x = (if x = a + k then item d2 a else if x = a then item d2 (a + k) else item d2 x)"
    unfolding d3_def using ba bk by (simp add: at_swp)
  have res: "heapSelect lt d a b k = Inr d3"
    unfolding heapSelect_def Let_def
    using d1(1) d2(1) ba bk
    by (simp add: q n_def[symmetric] hi_def[symmetric] Swap_ok d3_def[symmetric])
  have p: "perm_in a b d d3"
  proof -
    have "perm_in a b d d1" using perm_in_mono[OF d1(2), of a b] b by (simp add: hi_def)
    moreover have "perm_in a b d1 d2" using d2(2) by (simp add: n_def)
    moreover have "perm_in a b d2 d3"
      unfolding d3_def using b ba bk by (intro perm_in_swp) auto
    ultimately show ?thesis using perm_in_trans by blast
  qed
  have mx: "\<And>c. 0 \<le> c \<Longrightarrow> c < hi \<Longrightarrow> \<not> lt (item d2 a) (item d2 (a + c))"
    using heap_max[OF asym ntr d2(3)] by blast
  have lo: "\<forall>x. a \<le> x \<and> x < a + k \<longrightarrow> \<not> lt (item d3 (a + k)) (item d3 x)"
  proof (intro allI impI)
    fix x assume x: "a \<le> x \<and> x < a + k"
    have bx: "inb d2 x" using x b len2 by (auto simp: inb_def)
    have "\<not> lt (item d2 a) (item d2 (a + (x - a)))" "\<not> lt (item d2 a) (item d2 (a + k))"
      using mx[of "x - a"] mx[of k] x b by (auto simp: hi_def)
    then show "\<not> lt (item d3 (a + k)) (item d3 x)"
      using a3[OF bx] a3[OF bk] x by auto
  qed
  have hi: "\<forall>x. a + k < x \<and> x < b \<longrightarrow> \<not> lt (item d3 x) (item d3 (a + k))"
  proof (intro allI impI)
    fix x assume x: "a + k < x \<and> x < b"
    have bx: "inb d2 x" using x b len2 by (auto simp: inb_def)
    have "\<not> lt (item d2 (a + (x - a))) (item d2 a)"
      using d2(4)[rule_format, of "x - a"] x by (auto simp: hi_def n_def)
    then show "\<not> lt (item d3 x) (item d3 (a + k))"
      using a3[OF bx] a3[OF bk] x b by auto
  qed
  show ?thesis using res p lo hi by blast
qed

section \<open>Proofs: selection against the sorted order\<close>

lemma select_sorted_nat:
  fixes xs ys :: "'a::linorder list"
  assumes n: "n < length xs"
    and lo: "\<forall>i<n. xs ! i \<le> xs ! n"
    and hi: "\<forall>i. n < i \<and> i < length xs \<longrightarrow> xs ! n \<le> xs ! i"
    and ms: "mset xs = mset ys"
  shows "xs ! n = sort ys ! n" and "mset (take (Suc n) xs) = mset (take (Suc n) (sort ys))"
proof -
  define L where "L = take (Suc n) xs"
  define R where "R = drop (Suc n) xs"
  have xs: "xs = L @ R" by (simp add: L_def R_def)
  have lenL: "length L = Suc n" using n by (simp add: L_def)
  have inL: "xs ! n \<in> set L" unfolding L_def using n by (metis in_set_conv_nth length_take lenL L_def lessI nth_take)
  have leL: "\<forall>l\<in>set L. l \<le> xs ! n"
  proof
    fix l assume "l \<in> set L"
    then obtain i where i: "i < length L" "L ! i = l" by (auto simp: in_set_conv_nth)
    then have "l = xs ! i" "i \<le> n" using lenL by (auto simp: L_def)
    then show "l \<le> xs ! n" using lo by (cases "i = n") auto
  qed
  have geR: "\<forall>r\<in>set R. xs ! n \<le> r"
  proof
    fix r assume "r \<in> set R"
    then obtain i where i: "i < length R" "R ! i = r" by (auto simp: in_set_conv_nth)
    then have "r = xs ! (Suc n + i)" "Suc n + i < length xs" using n by (auto simp: R_def)
    then show "xs ! n \<le> r" using hi by auto
  qed
  have "sorted (sort L @ sort R)"
    using leL geR by (auto simp: sorted_append intro: order_trans)
  moreover have "mset (sort L @ sort R) = mset ys" using ms xs by simp
  ultimately have e: "sort ys = sort L @ sort R"
    by (metis properties_for_sort)
  have lens: "length (sort L) = Suc n" using lenL by simp
  show "mset (take (Suc n) xs) = mset (take (Suc n) (sort ys))"
    using e lens by (simp add: L_def[symmetric])
  have "sort ys ! n = sort L ! n" using e lens by (simp add: nth_append)
  also have "\<dots> = last (sort L)" using lens by (metis diff_Suc_1 last_conv_nth length_0_conv nat.distinct(1))
  finally have s: "sort ys ! n = last (sort L)" .
  have ne: "sort L \<noteq> []" using lenL by (metis length_0_conv length_sort nat.distinct(1))
  have "last (sort L) \<in> set L" using last_in_set[OF ne] by simp
  then have 1: "last (sort L) \<le> xs ! n" using leL by blast
  have "xs ! n \<in> set (sort L)" using inL by simp
  then obtain i where i: "i < length (sort L)" "sort L ! i = xs ! n" by (metis in_set_conv_nth)
  have "sort L ! i \<le> sort L ! n"
    using sorted_nth_mono[of "sort L" i n] i lens by auto
  then have 2: "xs ! n \<le> last (sort L)" using i s e lens by (simp add: nth_append)
  show "xs ! n = sort ys ! n" using 1 2 s by simp
qed

definition selected :: "('b::linorder) list \<Rightarrow> 'b list \<Rightarrow> int \<Rightarrow> bool" where
  "selected T S' k \<longleftrightarrow>
     length S' = length T \<and>
     S' ! nat (k - 1) = T ! nat (k - 1) \<and>
     mset (take (nat k) S') = mset (take (nat k) T) \<and>
     (\<forall>i. i < nat k \<longrightarrow> S' ! i \<le> T ! nat (k - 1)) \<and>
     (\<forall>i. nat k \<le> i \<and> i < length T \<longrightarrow> T ! nat (k - 1) \<le> S' ! i)"

lemma sel_selected:
  fixes f :: "'a \<Rightarrow> 'b::linorder"
  assumes ms: "mset d' = mset d" and s: "sel (\<lambda>x y. f x < f y) d' (k - 1)"
    and k: "1 \<le> k" "k \<le> int (length d)"
  shows "selected (sort (map f d)) (map f d') k"
proof -
  define n where "n = nat (k - 1)"
  define xs where "xs = map f d'"
  have len: "length d' = length d" using ms by (metis size_mset)
  have n: "n < length xs" "nat k = Suc n" "int n = k - 1"
    using k len by (auto simp: n_def xs_def)
  have nth: "\<And>i. i < length d' \<Longrightarrow> xs ! i = f (item d' (int i))"
    by (simp add: xs_def item_def)
  have lo: "\<forall>i<n. xs ! i \<le> xs ! n"
  proof (intro allI impI)
    fix i assume i: "i < n"
    have "\<not> f (item d' (k - 1)) < f (item d' (int i))"
      using s i n(3) unfolding sel_def by auto
    then show "xs ! i \<le> xs ! n" using nth[of i] nth[of n] i n by (simp add: xs_def)
  qed
  have hi: "\<forall>i. n < i \<and> i < length xs \<longrightarrow> xs ! n \<le> xs ! i"
  proof (intro allI impI)
    fix i assume i: "n < i \<and> i < length xs"
    have "\<not> f (item d' (int i)) < f (item d' (k - 1))"
      using s i n(3) unfolding sel_def by (auto simp: xs_def)
    then show "xs ! n \<le> xs ! i" using nth[of i] nth[of n] i n by (simp add: xs_def)
  qed
  have mm: "mset xs = mset (map f d)" using ms by (simp add: xs_def)
  note r = select_sorted_nat[OF n(1) lo hi mm]
  have "\<forall>i. i < nat k \<longrightarrow> xs ! i \<le> sort (map f d) ! n"
    using lo r(1) n(2) by (metis less_Suc_eq order_refl)
  moreover have "\<forall>i. nat k \<le> i \<and> i < length (sort (map f d)) \<longrightarrow> sort (map f d) ! n \<le> xs ! i"
    using hi r(1) n(2) len by (auto simp: xs_def)
  moreover have lx: "length xs = length d" using len by (simp add: xs_def)
  ultimately show ?thesis
    unfolding selected_def using r n lx by (simp add: xs_def[symmetric] n_def[symmetric])
qed

lemma key_order:
  fixes f :: "'a \<Rightarrow> 'b::linorder"
  shows "\<forall>x y. f x < f y \<longrightarrow> \<not> f y < f x"
    and "\<forall>x y z. \<not> f x < f y \<longrightarrow> \<not> f y < f z \<longrightarrow> \<not> f x < f z"
  by auto

lemma PDQSelect_selected:
  fixes f :: "'a \<Rightarrow> 'b::linorder"
  assumes cok: "chooser_ok cp" and k: "1 \<le> k" "k \<le> int (length S)"
  shows "\<exists>S'. PDQSelect (\<lambda>x y. f x < f y) cp S k = Some (Inr S') \<and> mset S' = mset S \<and>
           selected (sort (map f S)) (map f S') k"
proof -
  from PDQSelect_ok[OF key_order cok k, of f] obtain S' where
    r: "PDQSelect (\<lambda>x y. f x < f y) cp S k = Some (Inr S')" "perm_in 0 (int (length S)) S S'"
       "sel (\<lambda>x y. f x < f y) S' (k - 1)"
    by blast
  have m: "mset S' = mset S" using perm_in_mset[OF r(2)] .
  show ?thesis using r(1) m sel_selected[OF m r(3) k] by blast
qed

lemma FloydRivest_selected:
  fixes f :: "'a \<Rightarrow> 'b::linorder"
  assumes nok: "narrowing_ok est" and k: "1 \<le> k" "k \<le> int (length S)"
  shows "\<exists>S'. FloydRivest (\<lambda>x y. f x < f y) est S k = Some (Inr S') \<and> mset S' = mset S \<and>
           selected (sort (map f S)) (map f S') k"
proof -
  from FloydRivest_ok[OF key_order nok k, of f] obtain S' where
    r: "FloydRivest (\<lambda>x y. f x < f y) est S k = Some (Inr S')" "perm_in 0 (int (length S)) S S'"
       "sel (\<lambda>x y. f x < f y) S' (k - 1)"
    by blast
  have m: "mset S' = mset S" using perm_in_mset[OF r(2)] .
  show ?thesis using r(1) m sel_selected[OF m r(3) k] by blast
qed

lemma PDQSelect_selected_id:
  fixes S :: "'a::linorder list"
  assumes cok: "chooser_ok cp" and k: "1 \<le> k" "k \<le> int (length S)"
  shows "\<exists>S'. PDQSelect (<) cp S k = Some (Inr S') \<and> mset S' = mset S \<and>
           selected (sort S) S' k"
  using PDQSelect_selected[OF cok k, of "\<lambda>x. x"] by simp

lemma FloydRivest_selected_id:
  fixes S :: "'a::linorder list"
  assumes nok: "narrowing_ok est" and k: "1 \<le> k" "k \<le> int (length S)"
  shows "\<exists>S'. FloydRivest (<) est S k = Some (Inr S') \<and> mset S' = mset S \<and>
           selected (sort S) S' k"
  using FloydRivest_selected[OF nok k, of "\<lambda>x. x"] by simp

lemma chooser_ok_middle: "chooser_ok (\<lambda>d a b. (a + (b - a) div 2, unknownHint))"
  by (auto simp: chooser_ok_def)

lemma selected_twice:
  fixes f :: "'a \<Rightarrow> 'b::linorder"
  assumes m1: "mset S1 = mset S" and s1: "selected (sort (map f S)) (map f S1) k"
    and m2: "mset S2 = mset S1" and s2: "selected (sort (map f S1)) (map f S2) k"
    and k: "1 \<le> k" "k \<le> int (length S)"
  shows "f (S2 ! nat (k - 1)) = f (S1 ! nat (k - 1))"
proof -
  have len: "length S1 = length S" "length S2 = length S"
    using m1 m2 by (metis size_mset)+
  have n: "nat (k - 1) < length S" using k by auto
  have "mset (map f S1) = mset (map f S)" using m1 by simp
  then have e: "sort (map f S1) = sort (map f S)"
    by (metis properties_for_sort sorted_sort mset_sort)
  have "map f S2 ! nat (k - 1) = map f S1 ! nat (k - 1)"
    using s1 s2 e by (simp add: selected_def)
  then show ?thesis using n len by simp
qed

definition slice :: "'a list \<Rightarrow> int \<Rightarrow> int \<Rightarrow> 'a list" where
  "slice d a b = take (nat (b - a)) (drop (nat a) d)"

lemma length_slice:
  "0 \<le> a \<Longrightarrow> a \<le> b \<Longrightarrow> b \<le> int (length d) \<Longrightarrow> length (slice d a b) = nat (b - a)"
  by (auto simp: slice_def)

lemma at_slice:
  "0 \<le> a \<Longrightarrow> b \<le> int (length d) \<Longrightarrow> 0 \<le> x \<Longrightarrow> x < b - a \<Longrightarrow>
   item (slice d a b) x = item d (a + x)"
  by (simp add: slice_def item_def nat_add_distrib)

lemma mset_split3:
  "mset d = mset (take m d) + mset (take n (drop m d)) + mset (drop (m + n) d)"
proof -
  have "take m d @ take n (drop m d) @ drop n (drop m d) = d"
    by (simp only: append_take_drop_id)
  then have "mset d = mset (take m d @ take n (drop m d) @ drop n (drop m d))"
    by (simp only:)
  then show ?thesis by (simp add: add.commute)
qed

lemma perm_in_slice:
  assumes p: "perm_in a b d d'" and b: "0 \<le> a" "a \<le> b" "b \<le> int (length d)"
  shows "mset (slice d' a b) = mset (slice d a b)"
proof -
  have len: "length d' = length d" using perm_in_length[OF p] .
  have out: "d' ! x = d ! x" if "x < length d" "int x < a \<or> b \<le> int x" for x
    using perm_in_outside[OF p, of "int x"] that by (simp add: inb_def item_def)
  have t: "take (nat a) d' = take (nat a) d"
  proof (intro nth_equalityI)
    show "length (take (nat a) d') = length (take (nat a) d)" using len by simp
  next
    fix i assume "i < length (take (nat a) d')"
    then have "i < length d" "int i < a" using len by auto
    then show "take (nat a) d' ! i = take (nat a) d ! i" using out[of i] by simp
  qed
  have e: "nat a + nat (b - a) = nat b" using b by simp
  have r: "drop (nat b) d' = drop (nat b) d"
  proof (intro nth_equalityI)
    show "length (drop (nat b) d') = length (drop (nat b) d)" using len by simp
  next
    fix i assume "i < length (drop (nat b) d')"
    then have "nat b + i < length d" "b \<le> int (nat b + i)" using len b by auto
    then show "drop (nat b) d' ! i = drop (nat b) d ! i"
      using out[of "nat b + i"] len b by simp
  qed
  have "mset d' = mset d" using perm_in_mset[OF p] .
  then show ?thesis
    using mset_split3[of d "nat a" "nat (b - a)"] mset_split3[of d' "nat a" "nat (b - a)"] t r
    unfolding e slice_def by simp
qed

lemma sel_slice:
  assumes b: "0 \<le> a" "0 \<le> k" "a + k < b" "b \<le> int (length d)"
    and lo: "\<forall>x. a \<le> x \<and> x < a + k \<longrightarrow> \<not> lt (item d (a + k)) (item d x)"
    and hi: "\<forall>x. a + k < x \<and> x < b \<longrightarrow> \<not> lt (item d x) (item d (a + k))"
  shows "sel lt (slice d a b) k"
  unfolding sel_def
proof (intro conjI allI impI)
  fix x assume x: "0 \<le> x \<and> x < k"
  have "\<not> lt (item d (a + k)) (item d (a + x))" using lo x by auto
  then show "\<not> lt (item (slice d a b) k) (item (slice d a b) x)"
    using b x by (simp add: at_slice)
next
  fix x assume x: "k < x \<and> x < int (length (slice d a b))"
  then have x': "x < b - a" using b by (simp add: length_slice)
  have "\<not> lt (item d (a + x)) (item d (a + k))" using hi x x' by auto
  then show "\<not> lt (item (slice d a b) x) (item (slice d a b) k)"
    using b x x' by (simp add: at_slice)
qed

lemma sel_from_range:
  assumes sl: "split_at lt d a" and sr: "split_at lt d b"
    and m: "a \<le> m" "m < b" "0 \<le> a" "b \<le> int (length d)"
    and lo: "\<forall>x. a \<le> x \<and> x < m \<longrightarrow> \<not> lt (item d m) (item d x)"
    and hi: "\<forall>x. m < x \<and> x < b \<longrightarrow> \<not> lt (item d x) (item d m)"
  shows "sel lt d m"
  unfolding sel_def
proof (intro conjI allI impI)
  fix x assume x: "0 \<le> x \<and> x < m"
  show "\<not> lt (item d m) (item d x)"
  proof (cases "x < a")
    case True
    then show ?thesis using sl x m unfolding split_at_def by auto
  next
    case False
    then show ?thesis using lo x by auto
  qed
next
  fix x assume x: "m < x \<and> x < int (length d)"
  show "\<not> lt (item d x) (item d m)"
  proof (cases "b \<le> x")
    case True
    then show ?thesis using sr x m unfolding split_at_def by auto
  next
    case False
    then show ?thesis using hi x by auto
  qed
qed

section \<open>Proofs: Select\<close>

definition Select_inv ::
  "('a \<Rightarrow> 'a \<Rightarrow> bool) \<Rightarrow> 'a list \<Rightarrow> int \<Rightarrow> int \<Rightarrow> int \<Rightarrow> int \<Rightarrow> bool \<Rightarrow> bool" where
  "Select_inv lt d a b k limit wb \<longleftrightarrow>
     0 \<le> a \<and> a \<le> b \<and> b \<le> int (length d) \<and> 0 \<le> k \<and> k < b \<and>
     lim_ok (b - a) limit wb (above_prev lt d a b) \<and>
     (if a \<le> k then split_at lt d a \<and> split_at lt d b else sel lt d k)"

lemma sel_perm_after:
  assumes p: "perm_in a b d d'" and k: "0 \<le> k" "k < a" and b: "b \<le> int (length d)"
    and ab: "a \<le> b" and s: "sel lt d k"
  shows "sel lt d' k"
proof -
  have len: "length d' = length d" using perm_in_length[OF p] .
  have out: "\<And>x. inb d x \<Longrightarrow> x < a \<or> b \<le> x \<Longrightarrow> item d' x = item d x"
    using perm_in_outside[OF p] by blast
  have bk: "inb d k" using k b ab by (auto simp: inb_def)
  have ek: "item d' k = item d k" using out[OF bk] k by simp
  have h: "\<forall>x. a \<le> x \<and> x < b \<and> inb d x \<longrightarrow> \<not> lt (item d x) (item d k)"
    using s k unfolding sel_def inb_def by auto
  show ?thesis
    unfolding sel_def
  proof (intro conjI allI impI)
    fix x assume x: "0 \<le> x \<and> x < k"
    then have "inb d x" using bk by (auto simp: inb_def)
    then have "item d' x = item d x" using out[of x] x k by simp
    then show "\<not> lt (item d' k) (item d' x)" using s x ek unfolding sel_def by auto
  next
    fix x assume x: "k < x \<and> x < int (length d')"
    then have bx: "inb d x" using k len by (auto simp: inb_def)
    show "\<not> lt (item d' x) (item d' k)"
    proof (cases "a \<le> x \<and> x < b")
      case True
      then show ?thesis
        using perm_in_range[OF p h, of x] bx ek by simp
    next
      case False
      then have "item d' x = item d x" using out[OF bx] by auto
      then show ?thesis using s x ek len unfolding sel_def by auto
    qed
  qed
qed

lemma above_prev_equal:
  assumes ntr: "\<forall>x y z. \<not> lt x y \<longrightarrow> \<not> lt y z \<longrightarrow> \<not> lt x z"
    and b: "a < mid"
    and lo: "\<forall>x. a \<le> x \<and> x < mid \<longrightarrow> \<not> lt pv (item d x)"
    and hi: "\<forall>x. mid \<le> x \<and> x < b \<longrightarrow> lt pv (item d x)"
  shows "above_prev lt d mid b"
  unfolding above_prev_def
proof (intro disjI2 allI impI)
  fix x assume x: "mid \<le> x \<and> x < b"
  have "\<not> lt pv (item d (mid - 1))" using lo b by auto
  moreover have "lt pv (item d x)" using hi x by auto
  ultimately show "lt (item d (mid - 1)) (item d x)" using ntr by blast
qed

lemma Select_iter_ok:
  assumes asym: "\<forall>x y. lt x y \<longrightarrow> \<not> lt y x"
    and ntr: "\<forall>x y z. \<not> lt x y \<longrightarrow> \<not> lt y z \<longrightarrow> \<not> lt x z"
    and cok: "chooser_ok cp"
    and inv: "Select_inv lt d a b k limit wb"
  shows "(\<exists>d'. Select_iter lt hs cp d a b k limit wb wp = Inr (Done d') \<and>
            perm_in a b d d' \<and> sel lt d' k) \<or>
         (\<exists>d' a' b' limit' wb' wp'.
            Select_iter lt hs cp d a b k limit wb wp = Inr (Again d' a' b' limit' wb' wp') \<and>
            perm_in a b d d' \<and> Select_inv lt d' a' b' k limit' wb' \<and>
            a \<le> a' \<and> b' \<le> b \<and> b' - a' < b - a)"
proof -
  from inv have f: "0 \<le> a" "a \<le> b" "b \<le> int (length d)" "0 \<le> k" "k < b"
      "lim_ok (b - a) limit wb (above_prev lt d a b)"
    by (auto simp: Select_inv_def)
  from inv have c1: "a \<le> k \<Longrightarrow> split_at lt d a \<and> split_at lt d b"
    and c2: "k < a \<Longrightarrow> sel lt d k"
    by (auto simp: Select_inv_def split: if_splits)
  have nt: "\<And>x y z. \<not> lt x y \<Longrightarrow> \<not> lt y z \<Longrightarrow> \<not> lt x z" using ntr by blast
  have keep: "(a \<le> k \<longrightarrow> split_at lt d' a \<and> split_at lt d' b) \<and> (k < a \<longrightarrow> sel lt d' k) \<and>
      b \<le> int (length d')" if p: "perm_in a b d d'" for d'
  proof -
    have len: "length d' = length d" using perm_in_length[OF p] .
    have A: "split_at lt d' a \<and> split_at lt d' b" if "a \<le> k"
      using split_at_perm[OF p f(1,3), of a lt] split_at_perm[OF p f(1,3), of b lt] c1[OF that]
      by auto
    have B: "sel lt d' k" if "k < a"
      using sel_perm_after[OF p f(4) that f(3) f(2) c2[OF that]] .
    show ?thesis using A B len f(3) by auto
  qed
  have sorted_done: "sel lt d' k" if p: "perm_in a b d d'" and srt: "adj_sorted lt d' a b" for d'
  proof (cases "a \<le> k")
    case True
    have "sorted_in lt d' a b" using adj_sorted_imp_sorted_in[OF asym ntr srt] .
    then show ?thesis
      using sel_from_sorted[of lt d' a b k] keep[OF p] True f by auto
  next
    case False
    then show ?thesis using keep[OF p] by auto
  qed
  show ?thesis
  proof (cases "b - a \<le> maxInsertion")
    case True
    from insertionSort_ok[OF asym f(1,3)] obtain d' where
      r: "insertionSort lt d a b = Inr d'" "perm_in a b d d'" "adj_sorted lt d' a b"
      by blast
    have "Select_iter lt hs cp d a b k limit wb wp = Inr (Done d')"
      unfolding Select_iter_def using True r(1) by simp
    then show ?thesis using r(2) sorted_done[OF r(2,3)] by blast
  next
    case False
    then have big: "12 < b - a" by (simp add: maxInsertion_def)
    have nz: "limit \<noteq> 0" using lim_ok_nonzero[OF f(6)] big by simp
    define limit1 where "limit1 = (if wb then limit else limit - 1)"
    from pdqselect_pivot_ok[OF asym cok f(1) _ f(3), where limit=limit and wb=wb and wp=wp] big
    obtain d3 pivot s where
      pv: "pdqselect_pivot lt cp d a b limit wb wp = Inr (d3, limit1, pivot, s)"
          "perm_in a b d d3" "a \<le> pivot" "pivot < b" "s \<longrightarrow> adj_sorted lt d3 a b"
      unfolding limit1_def by auto
    have len3: "length d3 = length d" using perm_in_length[OF pv(2)] .
    have b3: "b \<le> int (length d3)" using f(3) len3 by simp
    show ?thesis
    proof (cases s)
      case True
      have "Select_iter lt hs cp d a b k limit wb wp = Inr (Done d3)"
        unfolding Select_iter_def using False nz pv(1) True by simp
      then show ?thesis using pv(2) sorted_done[OF pv(2)] pv(5) True by blast
    next
      case ns: False
      define c where "c = lt (item d3 (a - 1)) (item d3 pivot)"
      have bp: "inb d3 pivot" using pv(3,4) f(1) b3 by (auto simp: inb_def)
      have ba: "a > 0 \<Longrightarrow> inb d3 (a - 1)" using big b3 by (auto simp: inb_def)
      have lessc: "(if a > 0 then Less lt d3 (a - 1) pivot else Inr True) =
                   Inr (if a > 0 then c else True)"
        using bp ba by (auto simp: Less_ok c_def)
      show ?thesis
      proof (cases "a > 0 \<and> \<not> c")
        case True
        from partitionEqual_ok[OF asym f(1) pv(3,4) b3] obtain d4 mid where
          pe: "partitionEqual lt d3 a b pivot = Inr (d4, mid)" "a < mid" "mid \<le> b"
              "perm_in a b d3 d4"
              "\<forall>x. a \<le> x \<and> x < mid \<longrightarrow> \<not> lt (item d3 pivot) (item d4 x)"
              "\<forall>x. mid \<le> x \<and> x < b \<longrightarrow> lt (item d3 pivot) (item d4 x)"
          by blast
        have p4: "perm_in a b d d4" using perm_in_trans[OF pe(4) pv(2)] .
        note k4 = keep[OF p4]
        have b4: "b \<le> int (length d4)" using k4 by simp
        have "item d4 (a - 1) = item d3 (a - 1)"
          using perm_in_outside[OF pe(4), of "a - 1"] ba True by auto
        then have prev: "\<not> lt (item d4 (a - 1)) (item d3 pivot)"
          using True by (simp add: c_def)
        have a0: "0 < a" using True by simp
        have res: "Select_iter lt hs cp d a b k limit wb wp =
                Inr (Again d4 mid b limit1 wb wp)"
          unfolding Select_iter_def
          using False nz pv(1) ns lessc True pe(1) by simp
        have nab: "\<not> above_prev lt d a b"
        proof
          assume "above_prev lt d a b"
          from above_prev_perm[OF pv(2) f(3,2) this]
          have "above_prev lt d3 a b" .
          then have "lt (item d3 (a - 1)) (item d3 pivot)"
            using True pv(3,4) by (auto simp: above_prev_def)
          then show False using True by (simp add: c_def)
        qed
        have "above_prev lt d4 mid b" using above_prev_equal[OF ntr pe(2) pe(5,6)] .
        moreover have "lim_ok (b - mid) limit1 wb True"
          unfolding limit1_def
          using lim_ok_equal[of "b - a" limit wb "b - mid"] f(6) nab nz pe(2) by auto
        ultimately have lim: "lim_ok (b - mid) limit1 wb (above_prev lt d4 mid b)" by simp
        have tail: "if mid \<le> k then split_at lt d4 mid \<and> split_at lt d4 b else sel lt d4 k"
        proof (cases "a \<le> k")
          case ak: True
          then have s4: "split_at lt d4 a" "split_at lt d4 b" using k4 by auto
          note er = equal_run_props[OF asym ntr a0 pe(2,3) b4 s4 prev pe(5,6)]
          show ?thesis using er(1)[OF ak] er(2) s4(2) by auto
        next
          case False
          then show ?thesis using k4 pe(2) by auto
        qed
        have "Select_inv lt d4 mid b k limit1 wb"
          unfolding Select_inv_def using f(1,4,5) pe(2,3) b4 lim tail by auto
        then show ?thesis using res p4 pe(2) by auto
      next
        case npe: False
        from partition_range_ok[OF asym f(1) pv(3,4) b3] obtain d4 mid ap where
          pt: "partition_range lt d3 a b pivot = Inr (d4, mid, ap)" "a \<le> mid" "mid < b"
              "perm_in a b d3 d4"
              "\<forall>x. a \<le> x \<and> x < mid \<longrightarrow> \<not> lt (item d4 mid) (item d4 x)"
              "\<forall>x. mid < x \<and> x < b \<longrightarrow> \<not> lt (item d4 x) (item d4 mid)"
          by blast
        have p4: "perm_in a b d d4" using perm_in_trans[OF pt(4) pv(2)] .
        note k4 = keep[OF p4]
        have b4: "b \<le> int (length d4)" using k4 by simp
        have sm: "split_at lt d4 a \<and> split_at lt d4 b \<and> split_at lt d4 mid \<and>
            split_at lt d4 (mid + 1)" if ak: "a \<le> k"
        proof -
          have s4: "split_at lt d4 a" "split_at lt d4 b" using k4 ak by auto
          show ?thesis
            using split_at_mid[of lt d4 a b mid, OF nt s4 pt(2,3) f(1) b4 pt(5,6)] s4 by auto
        qed
        consider "k = mid" | "k < mid" | "mid < k" by linarith
        then show ?thesis
        proof cases
          case 1
          have bk: "inb d4 k" using f b4 by (auto simp: inb_def)
          have "Select_iter lt hs cp d a b k limit wb wp = Inr (Done d4)"
            unfolding Select_iter_def
            using False nz pv(1) ns lessc npe pt(1) 1 by (simp add: Let_def)
          moreover have "sel lt d4 k"
            using sel_from_split[OF _ _ bk] sm 1 pt(2) by simp
          ultimately show ?thesis using p4 by blast
        next
          case 2
          define wb' where "wb' = (mid - a \<ge> (b - a) div 8)"
          have res: "Select_iter lt hs cp d a b k limit wb wp =
                  Inr (Again d4 a mid limit1 wb' ap)"
            unfolding Select_iter_def
            using False nz pv(1) ns lessc npe pt(1) 2 by (simp add: wb'_def Let_def)
          have "\<not> wb' \<longrightarrow> 8 * (mid - a) < b - a" unfolding wb'_def by auto
          then have "lim_ok (mid - a) limit1 wb' (above_prev lt d4 a mid)"
            unfolding limit1_def
            using lim_ok_partition[of "b - a" limit wb "above_prev lt d a b" "mid - a" wb']
              f(6) nz pt(3) by auto
          moreover have "if a \<le> k then split_at lt d4 a \<and> split_at lt d4 mid else sel lt d4 k"
            using sm k4 by auto
          ultimately have "Select_inv lt d4 a mid k limit1 wb'"
            unfolding Select_inv_def using f(1,4) 2 pt(2,3) b4 by auto
          then show ?thesis using res p4 pt(3) by auto
        next
          case 3
          define wb' where "wb' = (b - mid \<ge> (b - a) div 8)"
          have ak: "a \<le> k" using 3 pt(2) by simp
          have res: "Select_iter lt hs cp d a b k limit wb wp =
                  Inr (Again d4 (mid + 1) b limit1 wb' ap)"
            unfolding Select_iter_def
            using False nz pv(1) ns lessc npe pt(1) 3 by (simp add: wb'_def Let_def)
          have "\<not> wb' \<longrightarrow> 8 * (b - (mid + 1)) < b - a" unfolding wb'_def by auto
          then have "lim_ok (b - (mid + 1)) limit1 wb' (above_prev lt d4 (mid + 1) b)"
            unfolding limit1_def
            using lim_ok_partition[of "b - a" limit wb "above_prev lt d a b" "b - (mid + 1)" wb']
              f(6) nz pt(2) by auto
          then have "Select_inv lt d4 (mid + 1) b k limit1 wb'"
            unfolding Select_inv_def using f(1,4,5) 3 pt(2,3) b4 sm[OF ak] by auto
          then show ?thesis using res p4 pt(2) by auto
        qed
      qed
    qed
  qed
qed

lemma Select_loop_ok:
  assumes asym: "\<forall>x y. lt x y \<longrightarrow> \<not> lt y x"
    and ntr: "\<forall>x y z. \<not> lt x y \<longrightarrow> \<not> lt y z \<longrightarrow> \<not> lt x z"
    and cok: "chooser_ok cp"
  shows "Select_inv lt d a b k limit wb \<Longrightarrow>
    \<exists>d'. Select_loop lt hs cp d a b k limit wb wp = Some (Inr d') \<and>
         perm_in a b d d' \<and> sel lt d' k"
proof (induction "nat (b - a)" arbitrary: d a b limit wb wp rule: less_induct)
  case less
  from Select_iter_ok[OF asym ntr cok less.prems, of hs wp]
  show ?case
  proof (elim disjE exE conjE)
    fix d' assume "Select_iter lt hs cp d a b k limit wb wp = Inr (Done d')"
      "perm_in a b d d'" "sel lt d' k"
    then show ?thesis by (subst Select_loop.simps) auto
  next
    fix d1 a' b' limit' wb' wp'
    assume r: "Select_iter lt hs cp d a b k limit wb wp = Inr (Again d1 a' b' limit' wb' wp')"
      "perm_in a b d d1" "Select_inv lt d1 a' b' k limit' wb'" "a \<le> a'" "b' \<le> b"
      "b' - a' < b - a"
    have "nat (b' - a') < nat (b - a)" using r(3,6) by (auto simp: Select_inv_def)
    from less.hyps[OF this r(3), of wp'] obtain d' where
      d': "Select_loop lt hs cp d1 a' b' k limit' wb' wp' = Some (Inr d')"
          "perm_in a' b' d1 d'" "sel lt d' k"
      by blast
    have "Select_loop lt hs cp d a b k limit wb wp = Some (Inr d')"
      using r(1) d'(1) by (subst Select_loop.simps) simp
    then show ?thesis
      using d'(3) perm_in_trans[OF perm_in_mono[OF d'(2) r(4,5)] r(2)] by blast
  qed
qed

lemma Select_ok:
  assumes asym: "\<forall>x y. lt x y \<longrightarrow> \<not> lt y x"
    and ntr: "\<forall>x y z. \<not> lt x y \<longrightarrow> \<not> lt y z \<longrightarrow> \<not> lt x z"
    and cok: "chooser_ok cp"
    and k: "1 \<le> k" "k \<le> int (length d)"
  shows "\<exists>d'. Select lt hs cp d k = Some (Inr d') \<and> perm_in 0 (int (length d)) d d' \<and>
           sel lt d' (k - 1)"
proof -
  define n where "n = int (length d)"
  have e: "Select lt hs cp d k = Select_loop lt hs cp d 0 n (k - 1) (bits_Len n) True True"
    unfolding Select_def n_def using k by (simp add: Let_def)
  have n: "0 < n" using k by (auto simp: n_def)
  have "split_at lt d 0" "split_at lt d n" by (auto simp: split_at_def n_def)
  moreover have "lim_ok (n - 0) (bits_Len n) True (above_prev lt d 0 n)"
    using bits_Len_bound[of n] n by (simp add: lim_ok_def)
  ultimately have inv: "Select_inv lt d 0 n (k - 1) (bits_Len n) True"
    unfolding Select_inv_def using k by (auto simp: n_def)
  from Select_loop_ok[OF asym ntr cok inv, of hs True] show ?thesis
    using e by (auto simp: n_def)
qed

lemma Select_selected:
  fixes f :: "'a \<Rightarrow> 'b::linorder"
  assumes cok: "chooser_ok cp" and k: "1 \<le> k" "k \<le> int (length S)"
  shows "\<exists>S'. Select (\<lambda>x y. f x < f y) hs cp S k = Some (Inr S') \<and> mset S' = mset S \<and>
           selected (sort (map f S)) (map f S') k"
proof -
  from Select_ok[OF key_order cok k, of f hs] obtain S' where
    r: "Select (\<lambda>x y. f x < f y) hs cp S k = Some (Inr S')" "perm_in 0 (int (length S)) S S'"
       "sel (\<lambda>x y. f x < f y) S' (k - 1)"
    by blast
  have m: "mset S' = mset S" using perm_in_mset[OF r(2)] .
  show ?thesis using r(1) m sel_selected[OF m r(3) k] by blast
qed

section \<open>Proofs: indices under an arbitrary comparison\<close>

lemma siftDown_safe:
  "0 \<le> first \<Longrightarrow> first + hi \<le> int (length d) \<Longrightarrow>
   \<exists>d'. siftDown lt d rt hi first = Inr d' \<and> length d' = length d"
proof (induction "nat (hi - int rt)" arbitrary: d rt rule: less_induct)
  case less
  note b = less.prems
  define r where "r = int rt"
  define child where "child = 2 * r + 1"
  have r0: "0 \<le> r" by (simp add: r_def)
  show ?case
  proof (cases "child \<ge> hi")
    case True
    then have "siftDown lt d rt hi first = Inr d"
      by (subst siftDown.simps) (simp add: child_def r_def Let_def)
    then show ?thesis by simp
  next
    case False
    then have ch: "child < hi" by simp
    have bc: "inb d (first + child)" "inb d (first + r)"
      using ch r0 b by (auto simp: inb_def child_def)
    have bc1: "child + 1 < hi \<Longrightarrow> inb d (first + child + 1)"
      using r0 b by (auto simp: inb_def child_def)
    define c where "c = (child + 1 < hi \<and> lt (item d (first + child)) (item d (first + child + 1)))"
    have lessc: "(if child + 1 < hi then Less lt d (first + child) (first + child + 1) else Inr False)
        = Inr c"
      using bc bc1 by (auto simp: Less_ok c_def)
    define child' where "child' = (if c then child + 1 else child)"
    have c': "child' < hi" "r < child'"
      using ch r0 by (auto simp: child'_def c_def child_def)
    have bc': "inb d (first + child')"
      using bc bc1 by (auto simp: child'_def c_def add.assoc)
    show ?thesis
    proof (cases "lt (item d (first + r)) (item d (first + child'))")
      case False
      have "siftDown lt d rt hi first = Inr d"
        using ch lessc False bc bc'
        by (subst siftDown.simps)
           (simp add: child_def[symmetric] r_def[symmetric] Let_def child'_def[symmetric] Less_ok)
      then show ?thesis by simp
    next
      case True
      define d1 where "d1 = swp d (first + r) (first + child')"
      have len1: "length d1 = length d" by (simp add: d1_def)
      have m: "nat (hi - int (nat child')) < nat (hi - int rt)"
        using c' r0 by (simp add: r_def)
      from less.hyps[OF m b(1), of d1] b(2) len1 obtain d' where
        r: "siftDown lt d1 (nat child') hi first = Inr d'" "length d' = length d1"
        by auto
      have "siftDown lt d rt hi first = Inr d'"
        using ch lessc True bc bc' r(1)
        by (subst siftDown.simps)
           (simp add: child_def[symmetric] r_def[symmetric] Let_def child'_def[symmetric]
              Less_ok Swap_ok d1_def[symmetric])
      then show ?thesis using r(2) len1 by simp
    qed
  qed
qed

lemma heapSelect_build_safe:
  "0 \<le> first \<Longrightarrow> first + hi \<le> int (length d) \<Longrightarrow>
   \<exists>d'. heapSelect_build lt d i hi first = Inr d' \<and> length d' = length d"
proof (induction "nat (i + 1)" arbitrary: d i rule: less_induct)
  case less
  show ?case
  proof (cases "i \<ge> 0")
    case False
    then show ?thesis by (subst heapSelect_build.simps) simp
  next
    case True
    from siftDown_safe[OF less.prems, of lt "nat i"] obtain d1 where
      d1: "siftDown lt d (nat i) hi first = Inr d1" "length d1 = length d"
      by blast
    have "nat (i - 1 + 1) < nat (i + 1)" using True by simp
    from less.hyps[OF this less.prems(1), of d1] less.prems(2) d1(2) obtain d' where
      r: "heapSelect_build lt d1 (i - 1) hi first = Inr d'" "length d' = length d1"
      by auto
    have "heapSelect_build lt d i hi first = Inr d'"
      using True d1(1) r(1) by (subst heapSelect_build.simps) simp
    then show ?thesis using r(2) d1(2) by simp
  qed
qed

lemma heapSelect_scan_safe:
  "0 \<le> a \<Longrightarrow> 0 \<le> i \<Longrightarrow> hi \<le> n \<Longrightarrow> a + n \<le> int (length d) \<Longrightarrow>
   \<exists>d'. heapSelect_scan lt d i n hi a = Inr d' \<and> length d' = length d"
proof (induction "nat (n - i)" arbitrary: d i rule: less_induct)
  case less
  note b = less.prems
  show ?case
  proof (cases "i < n")
    case False
    then show ?thesis by (subst heapSelect_scan.simps) simp
  next
    case True
    have ba: "inb d a" "inb d (a + i)" using b True by (auto simp: inb_def)
    have m: "nat (n - (i + 1)) < nat (n - i)" using True by simp
    have i1: "0 \<le> i + 1" using b by simp
    show ?thesis
    proof (cases "lt (item d (a + i)) (item d a)")
      case False
      from less.hyps[OF m b(1) i1 b(3,4)] obtain d' where
        r: "heapSelect_scan lt d (i + 1) n hi a = Inr d'" "length d' = length d"
        by blast
      have "heapSelect_scan lt d i n hi a = Inr d'"
        using True False ba r(1) by (subst heapSelect_scan.simps) (simp add: Less_ok)
      then show ?thesis using r(2) by simp
    next
      case l: True
      define d1 where "d1 = swp d a (a + i)"
      have len1: "length d1 = length d" by (simp add: d1_def)
      have "a + hi \<le> int (length d1)" using b len1 by simp
      from siftDown_safe[OF b(1) this, of lt 0] obtain d2 where
        d2: "siftDown lt d1 0 hi a = Inr d2" "length d2 = length d1"
        by blast
      have "a + n \<le> int (length d2)" using b d2(2) len1 by simp
      from less.hyps[OF m b(1) i1 b(3) this] obtain d' where
        r: "heapSelect_scan lt d2 (i + 1) n hi a = Inr d'" "length d' = length d2"
        by blast
      have "heapSelect_scan lt d i n hi a = Inr d'"
        using True l ba d2(1) r(1)
        by (subst heapSelect_scan.simps) (simp add: Less_ok Swap_ok d1_def[symmetric])
      then show ?thesis using r(2) d2(2) len1 by simp
    qed
  qed
qed

lemma heapSelect_safe:
  assumes b: "0 \<le> a" "0 \<le> k" "a + k < b" "b \<le> int (length d)"
  shows "\<exists>d'. heapSelect lt d a b k = Inr d' \<and> length d' = length d"
proof -
  have q: "quot k 2 = k div 2" using b by (simp add: quot_def)
  have l: "a + (k + 1) \<le> int (length d)" using b by simp
  from heapSelect_build_safe[OF b(1) l, of lt "k div 2"] obtain d1 where
    d1: "heapSelect_build lt d (k div 2) (k + 1) a = Inr d1" "length d1 = length d"
    by blast
  have "0 \<le> k + 1" "k + 1 \<le> b - a" "a + (b - a) \<le> int (length d1)"
    using b d1(2) by simp_all
  from heapSelect_scan_safe[OF b(1) this, of lt] obtain d2 where
    d2: "heapSelect_scan lt d1 (k + 1) (b - a) (k + 1) a = Inr d2" "length d2 = length d1"
    by blast
  have ba: "inb d2 a" "inb d2 (a + k)" using b d1(2) d2(2) by (auto simp: inb_def)
  have "heapSelect lt d a b k = Inr (swp d2 a (a + k))"
    unfolding heapSelect_def Let_def using d1(1) d2(1) ba by (simp add: q Swap_ok)
  then show ?thesis using d1(2) d2(2) by simp
qed

lemma min_scan_safe:
  "inb d mn \<Longrightarrow> 0 \<le> i \<Longrightarrow> b \<le> int (length d) \<Longrightarrow>
   \<exists>m. min_scan lt d i b mn = Inr m \<and> inb d m"
proof (induction "nat (b - i)" arbitrary: i mn rule: less_induct)
  case less
  show ?case
  proof (cases "i < b")
    case False
    then show ?thesis using less.prems(1) by (subst min_scan.simps) simp
  next
    case True
    have bi: "inb d i" using True less.prems by (auto simp: inb_def)
    define mn' where "mn' = (if lt (item d i) (item d mn) then i else mn)"
    have bm: "inb d mn'" using bi less.prems(1) by (simp add: mn'_def)
    have "nat (b - (i + 1)) < nat (b - i)" "0 \<le> i + 1" using True less.prems by simp_all
    from less.hyps[OF this(1) bm this(2) less.prems(3)] obtain m where
      r: "min_scan lt d (i + 1) b mn' = Inr m" "inb d m"
      by blast
    have "min_scan lt d i b mn = Inr m"
      using True bi less.prems(1) r(1) by (subst min_scan.simps) (simp add: Less_ok mn'_def)
    then show ?thesis using r(2) by simp
  qed
qed

lemma max_scan_safe:
  "inb d mx \<Longrightarrow> 0 \<le> i \<Longrightarrow> b \<le> int (length d) \<Longrightarrow>
   \<exists>m. max_scan lt d i b mx = Inr m \<and> inb d m"
proof (induction "nat (b - i)" arbitrary: i mx rule: less_induct)
  case less
  show ?case
  proof (cases "i < b")
    case False
    then show ?thesis using less.prems(1) by (subst max_scan.simps) simp
  next
    case True
    have bi: "inb d i" using True less.prems by (auto simp: inb_def)
    define mx' where "mx' = (if lt (item d mx) (item d i) then i else mx)"
    have bm: "inb d mx'" using bi less.prems(1) by (simp add: mx'_def)
    have "nat (b - (i + 1)) < nat (b - i)" "0 \<le> i + 1" using True less.prems by simp_all
    from less.hyps[OF this(1) bm this(2) less.prems(3)] obtain m where
      r: "max_scan lt d (i + 1) b mx' = Inr m" "inb d m"
      by blast
    have "max_scan lt d i b mx = Inr m"
      using True bi less.prems(1) r(1) by (subst max_scan.simps) (simp add: Less_ok mx'_def)
    then show ?thesis using r(2) by simp
  qed
qed

lemma PDQSelect_fast_safe:
  assumes k: "k = 1 \<or> k = int (length S)"
  shows "\<exists>S'. PDQSelect lt cp S k = Some (Inr S')"
proof (cases "1 \<le> k \<and> k \<le> int (length S)")
  case False
  then show ?thesis by (auto simp: PDQSelect_def)
next
  case True
  define n where "n = int (length S)"
  have e: "PDQSelect lt cp S k = pdqselect lt cp S 0 n (k - 1) (bits_Len n)"
    unfolding PDQSelect_def n_def using True by (simp add: Let_def)
  have i0: "inb S 0" "inb S (n - 1)" using True by (auto simp: inb_def n_def)
  have le: "n \<le> int (length S)" by (simp add: n_def)
  show ?thesis
  proof (cases "k - 1 = 0")
    case k0: True
    from min_scan_safe[OF i0(1) _ le, of "0 + 1" lt] obtain m where
      m: "min_scan lt S (0 + 1) n 0 = Inr m" "inb S m"
      by auto
    then show ?thesis
      using e k0 i0 by (auto simp: pdqselect_def Swap_ok)
  next
    case k0: False
    then have kn: "k - 1 = n - 1" using k by (simp add: n_def)
    from max_scan_safe[OF i0(1) _ le, of "0 + 1" lt] obtain m where
      m: "max_scan lt S (0 + 1) n 0 = Inr m" "inb S m"
      by auto
    then show ?thesis
      using e k0 kn i0 by (auto simp: pdqselect_def Swap_ok)
  qed
qed

lemma FloydRivest_returns_asym:
  assumes asym: "\<forall>x y. lt x y \<longrightarrow> \<not> lt y x" and nok: "narrowing_ok est"
  shows "\<exists>S'. FloydRivest lt est S k = Some (Inr S')"
proof (cases "1 \<le> k \<and> k \<le> int (length S)")
  case False
  then show ?thesis by (auto simp: FloydRivest_def)
next
  case True
  have e: "FloydRivest lt est S k = floydRivest lt est S 0 (int (length S) - 1) (k - 1)"
    unfolding FloydRivest_def using True by (simp add: Let_def)
  from floydRivest_ok[OF asym nok, of 0 "int (length S) - 1" S "k - 1"] True
  show ?thesis unfolding e by auto
qed

section \<open>The claims\<close>

text \<open>
  C1. For a slice \<open>S\<close> of \<open>N\<close> items, a target \<open>1 \<le> k \<le> N\<close> and \<open>T\<close> the items of \<open>S\<close>
  in ascending order, each of the six entry points returns a slice \<open>S'\<close> with
  \<open>S'[k-1] = T[k-1]\<close>, the first \<open>k\<close> positions holding the \<open>k\<close> smallest items as a
  multiset, each at most \<open>T[k-1]\<close>, and every later position holding an item that is at
  least \<open>T[k-1]\<close> (\<open>selected\<close>). The \<open>Ordered\<close> shapes compare the items themselves; the
  \<open>Interface\<close> and \<open>Func\<close> shapes compare by a key \<open>f\<close> into a linear order, and the
  statement is about the keys. The pivot chooser of PDQSelect returns an index of the
  range (\<open>chooser_ok\<close>), the estimates of FloydRivest keep \<open>k\<close> inside a smaller interval
  (\<open>narrowing_ok\<close>), as the code's formulas do in exact arithmetic (\<open>narrowing\<close>).
\<close>

theorem selection_correct:
  fixes S :: "'a::linorder list" and f :: "'a \<Rightarrow> 'b::linorder"
  assumes cok: "chooser_ok cp" and nok: "narrowing_ok est"
    and k: "1 \<le> k" "k \<le> int (length S)"
  shows "(\<exists>S'. PDQSelect (\<lambda>x y. f x < f y) cp S k = Some (Inr S') \<and>
               selected (sort (map f S)) (map f S') k) \<and>
         (\<exists>S'. PDQSelectOrdered cp S k = Some (Inr S') \<and> selected (sort S) S' k) \<and>
         (\<exists>S'. PDQSelectFunc cp S k (\<lambda>x y. f x < f y) = Some (Inr S') \<and>
               selected (sort (map f S)) (map f S') k) \<and>
         (\<exists>S'. FloydRivest (\<lambda>x y. f x < f y) est S k = Some (Inr S') \<and>
               selected (sort (map f S)) (map f S') k) \<and>
         (\<exists>S'. FloydRivestOrdered est S k = Some (Inr S') \<and> selected (sort S) S' k) \<and>
         (\<exists>S'. FloydRivestFunc est S k (\<lambda>x y. f x < f y) = Some (Inr S') \<and>
               selected (sort (map f S)) (map f S') k)"
proof -
  have P: "\<exists>S'. PDQSelect (\<lambda>x y. f x < f y) cp S k = Some (Inr S') \<and>
               selected (sort (map f S)) (map f S') k"
    using PDQSelect_selected[OF cok k, of f] by blast
  have PO: "\<exists>S'. PDQSelect (<) cp S k = Some (Inr S') \<and> selected (sort S) S' k"
    using PDQSelect_selected_id[OF cok k] by blast
  have F: "\<exists>S'. FloydRivest (\<lambda>x y. f x < f y) est S k = Some (Inr S') \<and>
               selected (sort (map f S)) (map f S') k"
    using FloydRivest_selected[OF nok k, of f] by blast
  have FO: "\<exists>S'. FloydRivest (<) est S k = Some (Inr S') \<and> selected (sort S) S' k"
    using FloydRivest_selected_id[OF nok k] by blast
  show ?thesis
    unfolding PDQSelectOrdered_def PDQSelectFunc_def FloydRivestOrdered_def FloydRivestFunc_def
    using P PO F FO by blast
qed

theorem selection_correct_witness:
  "(\<exists>S'. PDQSelect (\<lambda>x y. - x < - y) (\<lambda>d a b. (a + (b - a) div 2, unknownHint))
            [5, 3, 4, 1, 2 :: int] 2 = Some (Inr S') \<and>
         selected (sort (map (\<lambda>x. - x) [5, 3, 4, 1, 2 :: int])) (map (\<lambda>x. - x) S') 2) \<and>
   (\<exists>S'. PDQSelectOrdered (\<lambda>d a b. (a + (b - a) div 2, unknownHint))
            [5, 3, 4, 1, 2 :: int] 2 = Some (Inr S') \<and>
         selected (sort [5, 3, 4, 1, 2 :: int]) S' 2) \<and>
   (\<exists>S'. PDQSelectFunc (\<lambda>d a b. (a + (b - a) div 2, unknownHint))
            [5, 3, 4, 1, 2 :: int] 2 (\<lambda>x y. - x < - y) = Some (Inr S') \<and>
         selected (sort (map (\<lambda>x. - x) [5, 3, 4, 1, 2 :: int])) (map (\<lambda>x. - x) S') 2) \<and>
   (\<exists>S'. FloydRivest (\<lambda>x y. - x < - y) narrowing
            [5, 3, 4, 1, 2 :: int] 2 = Some (Inr S') \<and>
         selected (sort (map (\<lambda>x. - x) [5, 3, 4, 1, 2 :: int])) (map (\<lambda>x. - x) S') 2) \<and>
   (\<exists>S'. FloydRivestOrdered narrowing [5, 3, 4, 1, 2 :: int] 2 = Some (Inr S') \<and>
         selected (sort [5, 3, 4, 1, 2 :: int]) S' 2) \<and>
   (\<exists>S'. FloydRivestFunc narrowing [5, 3, 4, 1, 2 :: int] 2 (\<lambda>x y. - x < - y)
            = Some (Inr S') \<and>
         selected (sort (map (\<lambda>x. - x) [5, 3, 4, 1, 2 :: int])) (map (\<lambda>x. - x) S') 2)"
proof -
  have h: "(1::int) \<le> 2" "(2::int) \<le> int (length [5, 3, 4, 1, 2 :: int])" by simp_all
  show ?thesis
    using selection_correct[OF chooser_ok_middle narrowing_ok_narrowing h, of "\<lambda>x. - x"]
    by simp
qed

text \<open>
  C2. For every target \<open>k\<close>, valid or not, each of the six entry points returns a slice
  with the multiset of items of the argument. The one operation that changes the slice
  is \<open>Swap\<close>, and a swap of two positions keeps the multiset.
\<close>

theorem multiset_preserved:
  fixes S :: "'a::linorder list" and f :: "'a \<Rightarrow> 'b::linorder"
  assumes cok: "chooser_ok cp" and nok: "narrowing_ok est"
  shows "(\<exists>S'. PDQSelect (\<lambda>x y. f x < f y) cp S k = Some (Inr S') \<and> mset S' = mset S) \<and>
         (\<exists>S'. PDQSelectOrdered cp S k = Some (Inr S') \<and> mset S' = mset S) \<and>
         (\<exists>S'. PDQSelectFunc cp S k (\<lambda>x y. f x < f y) = Some (Inr S') \<and> mset S' = mset S) \<and>
         (\<exists>S'. FloydRivest (\<lambda>x y. f x < f y) est S k = Some (Inr S') \<and> mset S' = mset S) \<and>
         (\<exists>S'. FloydRivestOrdered est S k = Some (Inr S') \<and> mset S' = mset S) \<and>
         (\<exists>S'. FloydRivestFunc est S k (\<lambda>x y. f x < f y) = Some (Inr S') \<and> mset S' = mset S) \<and>
         (\<forall>d i j d'. Swap (d :: 'a list) i j = Inr d' \<longrightarrow> mset d' = mset d)"
proof -
  have sw: "\<forall>d i j d'. Swap (d :: 'a list) i j = Inr d' \<longrightarrow> mset d' = mset d"
    by (auto simp: Swap_Inr mset_swp)
  show ?thesis
  proof (cases "1 \<le> k \<and> k \<le> int (length S)")
    case True
    then have k: "1 \<le> k" "k \<le> int (length S)" by auto
    have P: "\<exists>S'. PDQSelect (\<lambda>x y. f x < f y) cp S k = Some (Inr S') \<and> mset S' = mset S"
      using PDQSelect_selected[OF cok k, of f] by blast
    have PO: "\<exists>S'. PDQSelect (<) cp S k = Some (Inr S') \<and> mset S' = mset S"
      using PDQSelect_selected_id[OF cok k] by blast
    have F: "\<exists>S'. FloydRivest (\<lambda>x y. f x < f y) est S k = Some (Inr S') \<and> mset S' = mset S"
      using FloydRivest_selected[OF nok k, of f] by blast
    have FO: "\<exists>S'. FloydRivest (<) est S k = Some (Inr S') \<and> mset S' = mset S"
      using FloydRivest_selected_id[OF nok k] by blast
    show ?thesis
      unfolding PDQSelectOrdered_def PDQSelectFunc_def FloydRivestOrdered_def FloydRivestFunc_def
      using P PO F FO sw by blast
  next
    case False
    then have "\<And>lt. PDQSelect lt cp S k = Some (Inr S)"
      "\<And>lt. FloydRivest lt est S k = Some (Inr S)"
      by (auto simp: PDQSelect_def FloydRivest_def)
    then show ?thesis
      unfolding PDQSelectOrdered_def PDQSelectFunc_def FloydRivestOrdered_def FloydRivestFunc_def
      using sw by simp
  qed
qed

theorem multiset_preserved_witness:
  "(\<exists>S'. PDQSelect (\<lambda>x y. - x < - y) (\<lambda>d a b. (a + (b - a) div 2, unknownHint))
            [5, 3, 3, 1, 5 :: int] 4 = Some (Inr S') \<and> mset S' = mset [5, 3, 3, 1, 5]) \<and>
   (\<exists>S'. PDQSelectOrdered (\<lambda>d a b. (a + (b - a) div 2, unknownHint))
            [5, 3, 3, 1, 5 :: int] 4 = Some (Inr S') \<and> mset S' = mset [5, 3, 3, 1, 5]) \<and>
   (\<exists>S'. PDQSelectFunc (\<lambda>d a b. (a + (b - a) div 2, unknownHint))
            [5, 3, 3, 1, 5 :: int] 4 (\<lambda>x y. - x < - y) = Some (Inr S') \<and>
         mset S' = mset [5, 3, 3, 1, 5]) \<and>
   (\<exists>S'. FloydRivest (\<lambda>x y. - x < - y) narrowing
            [5, 3, 3, 1, 5 :: int] 4 = Some (Inr S') \<and> mset S' = mset [5, 3, 3, 1, 5]) \<and>
   (\<exists>S'. FloydRivestOrdered narrowing [5, 3, 3, 1, 5 :: int] 4 = Some (Inr S') \<and>
         mset S' = mset [5, 3, 3, 1, 5]) \<and>
   (\<exists>S'. FloydRivestFunc narrowing [5, 3, 3, 1, 5 :: int] 4 (\<lambda>x y. - x < - y)
            = Some (Inr S') \<and> mset S' = mset [5, 3, 3, 1, 5]) \<and>
   Swap [5, 3, 3, 1, 5 :: int] 0 3 = Inr [1, 3, 3, 5, 5] \<and>
   mset [1, 3, 3, 5, 5 :: int] = mset [5, 3, 3, 1, 5]"
proof -
  have s: "Swap [5, 3, 3, 1, 5 :: int] 0 3 = Inr [1, 3, 3, 5, 5]"
    by (simp add: Swap_def inb_def swp_def)
  show ?thesis
    using multiset_preserved[OF chooser_ok_middle narrowing_ok_narrowing,
        of "\<lambda>x. - x" "[5, 3, 3, 1, 5 :: int]" 4] s
    by blast
qed

text \<open>
  C3. With \<open>k < 1\<close> or \<open>k > N\<close> each of the six entry points returns the slice as it
  was, without a panic, for every comparison; so it does for one item and \<open>k = 1\<close>.
\<close>

theorem invalid_target_noop:
  fixes S :: "'a::linorder list"
  shows "(k < 1 \<or> k > int (length S) \<or> (length S = 1 \<and> k = 1) \<longrightarrow>
          PDQSelect lt cp S k = Some (Inr S) \<and>
          PDQSelectOrdered cp S k = Some (Inr S) \<and>
          PDQSelectFunc cp S k lt = Some (Inr S) \<and>
          FloydRivest lt est S k = Some (Inr S) \<and>
          FloydRivestOrdered est S k = Some (Inr S) \<and>
          FloydRivestFunc est S k lt = Some (Inr S))"
proof (intro impI)
  assume h: "k < 1 \<or> k > int (length S) \<or> (length S = 1 \<and> k = 1)"
  have "PDQSelect lt' cp S k = Some (Inr S) \<and> FloydRivest lt' est S k = Some (Inr S)"
    for lt' :: "'a \<Rightarrow> 'a \<Rightarrow> bool"
  proof (cases "k < 1 \<or> k > int (length S)")
    case True
    then show ?thesis by (auto simp: PDQSelect_def FloydRivest_def)
  next
    case False
    then have e: "length S = 1" "k = 1" using h by auto
    have "min_scan lt' S 1 1 0 = Inr 0" by (subst min_scan.simps) simp
    then have "PDQSelect lt' cp S k = Some (Inr S)"
      using e by (simp add: PDQSelect_def pdqselect_def)
    moreover have "FloydRivest lt' est S k = Some (Inr S)"
      using e by (simp add: FloydRivest_def floydRivest.simps)
    ultimately show ?thesis by simp
  qed
  then show "PDQSelect lt cp S k = Some (Inr S) \<and>
          PDQSelectOrdered cp S k = Some (Inr S) \<and>
          PDQSelectFunc cp S k lt = Some (Inr S) \<and>
          FloydRivest lt est S k = Some (Inr S) \<and>
          FloydRivestOrdered est S k = Some (Inr S) \<and>
          FloydRivestFunc est S k lt = Some (Inr S)"
    unfolding PDQSelectOrdered_def PDQSelectFunc_def FloydRivestOrdered_def FloydRivestFunc_def
    by simp
qed

theorem invalid_target_noop_witness:
  "PDQSelect (\<lambda>x y. True) (\<lambda>d a b. (7, unknownHint)) [3, 1, 2 :: int] 0 = Some (Inr [3, 1, 2]) \<and>
   PDQSelectOrdered (\<lambda>d a b. (7, unknownHint)) [3, 1, 2 :: int] 0 = Some (Inr [3, 1, 2]) \<and>
   PDQSelectFunc (\<lambda>d a b. (7, unknownHint)) [3, 1, 2 :: int] 0 (\<lambda>x y. True) = Some (Inr [3, 1, 2]) \<and>
   FloydRivest (\<lambda>x y. True) (\<lambda>l r k. (0, 0)) [3, 1, 2 :: int] 0 = Some (Inr [3, 1, 2]) \<and>
   FloydRivestOrdered (\<lambda>l r k. (0, 0)) [3, 1, 2 :: int] 0 = Some (Inr [3, 1, 2]) \<and>
   FloydRivestFunc (\<lambda>l r k. (0, 0)) [3, 1, 2 :: int] 0 (\<lambda>x y. True) = Some (Inr [3, 1, 2]) \<and>
   PDQSelect (\<lambda>x y. True) (\<lambda>d a b. (7, unknownHint)) [3, 1, 2 :: int] 4 = Some (Inr [3, 1, 2]) \<and>
   FloydRivest (\<lambda>x y. True) (\<lambda>l r k. (0, 0)) [3, 1, 2 :: int] 4 = Some (Inr [3, 1, 2]) \<and>
   PDQSelect (\<lambda>x y. True) (\<lambda>d a b. (7, unknownHint)) [9 :: int] 1 = Some (Inr [9]) \<and>
   FloydRivest (\<lambda>x y. True) (\<lambda>l r k. (0, 0)) [9 :: int] 1 = Some (Inr [9]) \<and>
   PDQSelect (\<lambda>x y. True) (\<lambda>d a b. (7, unknownHint)) ([] :: int list) 1 = Some (Inr []) \<and>
   FloydRivest (\<lambda>x y. True) (\<lambda>l r k. (0, 0)) ([] :: int list) 1 = Some (Inr [])"
  using invalid_target_noop[of 0 "[3, 1, 2 :: int]" "\<lambda>x y. True" "\<lambda>d a b. (7, unknownHint)" "\<lambda>l r k. (0, 0)"]
    invalid_target_noop[of 4 "[3, 1, 2 :: int]" "\<lambda>x y. True" "\<lambda>d a b. (7, unknownHint)" "\<lambda>l r k. (0, 0)"]
    invalid_target_noop[of 1 "[9 :: int]" "\<lambda>x y. True" "\<lambda>d a b. (7, unknownHint)" "\<lambda>l r k. (0, 0)"]
    invalid_target_noop[of 1 "[] :: int list" "\<lambda>x y. True" "\<lambda>d a b. (7, unknownHint)" "\<lambda>l r k. (0, 0)"]
  by simp

text \<open>
  C4. \<open>heapSelect\<close> does not take the position of the target: on the range \<open>[2, 6)\<close>
  with 3 as last argument it leaves at position 3 the item 3, where the second smallest
  item of the range is 2. It builds the heap over all four items of the range (\<open>hi =
  3 + 1\<close>) and puts its root, the fourth smallest, at position \<open>2 + 3\<close>.
\<close>

theorem heapSelect_absolute_counterexample:
  "heapSelect (<) [9, 5, 4, 3, 2, 1, 0 :: int] 2 6 3 = Inr [9, 5, 1, 3, 2, 4, 0] \<and>
   sort (slice [9, 5, 4, 3, 2, 1, 0 :: int] 2 6) ! nat (3 - 2) = 2 \<and>
   item [9, 5, 1, 3, 2, 4, 0 :: int] 3 = 3"
  by (simp add: heapSelect_def heapSelect_build.simps heapSelect_scan.simps siftDown.simps
      quot_def Swap_def Less_def inb_def swp_def item_def slice_def Let_def)

text \<open>
  C4, amended. The last argument \<open>k\<close> of \<open>heapSelect\<close> is the target counted from \<open>a\<close>,
  \<open>0 \<le> k < b - a\<close>. The heap has the \<open>hi = k + 1\<close> items at \<open>[a, a + hi)\<close>, the scan
  goes over the rest of \<open>[a, b)\<close>, the final swap is of \<open>a\<close> and \<open>a + k\<close>. On return the
  \<open>(k+1)\<close>-th smallest item of the range is at position \<open>a + k\<close>, the items of the range
  before it are not larger and those after it not smaller (\<open>selected\<close> on the range), and
  the slice is the same outside the range. The comparison goes by a key \<open>f\<close> into a
  linear order.
\<close>

theorem heapSelect_relative:
  fixes f :: "'a \<Rightarrow> 'b::linorder"
  assumes b: "0 \<le> a" "0 \<le> k" "a + k < b" "b \<le> int (length d)"
  shows "\<exists>d'. heapSelect (\<lambda>x y. f x < f y) d a b k = Inr d' \<and>
           f (item d' (a + k)) = sort (map f (slice d a b)) ! nat k \<and>
           selected (sort (map f (slice d a b))) (map f (slice d' a b)) (k + 1) \<and>
           mset (slice d' a b) = mset (slice d a b) \<and>
           (\<forall>x. inb d x \<and> (x < a \<or> b \<le> x) \<longrightarrow> item d' x = item d x)"
proof -
  from heapSelect_ok[OF key_order b, of f] obtain d' where
    r: "heapSelect (\<lambda>x y. f x < f y) d a b k = Inr d'" "perm_in a b d d'"
       "\<forall>x. a \<le> x \<and> x < a + k \<longrightarrow> \<not> f (item d' (a + k)) < f (item d' x)"
       "\<forall>x. a + k < x \<and> x < b \<longrightarrow> \<not> f (item d' x) < f (item d' (a + k))"
    by blast
  have ab: "a \<le> b" using b by simp
  have len: "length d' = length d" using perm_in_length[OF r(2)] .
  have b': "b \<le> int (length d')" using b len by simp
  have m: "mset (slice d' a b) = mset (slice d a b)"
    using perm_in_slice[OF r(2) b(1) ab b(4)] .
  have s: "sel (\<lambda>x y. f x < f y) (slice d' a b) k"
    using sel_slice[OF b(1,2,3) b', of "\<lambda>x y. f x < f y"] r(3,4) by simp
  have k1: "1 \<le> k + 1" "k + 1 \<le> int (length (slice d a b))"
    using b by (simp_all add: length_slice)
  have s': "sel (\<lambda>x y. f x < f y) (slice d' a b) (k + 1 - 1)" using s by simp
  have S: "selected (sort (map f (slice d a b))) (map f (slice d' a b)) (k + 1)"
    using sel_selected[OF m s' k1] .
  have lk: "nat k < length (slice d' a b)" using b b' by (simp add: length_slice)
  have "map f (slice d' a b) ! nat k = sort (map f (slice d a b)) ! nat k"
    using S by (simp add: selected_def)
  then have "f (item (slice d' a b) k) = sort (map f (slice d a b)) ! nat k"
    using lk by (simp add: item_def)
  then have A: "f (item d' (a + k)) = sort (map f (slice d a b)) ! nat k"
    using b b' by (simp add: at_slice)
  have O: "\<forall>x. inb d x \<and> (x < a \<or> b \<le> x) \<longrightarrow> item d' x = item d x"
    using perm_in_outside[OF r(2)] by blast
  show ?thesis using r(1) A S m O by blast
qed

theorem heapSelect_relative_witness:
  "\<exists>d'. heapSelect (\<lambda>x y. - x < - y) [9, 5, 4, 3, 2, 1, 0 :: int] 2 6 1 = Inr d' \<and>
     - (item d' (2 + 1)) = sort (map (\<lambda>x. - x) (slice [9, 5, 4, 3, 2, 1, 0 :: int] 2 6)) ! nat 1 \<and>
     selected (sort (map (\<lambda>x. - x) (slice [9, 5, 4, 3, 2, 1, 0 :: int] 2 6)))
        (map (\<lambda>x. - x) (slice d' 2 6)) (1 + 1) \<and>
     mset (slice d' 2 6) = mset (slice [9, 5, 4, 3, 2, 1, 0 :: int] 2 6) \<and>
     item d' 0 = item [9, 5, 4, 3, 2, 1, 0 :: int] 0 \<and>
     item d' 6 = item [9, 5, 4, 3, 2, 1, 0 :: int] 6"
proof -
  have h: "(0::int) \<le> 2" "(0::int) \<le> 1" "(2::int) + 1 < 6"
    "(6::int) \<le> int (length [9, 5, 4, 3, 2, 1, 0 :: int])" by simp_all
  have i: "inb [9, 5, 4, 3, 2, 1, 0 :: int] 0" "inb [9, 5, 4, 3, 2, 1, 0 :: int] 6"
    by (simp_all add: inb_def)
  show ?thesis
    using heapSelect_relative[OF h, of "\<lambda>x. - x"] i by fastforce
qed

text \<open>
  C5. An iteration of the loop of \<open>pdqselect\<close> on \<open>[a, b)\<close> with target \<open>k\<close> that gets
  past the insertion sort and the probe for a sorted range, with \<open>a > 0\<close> and the item at
  \<open>a - 1\<close> not less than the item at the pivot: \<open>partitionEqual\<close> returns \<open>mid\<close> with the
  items of \<open>[a, mid)\<close> equal to the pivot (neither less nor greater) and those of
  \<open>[mid, b)\<close> greater. With \<open>k < mid\<close> the loop returns, and position \<open>k\<close> holds the
  selected item; otherwise the loop goes on with \<open>a = mid\<close>, the invariant of the loop
  (\<open>pdq_inv\<close>) holds again, and the loop returns with the selected item at \<open>k\<close>.
\<close>

theorem partitionEqual_fast_path:
  assumes asym: "\<forall>x y. lt x y \<longrightarrow> \<not> lt y x"
    and ntr: "\<forall>x y z. \<not> lt x y \<longrightarrow> \<not> lt y z \<longrightarrow> \<not> lt x z"
    and cok: "chooser_ok cp"
    and inv: "pdq_inv lt d a b k limit wb"
    and big: "maxInsertion < b - a"
    and pv: "pdqselect_pivot lt cp d a b limit wb wp = Inr (d3, limit1, pivot, False)"
    and a0: "0 < a"
    and prev3: "\<not> lt (item d3 (a - 1)) (item d3 pivot)"
  shows "\<exists>d4 mid. partitionEqual lt d3 a b pivot = Inr (d4, mid) \<and> a < mid \<and> mid \<le> b \<and>
           perm_in a b d d4 \<and>
           (\<forall>x. a \<le> x \<and> x < mid \<longrightarrow>
              \<not> lt (item d4 x) (item d3 pivot) \<and> \<not> lt (item d3 pivot) (item d4 x)) \<and>
           (\<forall>x. mid \<le> x \<and> x < b \<longrightarrow> lt (item d3 pivot) (item d4 x)) \<and>
           (k < mid \<longrightarrow>
              pdqselect_iter lt cp d a b k limit wb wp = Inr (Done d4) \<and>
              pdqselect_loop lt cp d a b k limit wb wp = Some (Inr d4) \<and> sel lt d4 k) \<and>
           (mid \<le> k \<longrightarrow>
              pdqselect_iter lt cp d a b k limit wb wp = Inr (Again d4 mid b limit1 wb wp) \<and>
              pdq_inv lt d4 mid b k limit1 wb \<and>
              (\<exists>d'. pdqselect_loop lt cp d a b k limit wb wp = Some (Inr d') \<and>
                    perm_in a b d d' \<and> sel lt d' k))"
proof -
  from inv have f: "0 \<le> a" "a \<le> k" "k < b" "b \<le> int (length d)"
      "split_at lt d a" "split_at lt d b" "lim_ok (b - a) limit wb (above_prev lt d a b)"
    by (auto simp: pdq_inv_def)
  have big': "12 < b - a" using big by (simp add: maxInsertion_def)
  have nb: "\<not> b - a \<le> maxInsertion" using big by simp
  have nz: "limit \<noteq> 0" using lim_ok_nonzero[OF f(7)] big' by simp
  from pdqselect_pivot_ok[OF asym cok f(1) _ f(4), where limit=limit and wb=wb and wp=wp] big'
  obtain d3' pivot' s' where
    pv': "pdqselect_pivot lt cp d a b limit wb wp =
            Inr (d3', (if wb then limit else limit - 1), pivot', s')"
         "perm_in a b d d3'" "a \<le> pivot'" "pivot' < b"
    by auto
  have eqs: "d3' = d3" "limit1 = (if wb then limit else limit - 1)" "pivot' = pivot"
    using pv pv'(1) by auto
  have p3: "perm_in a b d d3" and pr: "a \<le> pivot" "pivot < b" using pv'(2,3,4) eqs by auto
  have len3: "length d3 = length d" using perm_in_length[OF p3] .
  have b3: "b \<le> int (length d3)" using f(4) len3 by simp
  have s3: "split_at lt d3 a" "split_at lt d3 b"
    using split_at_perm[OF p3 f(1,4) _ f(5)] split_at_perm[OF p3 f(1,4) _ f(6)]
    by auto
  have bp: "inb d3 pivot" using pr f(1) b3 by (auto simp: inb_def)
  have ba: "inb d3 (a - 1)" using a0 big' b3 by (auto simp: inb_def)
  have lessc: "(if a > 0 then Less lt d3 (a - 1) pivot else Inr True) = Inr False"
    using bp ba a0 prev3 by (simp add: Less_ok)
  from partitionEqual_ok[OF asym f(1) pr b3] obtain d4 mid where
    pe: "partitionEqual lt d3 a b pivot = Inr (d4, mid)" "a < mid" "mid \<le> b"
        "perm_in a b d3 d4"
        "\<forall>x. a \<le> x \<and> x < mid \<longrightarrow> \<not> lt (item d3 pivot) (item d4 x)"
        "\<forall>x. mid \<le> x \<and> x < b \<longrightarrow> lt (item d3 pivot) (item d4 x)"
    by blast
  have len4: "length d4 = length d" using perm_in_length[OF pe(4)] len3 by simp
  have b4: "b \<le> int (length d4)" using f(4) len4 by simp
  have s4: "split_at lt d4 a" "split_at lt d4 b"
    using split_at_perm[OF pe(4) f(1) b3 _ s3(1)] split_at_perm[OF pe(4) f(1) b3 _ s3(2)]
    by auto
  have p4: "perm_in a b d d4" using perm_in_trans[OF pe(4) p3] .
  have "item d4 (a - 1) = item d3 (a - 1)"
    using perm_in_outside[OF pe(4), of "a - 1"] ba by auto
  then have prev: "\<not> lt (item d4 (a - 1)) (item d3 pivot)"
    using prev3 by simp
  note er = equal_run_props[OF asym ntr a0 pe(2,3) b4 s4 prev pe(5,6)]
  have eq: "\<forall>x. a \<le> x \<and> x < mid \<longrightarrow>
              \<not> lt (item d4 x) (item d3 pivot) \<and> \<not> lt (item d3 pivot) (item d4 x)"
  proof (intro allI impI)
    fix x assume x: "a \<le> x \<and> x < mid"
    have "\<not> lt (item d4 x) (item d4 (a - 1))"
      using s4(1) x a0 pe(3) b4 unfolding split_at_def by auto
    then have "\<not> lt (item d4 x) (item d3 pivot)" using prev ntr by blast
    then show "\<not> lt (item d4 x) (item d3 pivot) \<and> \<not> lt (item d3 pivot) (item d4 x)"
      using pe(5) x by blast
  qed
  have A: "pdqselect_iter lt cp d a b k limit wb wp = Inr (Done d4) \<and>
           pdqselect_loop lt cp d a b k limit wb wp = Some (Inr d4) \<and> sel lt d4 k"
    if km: "k < mid"
  proof -
    have i: "pdqselect_iter lt cp d a b k limit wb wp = Inr (Done d4)"
      unfolding pdqselect_iter_def
      using nb nz pv lessc a0 pe(1) km by simp
    have "pdqselect_loop lt cp d a b k limit wb wp = Some (Inr d4)"
      using i by (subst pdqselect_loop.simps) simp
    then show ?thesis using i er(1)[OF f(2) km] by simp
  qed
  have B: "pdqselect_iter lt cp d a b k limit wb wp = Inr (Again d4 mid b limit1 wb wp) \<and>
           pdq_inv lt d4 mid b k limit1 wb \<and>
           (\<exists>d'. pdqselect_loop lt cp d a b k limit wb wp = Some (Inr d') \<and>
                 perm_in a b d d' \<and> sel lt d' k)"
    if km: "mid \<le> k"
  proof -
    have i: "pdqselect_iter lt cp d a b k limit wb wp = Inr (Again d4 mid b limit1 wb wp)"
      unfolding pdqselect_iter_def
      using nb nz pv lessc a0 pe(1) km by simp
    have nab: "\<not> above_prev lt d a b"
    proof
      assume "above_prev lt d a b"
      from above_prev_perm[OF p3 f(4) _ this] f
      have "above_prev lt d3 a b" by auto
      then have "lt (item d3 (a - 1)) (item d3 pivot)"
        using a0 pr by (auto simp: above_prev_def)
      then show False using prev3 by simp
    qed
    have "lim_ok (b - mid) limit1 wb True"
      unfolding eqs(2)
      using lim_ok_equal[of "b - a" limit wb "b - mid"] f(7) nab nz pe(2) by auto
    then have inv': "pdq_inv lt d4 mid b k limit1 wb"
      unfolding pdq_inv_def using er(2,3) s4(2) km f(3) b4 pe(2) a0 by auto
    from pdqselect_loop_ok[OF asym ntr cok inv', of wp] obtain d' where
      r: "pdqselect_loop lt cp d4 mid b k limit1 wb wp = Some (Inr d')"
         "perm_in mid b d4 d'" "sel lt d' k"
      by blast
    have l: "pdqselect_loop lt cp d a b k limit wb wp = Some (Inr d')"
      using i r(1) by (subst pdqselect_loop.simps) simp
    have "perm_in a b d4 d'" using perm_in_mono[OF r(2), of a b] pe(2) by simp
    then have "perm_in a b d d'" using perm_in_trans p4 by blast
    then show ?thesis using i inv' l r(3) by blast
  qed
  show ?thesis using pe(1,2,3,6) p4 eq A B by blast
qed

theorem partitionEqual_fast_path_witness:
  "\<exists>d4 mid. partitionEqual (<) [2, 5, 2, 4, 2, 3, 2, 2, 9, 2, 7, 2, 8, 2 :: int] 1 14 7 = Inr (d4, mid) \<and>
     1 < mid \<and> mid \<le> 14 \<and>
     perm_in 1 14 [2, 5, 2, 4, 2, 3, 2, 2, 9, 2, 7, 2, 8, 2 :: int] d4 \<and>
     (\<forall>x. 1 \<le> x \<and> x < mid \<longrightarrow>
        \<not> item d4 x < item [2, 5, 2, 4, 2, 3, 2, 2, 9, 2, 7, 2, 8, 2 :: int] 7 \<and>
        \<not> item [2, 5, 2, 4, 2, 3, 2, 2, 9, 2, 7, 2, 8, 2 :: int] 7 < item d4 x) \<and>
     (\<forall>x. mid \<le> x \<and> x < 14 \<longrightarrow> item [2, 5, 2, 4, 2, 3, 2, 2, 9, 2, 7, 2, 8, 2 :: int] 7 < item d4 x) \<and>
     (5 < mid \<longrightarrow>
        pdqselect_iter (<) (\<lambda>d a b. (a + (b - a) div 2, unknownHint))
          [2, 5, 2, 4, 2, 3, 2, 2, 9, 2, 7, 2, 8, 2 :: int] 1 14 5 4 True True = Inr (Done d4) \<and>
        pdqselect_loop (<) (\<lambda>d a b. (a + (b - a) div 2, unknownHint))
          [2, 5, 2, 4, 2, 3, 2, 2, 9, 2, 7, 2, 8, 2 :: int] 1 14 5 4 True True = Some (Inr d4) \<and> sel (<) d4 5) \<and>
     (mid \<le> 5 \<longrightarrow>
        pdqselect_iter (<) (\<lambda>d a b. (a + (b - a) div 2, unknownHint))
          [2, 5, 2, 4, 2, 3, 2, 2, 9, 2, 7, 2, 8, 2 :: int] 1 14 5 4 True True = Inr (Again d4 mid 14 4 True True) \<and>
        pdq_inv (<) d4 mid 14 5 4 True \<and>
        (\<exists>d'. pdqselect_loop (<) (\<lambda>d a b. (a + (b - a) div 2, unknownHint))
          [2, 5, 2, 4, 2, 3, 2, 2, 9, 2, 7, 2, 8, 2 :: int] 1 14 5 4 True True = Some (Inr d') \<and>
              perm_in 1 14 [2, 5, 2, 4, 2, 3, 2, 2, 9, 2, 7, 2, 8, 2 :: int] d' \<and> sel (<) d' 5))"
proof -
  have h1: "\<forall>x y :: int. x < y \<longrightarrow> \<not> y < x" by simp
  have h2: "\<forall>x y z :: int. \<not> x < y \<longrightarrow> \<not> y < z \<longrightarrow> \<not> x < z" by simp
  have s1: "split_at (<) [2, 5, 2, 4, 2, 3, 2, 2, 9, 2, 7, 2, 8, 2 :: int] 1"
    unfolding split_at_def
  proof (intro allI impI)
    fix x y :: int
    assume a: "0 \<le> x \<and> x < 1 \<and> 1 \<le> y \<and> y < int (length [2, 5, 2, 4, 2, 3, 2, 2, 9, 2, 7, 2, 8, 2 :: int])"
    then have x: "x = 0" and "1 \<le> y \<and> y < 14" by simp_all
    then have "y = 1 \<or> y = 2 \<or> y = 3 \<or> y = 4 \<or> y = 5 \<or> y = 6 \<or> y = 7 \<or> y = 8 \<or>
        y = 9 \<or> y = 10 \<or> y = 11 \<or> y = 12 \<or> y = 13"
      by presburger
    with x show "\<not> item [2, 5, 2, 4, 2, 3, 2, 2, 9, 2, 7, 2, 8, 2 :: int] y < item [2, 5, 2, 4, 2, 3, 2, 2, 9, 2, 7, 2, 8, 2 :: int] x"
      by (auto simp: item_def)
  qed
  have s2: "split_at (<) [2, 5, 2, 4, 2, 3, 2, 2, 9, 2, 7, 2, 8, 2 :: int] 14" by (simp add: split_at_def)
  have h3: "pdq_inv (<) [2, 5, 2, 4, 2, 3, 2, 2, 9, 2, 7, 2, 8, 2 :: int] 1 14 5 4 True"
    using s1 s2 by (simp add: pdq_inv_def lim_ok_def)
  have h4: "maxInsertion < 14 - 1" by (simp add: maxInsertion_def)
  have h5: "pdqselect_pivot (<) (\<lambda>d a b. (a + (b - a) div 2, unknownHint))
        [2, 5, 2, 4, 2, 3, 2, 2, 9, 2, 7, 2, 8, 2 :: int] 1 14 4 True True =
      Inr ([2, 5, 2, 4, 2, 3, 2, 2, 9, 2, 7, 2, 8, 2 :: int], 4, 7, False)"
    by (simp add: pdqselect_pivot_def)
  have h6: "(0::int) < 1" by simp
  have h7: "\<not> item [2, 5, 2, 4, 2, 3, 2, 2, 9, 2, 7, 2, 8, 2 :: int] (1 - 1) < item [2, 5, 2, 4, 2, 3, 2, 2, 9, 2, 7, 2, 8, 2 :: int] 7" by (simp add: item_def)
  show ?thesis
    using partitionEqual_fast_path[OF h1 h2 chooser_ok_middle h3 h4 h5 h6 h7] by simp
qed

text \<open>
  C6. The entry of \<open>pdqselect\<close> on the range \<open>[a, b)\<close> with target \<open>t\<close>, for a strict weak
  order. Every call of \<open>pdqselect\<close> passes \<open>a = 0\<close> (the loop never calls it), and with
  \<open>a = 0\<close> the code's test \<open>k == 0\<close> is \<open>t == a\<close>. With target \<open>a\<close>, \<open>pdqselect\<close> returns the
  slice with the minimum of the range, found by the linear scan, swapped to position \<open>a\<close>;
  with target \<open>b - 1\<close> it returns the slice with the maximum of the range swapped to
  position \<open>b - 1\<close>. In both cases the result is a permutation within the range, and the
  target position holds the selected item (\<open>sel\<close>) when no item before the range is
  greater than one from \<open>a\<close> on and no item from \<open>b\<close> on is smaller than an earlier one, as
  it is for the whole slice.
\<close>

theorem pdqselect_fast_paths:
  assumes asym: "\<forall>x y. lt x y \<longrightarrow> \<not> lt y x"
    and ntr: "\<forall>x y z. \<not> lt x y \<longrightarrow> \<not> lt y z \<longrightarrow> \<not> lt x z"
    and b: "0 \<le> a" "a < b" "b \<le> int (length d)"
    and sa: "split_at lt d a" and sb: "split_at lt d b"
  shows "(a = 0 \<longrightarrow>
           (\<exists>mn. min_scan lt d (a + 1) b a = Inr mn \<and> a \<le> mn \<and> mn < b \<and>
              (\<forall>x. a \<le> x \<and> x < b \<longrightarrow> \<not> lt (item d x) (item d mn)) \<and>
              pdqselect lt cp d a b a limit = Some (Inr (swp d mn a)) \<and>
              perm_in a b d (swp d mn a) \<and> sel lt (swp d mn a) a)) \<and>
         (\<exists>mx. max_scan lt d (a + 1) b a = Inr mx \<and> a \<le> mx \<and> mx < b \<and>
              (\<forall>x. a \<le> x \<and> x < b \<longrightarrow> \<not> lt (item d mx) (item d x)) \<and>
              pdqselect lt cp d a b (b - 1) limit = Some (Inr (swp d mx (b - 1))) \<and>
              perm_in a b d (swp d mx (b - 1)) \<and> sel lt (swp d mx (b - 1)) (b - 1))"
proof -
  have irr: "\<And>x. \<not> lt x x" using asym by blast
  have splits: "split_at lt d' a \<and> split_at lt d' b \<and> b \<le> int (length d')"
    if "perm_in a b d d'" for d'
    using split_at_perm[OF that b(1,3) _ sa] split_at_perm[OF that b(1,3) _ sb]
      perm_in_length[OF that] b by auto
  have A: "\<exists>mn. min_scan lt d (a + 1) b a = Inr mn \<and> a \<le> mn \<and> mn < b \<and>
              (\<forall>x. a \<le> x \<and> x < b \<longrightarrow> \<not> lt (item d x) (item d mn)) \<and>
              pdqselect lt cp d a b a limit = Some (Inr (swp d mn a)) \<and>
              perm_in a b d (swp d mn a) \<and> sel lt (swp d mn a) a" if a0: "a = 0"
  proof -
    from pdqselect_min_ok[OF asym ntr b, of cp limit] obtain mn where
      m: "min_scan lt d (a + 1) b a = Inr mn" "a \<le> mn" "mn < b"
         "\<forall>x. a \<le> x \<and> x < b \<longrightarrow> \<not> lt (item d x) (item d mn)"
         "pdqselect lt cp d a b 0 limit = Some (Inr (swp d mn a))"
         "perm_in a b d (swp d mn a)"
         "\<forall>x. a \<le> x \<and> x < b \<longrightarrow> \<not> lt (item (swp d mn a) x) (item (swp d mn a) a)"
      by blast
    have s: "split_at lt (swp d mn a) a" "split_at lt (swp d mn a) b"
      "b \<le> int (length (swp d mn a))"
      using splits[OF m(6)] by auto
    have lo: "\<forall>x. a \<le> x \<and> x < a \<longrightarrow> \<not> lt (item (swp d mn a) a) (item (swp d mn a) x)"
      by auto
    have hi: "\<forall>x. a < x \<and> x < b \<longrightarrow> \<not> lt (item (swp d mn a) x) (item (swp d mn a) a)"
      using m(7) by auto
    have le: "a \<le> a" by simp
    have "sel lt (swp d mn a) a"
      using sel_from_range[OF s(1,2) le b(2,1) s(3) lo hi] .
    then show ?thesis using m a0 by auto
  qed
  have B: "\<exists>mx. max_scan lt d (a + 1) b a = Inr mx \<and> a \<le> mx \<and> mx < b \<and>
              (\<forall>x. a \<le> x \<and> x < b \<longrightarrow> \<not> lt (item d mx) (item d x)) \<and>
              pdqselect lt cp d a b (b - 1) limit = Some (Inr (swp d mx (b - 1))) \<and>
              perm_in a b d (swp d mx (b - 1)) \<and> sel lt (swp d mx (b - 1)) (b - 1)"
  proof (cases "b - 1 = 0")
    case False
    from pdqselect_max_ok[OF asym ntr b False, of cp limit] obtain mx where
      m: "max_scan lt d (a + 1) b a = Inr mx" "a \<le> mx" "mx < b"
         "\<forall>x. a \<le> x \<and> x < b \<longrightarrow> \<not> lt (item d mx) (item d x)"
         "pdqselect lt cp d a b (b - 1) limit = Some (Inr (swp d mx (b - 1)))"
         "perm_in a b d (swp d mx (b - 1))"
         "\<forall>x. a \<le> x \<and> x < b \<longrightarrow>
            \<not> lt (item (swp d mx (b - 1)) (b - 1)) (item (swp d mx (b - 1)) x)"
      by blast
    have s: "split_at lt (swp d mx (b - 1)) a" "split_at lt (swp d mx (b - 1)) b"
      "b \<le> int (length (swp d mx (b - 1)))"
      using splits[OF m(6)] by auto
    have lo: "\<forall>x. a \<le> x \<and> x < b - 1 \<longrightarrow>
        \<not> lt (item (swp d mx (b - 1)) (b - 1)) (item (swp d mx (b - 1)) x)"
      using m(7) by auto
    have hi: "\<forall>x. b - 1 < x \<and> x < b \<longrightarrow>
        \<not> lt (item (swp d mx (b - 1)) x) (item (swp d mx (b - 1)) (b - 1))"
      by auto
    have le: "a \<le> b - 1" "b - 1 < b" using b by simp_all
    have "sel lt (swp d mx (b - 1)) (b - 1)"
      using sel_from_range[OF s(1,2) le b(1) s(3) lo hi] .
    then show ?thesis using m by blast
  next
    case True
    then have e: "a = 0" "b = 1" using b by auto
    have i0: "inb d 0" using b e by (cases d) (auto simp: inb_def)
    have mn: "min_scan lt d 1 1 0 = Inr 0" by (subst min_scan.simps) simp
    have mx: "max_scan lt d 1 1 0 = Inr 0" by (subst max_scan.simps) simp
    have r: "pdqselect lt cp d 0 1 0 limit = Some (Inr d)"
      using mn by (simp add: pdqselect_def)
    have lo: "\<forall>x. a \<le> x \<and> x < 0 \<longrightarrow> \<not> lt (item d 0) (item d x)" using e by auto
    have hi: "\<forall>x. 0 < x \<and> x < b \<longrightarrow> \<not> lt (item d x) (item d 0)" using e by auto
    have le: "a \<le> 0" "0 < b" using e by simp_all
    have "sel lt d 0"
      using sel_from_range[OF sa sb le b(1,3) lo hi] .
    moreover have "\<forall>x. a \<le> x \<and> x < b \<longrightarrow> \<not> lt (item d 0) (item d x)"
    proof (intro allI impI)
      fix x assume "a \<le> x \<and> x < b"
      then have "x = 0" using e by simp
      then show "\<not> lt (item d 0) (item d x)" using irr by simp
    qed
    ultimately show ?thesis
      using e mx r i0 by (auto intro: perm_in_refl)
  qed
  show ?thesis using A B by blast
qed

theorem pdqselect_fast_paths_witness:
  "(\<exists>mn. min_scan (<) [4, 2, 5, 1, 3, 8, 9 :: int] (0 + 1) 5 0 = Inr mn \<and> 0 \<le> mn \<and> mn < 5 \<and>
       (\<forall>x. 0 \<le> x \<and> x < 5 \<longrightarrow>
          \<not> item [4, 2, 5, 1, 3, 8, 9 :: int] x < item [4, 2, 5, 1, 3, 8, 9 :: int] mn) \<and>
       pdqselect (<) (\<lambda>d a b. (a + (b - a) div 2, unknownHint)) [4, 2, 5, 1, 3, 8, 9 :: int]
          0 5 0 7 = Some (Inr (swp [4, 2, 5, 1, 3, 8, 9 :: int] mn 0)) \<and>
       perm_in 0 5 [4, 2, 5, 1, 3, 8, 9 :: int] (swp [4, 2, 5, 1, 3, 8, 9 :: int] mn 0) \<and>
       sel (<) (swp [4, 2, 5, 1, 3, 8, 9 :: int] mn 0) 0) \<and>
   (\<exists>mx. max_scan (<) [4, 2, 5, 1, 3, 8, 9 :: int] (0 + 1) 5 0 = Inr mx \<and> 0 \<le> mx \<and> mx < 5 \<and>
       (\<forall>x. 0 \<le> x \<and> x < 5 \<longrightarrow>
          \<not> item [4, 2, 5, 1, 3, 8, 9 :: int] mx < item [4, 2, 5, 1, 3, 8, 9 :: int] x) \<and>
       pdqselect (<) (\<lambda>d a b. (a + (b - a) div 2, unknownHint)) [4, 2, 5, 1, 3, 8, 9 :: int]
          0 5 (5 - 1) 7 = Some (Inr (swp [4, 2, 5, 1, 3, 8, 9 :: int] mx (5 - 1))) \<and>
       perm_in 0 5 [4, 2, 5, 1, 3, 8, 9 :: int] (swp [4, 2, 5, 1, 3, 8, 9 :: int] mx (5 - 1)) \<and>
       sel (<) (swp [4, 2, 5, 1, 3, 8, 9 :: int] mx (5 - 1)) (5 - 1))"
proof -
  have h1: "\<forall>x y :: int. x < y \<longrightarrow> \<not> y < x" by simp
  have h2: "\<forall>x y z :: int. \<not> x < y \<longrightarrow> \<not> y < z \<longrightarrow> \<not> x < z" by simp
  have h3: "(0::int) \<le> 0" "(0::int) < 5" "(5::int) \<le> int (length [4, 2, 5, 1, 3, 8, 9 :: int])"
    by simp_all
  have h4: "split_at (<) [4, 2, 5, 1, 3, 8, 9 :: int] 0" by (simp add: split_at_def)
  have h5: "split_at (<) [4, 2, 5, 1, 3, 8, 9 :: int] 5"
    unfolding split_at_def
  proof (intro allI impI)
    fix x y :: int assume a: "0 \<le> x \<and> x < 5 \<and> 5 \<le> y \<and> y < int (length [4, 2, 5, 1, 3, 8, 9 :: int])"
    then have "x = 0 \<or> x = 1 \<or> x = 2 \<or> x = 3 \<or> x = 4" "y = 5 \<or> y = 6" by auto
    then show "\<not> item [4, 2, 5, 1, 3, 8, 9 :: int] y < item [4, 2, 5, 1, 3, 8, 9 :: int] x"
      by (auto simp: item_def)
  qed
  show ?thesis
    using pdqselect_fast_paths[OF h1 h2 h3 h4 h5,
        of "\<lambda>d a b. (a + (b - a) div 2, unknownHint)" 7]
    by simp
qed

text \<open>
  C7. \<open>floydRivest\<close> returns for every slice and every target \<open>k\<close> with
  \<open>left \<le> k \<le> right\<close>, whatever the items are (all equal included), for every comparison
  that is asymmetric. With more than 600 items between \<open>left\<close> and \<open>right\<close> the narrowed
  interval \<open>[newLeft, newRight]\<close> lies inside \<open>[left, right]\<close>, contains \<open>k\<close> and is strictly
  smaller; the estimates are the code's formulas in exact arithmetic (\<open>narrowing\<close>). Each
  partitioning pass returns a \<open>j\<close> for which the next interval of the outer loop is
  strictly smaller.
\<close>

theorem floydRivest_terminates:
  assumes asym: "\<forall>x y. lt x y \<longrightarrow> \<not> lt y x"
    and b: "0 \<le> left" "left \<le> k" "k \<le> right" "right < int (length d)"
  shows "(\<exists>d'. floydRivest lt narrowing d left right k = Some (Inr d')) \<and>
    (right - left > rangeNarrowingThreshold \<longrightarrow>
       left \<le> newLeft narrowing left right k \<and> newLeft narrowing left right k \<le> k \<and>
       k \<le> newRight narrowing left right k \<and> newRight narrowing left right k \<le> right \<and>
       newRight narrowing left right k - newLeft narrowing left right k < right - left) \<and>
    (left < right \<longrightarrow>
       (\<exists>d2 j. fr_pass lt d left right k = Inr (d2, j) \<and>
          left \<le> (if j \<le> k then j + 1 else left) \<and>
          (if k \<le> j then j - 1 else right) \<le> right \<and>
          (if k \<le> j then j - 1 else right) - (if j \<le> k then j + 1 else left) < right - left))"
proof -
  have A: "\<exists>d'. floydRivest lt narrowing d left right k = Some (Inr d')"
    using floydRivest_ok[OF asym narrowing_ok_narrowing b(1,4,2,3)] by blast
  have B: "left \<le> newLeft narrowing left right k \<and> newLeft narrowing left right k \<le> k \<and>
       k \<le> newRight narrowing left right k \<and> newRight narrowing left right k \<le> right \<and>
       newRight narrowing left right k - newLeft narrowing left right k < right - left"
    if "right - left > rangeNarrowingThreshold"
  proof -
    have "newLeft narrowing left right k \<le> k \<and> k \<le> newRight narrowing left right k \<and>
        newRight narrowing left right k - newLeft narrowing left right k < right - left"
      using narrowing_ok_narrowing b that unfolding narrowing_ok_def by blast
    moreover have "left \<le> newLeft narrowing left right k"
      "newRight narrowing left right k \<le> right"
      by (simp_all add: newLeft_def newRight_def)
    ultimately show ?thesis by blast
  qed
  have C: "\<exists>d2 j. fr_pass lt d left right k = Inr (d2, j) \<and>
          left \<le> (if j \<le> k then j + 1 else left) \<and>
          (if k \<le> j then j - 1 else right) \<le> right \<and>
          (if k \<le> j then j - 1 else right) - (if j \<le> k then j + 1 else left) < right - left"
    if lr: "left < right"
  proof -
    from fr_pass_ok[OF asym b(1) lr b(4,2,3)] obtain d2 j where
      "fr_pass lt d left right k = Inr (d2, j)" "left \<le> j" "j \<le> right"
      by blast
    then show ?thesis
      by (intro exI[of _ d2] exI[of _ j]) auto
  qed
  show ?thesis using A B C by blast
qed

theorem floydRivest_terminates_witness:
  "(\<exists>d'. floydRivest (<) narrowing [7, 7, 7, 7, 7 :: int] 0 4 2 = Some (Inr d')) \<and>
   (\<exists>d2 j. fr_pass (<) [7, 7, 7, 7, 7 :: int] 0 4 2 = Inr (d2, j) \<and>
          (0::int) \<le> (if j \<le> 2 then j + 1 else 0) \<and>
          (if 2 \<le> j then j - 1 else 4) \<le> (4::int) \<and>
          (if 2 \<le> j then j - 1 else 4) - (if j \<le> 2 then j + 1 else 0) < (4::int) - 0)"
proof -
  have h1: "\<forall>x y::int. x < y \<longrightarrow> \<not> y < x" by simp
  have h3: "(0::int) \<le> 0" "(0::int) \<le> 2" "(2::int) \<le> 4"
    "(4::int) < int (length [7, 7, 7, 7, 7 :: int])"
    by simp_all
  show ?thesis
    using floydRivest_terminates[OF h1 h3] by simp
qed

text \<open>
  C8. A comparison that violates the contract can drive an index out of the slice: with
  \<open>\<le>\<close> as the comparison, the forward scan of \<open>floydRivest\<close> reads position 2 of a slice
  of two equal items, and Go panics.
\<close>

theorem index_safety_counterexample:
  "FloydRivest (\<le>) narrowing [1, 1 :: int] 1 = Some (Inl IndexOutOfRange)"
  by (simp add: FloydRivest_def floydRivest.simps fr_pass_def fr_loop.simps fr_scan_up.simps
      fr_scan_down.simps Swap_def Less_def inb_def swp_def item_def rangeNarrowingThreshold_def)

text \<open>
  C8, amended. For every slice and every \<open>k\<close>: \<open>heapSelect\<close>, on a range \<open>[a, b)\<close> of the
  slice with a target \<open>0 \<le> j < b - a\<close> counted from \<open>a\<close>, returns without a panic for every
  comparison, whatever it is; the three shapes of FloydRivest return without a panic for
  every comparison that is asymmetric, transitive or not, so the scans of \<open>floydRivest\<close>
  stay inside the slice; the scans for the minimum and the maximum at the entry of
  \<open>pdqselect\<close> (\<open>k = 1\<close>, \<open>k = N\<close>) return without a panic for every comparison. A return
  without a panic means that every index handed to a comparison or a swap was inside the
  slice.
\<close>

theorem index_safety:
  fixes S :: "'a::linorder list"
  assumes nok: "narrowing_ok est"
  shows "(0 \<le> a \<and> 0 \<le> j \<and> a + j < b \<and> b \<le> int (length S) \<longrightarrow>
            (\<exists>S'. heapSelect lt S a b j = Inr S')) \<and>
         ((\<forall>x y. lt x y \<longrightarrow> \<not> lt y x) \<longrightarrow>
            (\<exists>S'. FloydRivest lt est S k = Some (Inr S')) \<and>
            (\<exists>S'. FloydRivestFunc est S k lt = Some (Inr S'))) \<and>
         (\<exists>S'. FloydRivestOrdered est S k = Some (Inr S')) \<and>
         (k = 1 \<or> k = int (length S) \<longrightarrow>
            (\<exists>S'. PDQSelect lt cp S k = Some (Inr S')) \<and>
            (\<exists>S'. PDQSelectOrdered cp S k = Some (Inr S')) \<and>
            (\<exists>S'. PDQSelectFunc cp S k lt = Some (Inr S')))"
proof -
  have o: "\<forall>x y :: 'a. x < y \<longrightarrow> \<not> y < x" by auto
  have H: "\<exists>S'. heapSelect lt S a b j = Inr S'"
    if "0 \<le> a \<and> 0 \<le> j \<and> a + j < b \<and> b \<le> int (length S)"
    using heapSelect_safe[of a j b S lt] that by blast
  have F: "\<exists>S'. FloydRivest lt est S k = Some (Inr S')" if "\<forall>x y. lt x y \<longrightarrow> \<not> lt y x"
    using FloydRivest_returns_asym[OF that nok] .
  have FO: "\<exists>S'. FloydRivest (<) est S k = Some (Inr S')"
    using FloydRivest_returns_asym[OF o nok] .
  have P: "\<exists>S'. PDQSelect lt' cp S k = Some (Inr S')"
    if "k = 1 \<or> k = int (length S)" for lt' :: "'a \<Rightarrow> 'a \<Rightarrow> bool"
    using PDQSelect_fast_safe[OF that] .
  show ?thesis
    unfolding PDQSelectOrdered_def PDQSelectFunc_def FloydRivestOrdered_def FloydRivestFunc_def
    using H F FO P by blast
qed

theorem index_safety_witness:
  "(\<exists>S'. heapSelect (\<le>) [1, 1, 5, 0, 4 :: int] 1 5 2 = Inr S') \<and>
   (\<exists>S'. FloydRivest (\<lambda>x y. y = (x + 1) mod 3) narrowing [1, 2, 0, 1, 2 :: int] 3
      = Some (Inr S')) \<and>
   (\<exists>S'. FloydRivestFunc narrowing [1, 2, 0, 1, 2 :: int] 3 (\<lambda>x y. y = (x + 1) mod 3)
      = Some (Inr S')) \<and>
   (\<exists>S'. FloydRivestOrdered narrowing [1, 2, 0, 1, 2 :: int] 3 = Some (Inr S')) \<and>
   (\<exists>S'. PDQSelect (\<le>) (\<lambda>d a b. (a, unknownHint)) [1, 1, 5, 0, 4 :: int] 5
      = Some (Inr S')) \<and>
   (\<exists>S'. PDQSelectOrdered (\<lambda>d a b. (a, unknownHint)) [1, 1, 5, 0, 4 :: int] 5
      = Some (Inr S')) \<and>
   (\<exists>S'. PDQSelectFunc (\<lambda>d a b. (a, unknownHint)) [1, 1, 5, 0, 4 :: int] 5 (\<le>)
      = Some (Inr S'))"
proof -
  have h: "\<forall>x y :: int. y = (x + 1) mod 3 \<longrightarrow> \<not> x = (y + 1) mod 3"
  proof (intro allI impI)
    fix x y :: int assume "y = (x + 1) mod 3"
    then show "\<not> x = (y + 1) mod 3" by presburger
  qed
  have r: "(0::int) \<le> 1 \<and> (0::int) \<le> 2 \<and> (1::int) + 2 < 5 \<and>
      (5::int) \<le> int (length [1, 1, 5, 0, 4 :: int])" by simp
  have k: "(5::int) = 1 \<or> (5::int) = int (length [1, 1, 5, 0, 4 :: int])" by simp
  have A: "\<exists>S'. heapSelect (\<le>) [1, 1, 5, 0, 4 :: int] 1 5 2 = Inr S'"
    and P: "(\<exists>S'. PDQSelect (\<le>) (\<lambda>d a b. (a, unknownHint)) [1, 1, 5, 0, 4 :: int] 5
               = Some (Inr S')) \<and>
            (\<exists>S'. PDQSelectOrdered (\<lambda>d a b. (a, unknownHint)) [1, 1, 5, 0, 4 :: int] 5
               = Some (Inr S')) \<and>
            (\<exists>S'. PDQSelectFunc (\<lambda>d a b. (a, unknownHint)) [1, 1, 5, 0, 4 :: int] 5 (\<le>)
               = Some (Inr S'))"
    using index_safety[OF narrowing_ok_narrowing, of 1 2 5 "[1, 1, 5, 0, 4 :: int]" "(\<le>)" 5
        "\<lambda>d a b. (a, unknownHint)"] r k
    by blast+
  have B: "(\<exists>S'. FloydRivest (\<lambda>x y. y = (x + 1) mod 3) narrowing [1, 2, 0, 1, 2 :: int] 3
               = Some (Inr S')) \<and>
           (\<exists>S'. FloydRivestFunc narrowing [1, 2, 0, 1, 2 :: int] 3 (\<lambda>x y. y = (x + 1) mod 3)
               = Some (Inr S')) \<and>
           (\<exists>S'. FloydRivestOrdered narrowing [1, 2, 0, 1, 2 :: int] 3 = Some (Inr S'))"
    using index_safety[OF narrowing_ok_narrowing, of 0 0 0 "[1, 2, 0, 1, 2 :: int]"
        "\<lambda>x y. y = (x + 1) mod 3" 3 "\<lambda>d a b. (a, unknownHint)"] h
    by blast
  show ?thesis using A B P by blast
qed

text \<open>
  C9. On ties the item at \<open>k-1\<close> can change: \<open>FloydRivestFunc\<close> comparing by the second
  component, on three items of which the first two tie, with \<open>k = 1\<close>, puts the second
  item at position 0, and called again on the result puts the first one back there.
\<close>

theorem selection_idempotent_counterexample:
  "FloydRivestFunc narrowing [(1, 25), (2, 25), (3, 30 :: int)] 1 (\<lambda>x y. snd x < snd y) =
     Some (Inr [(2, 25), (1 :: int, 25), (3, 30)]) \<and>
   FloydRivestFunc narrowing [(2, 25), (1, 25), (3, 30 :: int)] 1 (\<lambda>x y. snd x < snd y) =
     Some (Inr [(1, 25), (2 :: int, 25), (3, 30)]) \<and>
   [(1, 25), (2 :: int, 25), (3, 30 :: int)] ! nat (1 - 1) \<noteq>
     [(2, 25), (1 :: int, 25), (3, 30 :: int)] ! nat (1 - 1)"
  by (simp add: FloydRivestFunc_def FloydRivest_def floydRivest.simps fr_pass_def fr_loop.simps
      fr_scan_up.simps fr_scan_down.simps Swap_def Less_def inb_def swp_def item_def
      rangeNarrowingThreshold_def)

text \<open>
  C9, amended. For \<open>1 \<le> k \<le> N\<close>, a second call of the same entry point with the same
  \<open>k\<close> on the slice the first call returned gives a slice with the same multiset of items
  whose item at position \<open>k-1\<close> is equivalent to the one the first call put there: it has
  the same key \<open>f\<close>, the key that the comparison goes by, so neither of the two is less
  than the other. For the \<open>Ordered\<close> shapes, which compare the items themselves, it is
  the same item.
\<close>

theorem selection_idempotent:
  fixes S :: "'a::linorder list" and f :: "'a \<Rightarrow> 'b::linorder"
  assumes cok: "chooser_ok cp" and nok: "narrowing_ok est"
    and k: "1 \<le> k" "k \<le> int (length S)"
  shows "(\<exists>S1 S2. PDQSelect (\<lambda>x y. f x < f y) cp S k = Some (Inr S1) \<and>
            PDQSelect (\<lambda>x y. f x < f y) cp S1 k = Some (Inr S2) \<and>
            mset S2 = mset S1 \<and> f (S2 ! nat (k - 1)) = f (S1 ! nat (k - 1))) \<and>
         (\<exists>S1 S2. PDQSelectOrdered cp S k = Some (Inr S1) \<and>
            PDQSelectOrdered cp S1 k = Some (Inr S2) \<and>
            mset S2 = mset S1 \<and> S2 ! nat (k - 1) = S1 ! nat (k - 1)) \<and>
         (\<exists>S1 S2. PDQSelectFunc cp S k (\<lambda>x y. f x < f y) = Some (Inr S1) \<and>
            PDQSelectFunc cp S1 k (\<lambda>x y. f x < f y) = Some (Inr S2) \<and>
            mset S2 = mset S1 \<and> f (S2 ! nat (k - 1)) = f (S1 ! nat (k - 1))) \<and>
         (\<exists>S1 S2. FloydRivest (\<lambda>x y. f x < f y) est S k = Some (Inr S1) \<and>
            FloydRivest (\<lambda>x y. f x < f y) est S1 k = Some (Inr S2) \<and>
            mset S2 = mset S1 \<and> f (S2 ! nat (k - 1)) = f (S1 ! nat (k - 1))) \<and>
         (\<exists>S1 S2. FloydRivestOrdered est S k = Some (Inr S1) \<and>
            FloydRivestOrdered est S1 k = Some (Inr S2) \<and>
            mset S2 = mset S1 \<and> S2 ! nat (k - 1) = S1 ! nat (k - 1)) \<and>
         (\<exists>S1 S2. FloydRivestFunc est S k (\<lambda>x y. f x < f y) = Some (Inr S1) \<and>
            FloydRivestFunc est S1 k (\<lambda>x y. f x < f y) = Some (Inr S2) \<and>
            mset S2 = mset S1 \<and> f (S2 ! nat (k - 1)) = f (S1 ! nat (k - 1)))"
proof -
  have P: "\<exists>S1 S2. PDQSelect (\<lambda>x y. g x < g y) cp S k = Some (Inr S1) \<and>
            PDQSelect (\<lambda>x y. g x < g y) cp S1 k = Some (Inr S2) \<and>
            mset S2 = mset S1 \<and> g (S2 ! nat (k - 1)) = g (S1 ! nat (k - 1))"
    for g :: "'a \<Rightarrow> 'c::linorder"
  proof -
    from PDQSelect_selected[OF cok k, of g] obtain S1 where
      r1: "PDQSelect (\<lambda>x y. g x < g y) cp S k = Some (Inr S1)" "mset S1 = mset S"
          "selected (sort (map g S)) (map g S1) k"
      by blast
    have k1: "k \<le> int (length S1)" using k r1(2) by (metis size_mset)
    from PDQSelect_selected[OF cok k(1) k1, of g] obtain S2 where
      r2: "PDQSelect (\<lambda>x y. g x < g y) cp S1 k = Some (Inr S2)" "mset S2 = mset S1"
          "selected (sort (map g S1)) (map g S2) k"
      by blast
    show ?thesis using r1(1) r2(1,2) selected_twice[OF r1(2,3) r2(2,3) k] by blast
  qed
  have F: "\<exists>S1 S2. FloydRivest (\<lambda>x y. g x < g y) est S k = Some (Inr S1) \<and>
            FloydRivest (\<lambda>x y. g x < g y) est S1 k = Some (Inr S2) \<and>
            mset S2 = mset S1 \<and> g (S2 ! nat (k - 1)) = g (S1 ! nat (k - 1))"
    for g :: "'a \<Rightarrow> 'c::linorder"
  proof -
    from FloydRivest_selected[OF nok k, of g] obtain S1 where
      r1: "FloydRivest (\<lambda>x y. g x < g y) est S k = Some (Inr S1)" "mset S1 = mset S"
          "selected (sort (map g S)) (map g S1) k"
      by blast
    have k1: "k \<le> int (length S1)" using k r1(2) by (metis size_mset)
    from FloydRivest_selected[OF nok k(1) k1, of g] obtain S2 where
      r2: "FloydRivest (\<lambda>x y. g x < g y) est S1 k = Some (Inr S2)" "mset S2 = mset S1"
          "selected (sort (map g S1)) (map g S2) k"
      by blast
    show ?thesis using r1(1) r2(1,2) selected_twice[OF r1(2,3) r2(2,3) k] by blast
  qed
  show ?thesis
    unfolding PDQSelectOrdered_def PDQSelectFunc_def FloydRivestOrdered_def FloydRivestFunc_def
    using P[of f] P[of "\<lambda>x. x"] F[of f] F[of "\<lambda>x. x"] by simp
qed

theorem selection_idempotent_witness:
  "(\<exists>S1 S2. PDQSelect (\<lambda>x y. x mod 3 < y mod 3) (\<lambda>d a b. (a + (b - a) div 2, unknownHint))
              [1, 1, 5, 0, 4 :: int] 3 = Some (Inr S1) \<and>
            PDQSelect (\<lambda>x y. x mod 3 < y mod 3) (\<lambda>d a b. (a + (b - a) div 2, unknownHint))
              S1 3 = Some (Inr S2) \<and>
            mset S2 = mset S1 \<and> (S2 ! nat (3 - 1)) mod 3 = (S1 ! nat (3 - 1)) mod 3) \<and>
   (\<exists>S1 S2. FloydRivestOrdered narrowing [1, 1, 5, 0, 4 :: int] 3 = Some (Inr S1) \<and>
            FloydRivestOrdered narrowing S1 3 = Some (Inr S2) \<and>
            mset S2 = mset S1 \<and> S2 ! nat (3 - 1) = S1 ! nat (3 - 1))"
proof -
  have h: "(1::int) \<le> 3" "(3::int) \<le> int (length [1, 1, 5, 0, 4 :: int])" by simp_all
  show ?thesis
    using selection_idempotent[OF chooser_ok_middle narrowing_ok_narrowing h, of "\<lambda>x. x mod 3"]
    by blast
qed

text \<open>
  C10. On ties the two drivers can differ at \<open>k-1\<close>: on two items with the same first
  component, compared by it, with \<open>k = 2\<close>, \<open>Select\<close> runs the insertion sort, which moves
  nothing, and \<open>PDQSelect\<close> takes the fast path for the maximum, which swaps the two.
\<close>

theorem Select_agreement_counterexample:
  "Select (\<lambda>x y. fst x < fst y) (\<lambda>d a b. Inr d) (\<lambda>d a b. (a + (b - a) div 2, unknownHint))
     [(1, 0), (1 :: int, 1 :: int)] 2 = Some (Inr [(1, 0), (1, 1)]) \<and>
   PDQSelect (\<lambda>x y. fst x < fst y) (\<lambda>d a b. (a + (b - a) div 2, unknownHint))
     [(1, 0), (1 :: int, 1 :: int)] 2 = Some (Inr [(1, 1), (1, 0)]) \<and>
   [(1, 0), (1 :: int, 1 :: int)] ! nat (2 - 1) \<noteq> [(1, 1), (1 :: int, 0 :: int)] ! nat (2 - 1)"
  by (simp add: Select_def Select_loop.simps Select_iter_def PDQSelect_def pdqselect_def
      maxInsertion_def insertionSort_def insertionSort_loop.simps insert_down.simps
      max_scan.simps bits_Len.simps
      Swap_def Less_def inb_def swp_def item_def Let_def)

text \<open>
  C10, amended. For every slice and every \<open>1 \<le> k \<le> N\<close>, \<open>Select\<close> of \<open>src/pdqselect.go\<close>
  and \<open>PDQSelect\<close> both return, the items of the two results at position \<open>k-1\<close> have the
  same key, so that neither is less than the other, and the keys in the first \<open>k\<close>
  positions are the same multiset in both, the \<open>k\<close> smallest keys of the argument. The
  key \<open>f\<close> into a linear order is what the comparison goes by. \<open>heapSort\<close> and the two
  pivot choosers are arbitrary, the choosers returning an index of the range.
\<close>

theorem Select_agrees_with_PDQSelect:
  fixes f :: "'a \<Rightarrow> 'b::linorder"
  assumes cok: "chooser_ok cp" and cok': "chooser_ok cp'"
    and k: "1 \<le> k" "k \<le> int (length S)"
  shows "\<exists>S1 S2. Select (\<lambda>x y. f x < f y) heapSort cp S k = Some (Inr S1) \<and>
           PDQSelect (\<lambda>x y. f x < f y) cp' S k = Some (Inr S2) \<and>
           f (S1 ! nat (k - 1)) = f (S2 ! nat (k - 1)) \<and>
           mset (take (nat k) (map f S1)) = mset (take (nat k) (map f S2)) \<and>
           mset (take (nat k) (map f S2)) = mset (take (nat k) (sort (map f S)))"
proof -
  from Select_selected[OF cok k, of f heapSort] obtain S1 where
    r1: "Select (\<lambda>x y. f x < f y) heapSort cp S k = Some (Inr S1)" "mset S1 = mset S"
        "selected (sort (map f S)) (map f S1) k"
    by blast
  from PDQSelect_selected[OF cok' k, of f] obtain S2 where
    r2: "PDQSelect (\<lambda>x y. f x < f y) cp' S k = Some (Inr S2)" "mset S2 = mset S"
        "selected (sort (map f S)) (map f S2) k"
    by blast
  have len: "length S1 = length S" "length S2 = length S"
    using r1(2) r2(2) by (metis size_mset)+
  have n: "nat (k - 1) < length S" using k by auto
  have "map f S1 ! nat (k - 1) = map f S2 ! nat (k - 1)"
    using r1(3) r2(3) by (simp add: selected_def)
  then have A: "f (S1 ! nat (k - 1)) = f (S2 ! nat (k - 1))" using n len by simp
  have B: "mset (take (nat k) (map f S1)) = mset (take (nat k) (sort (map f S)))"
    "mset (take (nat k) (map f S2)) = mset (take (nat k) (sort (map f S)))"
    using r1(3) r2(3) by (simp_all add: selected_def)
  show ?thesis using r1(1) r2(1) A B by simp
qed

theorem Select_agrees_with_PDQSelect_witness:
  "\<exists>S1 S2. Select (\<lambda>x y. - x < - y) (\<lambda>d a b. Inr d) (\<lambda>d a b. (a, unknownHint))
              [5, 3, 4, 1, 2 :: int] 2 = Some (Inr S1) \<and>
     PDQSelect (\<lambda>x y. - x < - y) (\<lambda>d a b. (a + (b - a) div 2, unknownHint))
              [5, 3, 4, 1, 2 :: int] 2 = Some (Inr S2) \<and>
     - (S1 ! nat (2 - 1)) = - (S2 ! nat (2 - 1)) \<and>
     mset (take (nat 2) (map (\<lambda>x. - x) S1)) = mset (take (nat 2) (map (\<lambda>x. - x) S2)) \<and>
     mset (take (nat 2) (map (\<lambda>x. - x) S2)) =
       mset (take (nat 2) (sort (map (\<lambda>x. - x) [5, 3, 4, 1, 2 :: int])))"
proof -
  have h: "(1::int) \<le> 2" "(2::int) \<le> int (length [5, 3, 4, 1, 2 :: int])" by simp_all
  have c: "chooser_ok (\<lambda>d a b. (a, unknownHint))" by (simp add: chooser_ok_def)
  show ?thesis
    using Select_agrees_with_PDQSelect[OF c chooser_ok_middle h, of "\<lambda>x. - x" "\<lambda>d a b. Inr d"]
    by simp
qed

end
